(* ===== verification/Prelude.thy ===== *)
theory Prelude
  imports Main "HOL-Library.Word" "HOL-Library.Signed_Division"
begin

text \<open>
  Shared vocabulary of the development: the machine integers of the i686 target, the
  status codes of \<^verbatim>\<open>kernel/kstatus.h\<close>, the constants of \<^verbatim>\<open>config.h\<close>, address ranges
  on the 32-bit circle of addresses, and the word lemmas that the component theories use.
\<close>

unbundle bit_operations_syntax

named_theorems loop_simps \<open>one-step unfoldings of the loops of the code\<close>
named_theorems frame_simps \<open>memory cells that an operation leaves alone\<close>
named_theorems rest_rules \<open>operations that change memory, the heap and the ports only\<close>

text \<open>Every error path of the code is a bind of the option monad.\<close>

lemma option_bindE:
  assumes "Option.bind x f = Some y"
  obtains z where "x = Some z" and "f z = Some y"
  using assms by (cases x) auto

lemma if_SomeE:
  assumes "(if b then x else y) = Some z"
  obtains "b" and "x = Some z" | "\<not> b" and "y = Some z"
  using assms by (cases b) auto

section \<open>Machine integers and status codes\<close>

type_synonym u8 = "8 word"
type_synonym u16 = "16 word"
type_synonym u32 = "32 word"

datatype kstatus =
    SUCCESS
  | ERR_INVARG
  | ERR_MALLOC_FAIL
  | ERR_INVPATH
  | ERR_TASK_FAIL
  | ERR_FS_FAIL
  | ERR_FS_INV_SIGN
  | ERR_FS_ROOT_NOT_FOUND
  | ERR_FS_INV_FILE_MODE
  | ERR_FS_FOPEN_FAILED
  | ERR_FS_FREAD_FAILED
  | ERR_FD_NOT_FOUND
  | ERR_MAX_PROCESS_LIMIT_REACHED
  | ERR_PROCESS_LOAD_FAIL
  | ERR_PROCESS_CREATION_FAILED
  | ERR_PROCESS_MAPPING_FAILED
  | ERR_INVALID_ELF_FILE
  | ERR_ELF_PHDR_FAIL

text \<open>The enumerators count from 0 in declaration order.\<close>

fun errno :: "kstatus \<Rightarrow> int" where
  "errno SUCCESS = 0"
| "errno ERR_INVARG = 1"
| "errno ERR_MALLOC_FAIL = 2"
| "errno ERR_INVPATH = 3"
| "errno ERR_TASK_FAIL = 4"
| "errno ERR_FS_FAIL = 5"
| "errno ERR_FS_INV_SIGN = 6"
| "errno ERR_FS_ROOT_NOT_FOUND = 7"
| "errno ERR_FS_INV_FILE_MODE = 8"
| "errno ERR_FS_FOPEN_FAILED = 9"
| "errno ERR_FS_FREAD_FAILED = 10"
| "errno ERR_FD_NOT_FOUND = 11"
| "errno ERR_MAX_PROCESS_LIMIT_REACHED = 12"
| "errno ERR_PROCESS_LOAD_FAIL = 13"
| "errno ERR_PROCESS_CREATION_FAILED = 14"
| "errno ERR_PROCESS_MAPPING_FAILED = 15"
| "errno ERR_INVALID_ELF_FILE = 16"
| "errno ERR_ELF_PHDR_FAIL = 17"

lemma errno_inj: "errno a = errno b \<longleftrightarrow> a = b"
  by (cases a; cases b) simp_all

section \<open>Configuration constants\<close>

abbreviation (input) TOTAL_INTERRUPTS :: nat where "TOTAL_INTERRUPTS \<equiv> 512"
abbreviation (input) GDT_ENTRIES :: nat where "GDT_ENTRIES \<equiv> 6"
abbreviation (input) KERNEL_CODE_SELECTOR :: u16 where "KERNEL_CODE_SELECTOR \<equiv> 0x08"
abbreviation (input) KERNEL_DATA_SELECTOR :: u16 where "KERNEL_DATA_SELECTOR \<equiv> 0x10"
abbreviation (input) USER_DATA_SELECTOR :: u32 where "USER_DATA_SELECTOR \<equiv> 0x23"
abbreviation (input) USER_CODE_SELECTOR :: u32 where "USER_CODE_SELECTOR \<equiv> 0x1B"
abbreviation (input) KERNEL_HEAP_SIZE :: u32 where "KERNEL_HEAP_SIZE \<equiv> 104857600"
abbreviation (input) KERNEL_HB_SIZE :: u32 where "KERNEL_HB_SIZE \<equiv> 4096"
abbreviation (input) KERNEL_HEAP_BASE :: u32 where "KERNEL_HEAP_BASE \<equiv> 0x01000000"
abbreviation (input) KERNEL_HEAP_TABLE_BASE :: u32 where "KERNEL_HEAP_TABLE_BASE \<equiv> 0x00007E00"
abbreviation (input) KERNEL_MAX_0x80_FUNCTIONS :: nat where "KERNEL_MAX_0x80_FUNCTIONS \<equiv> 256"
abbreviation (input) MAX_NUMBER_OF_DISKS :: nat where "MAX_NUMBER_OF_DISKS \<equiv> 26"
abbreviation (input) FS_TOTAL_FILESYSTEMS :: nat where "FS_TOTAL_FILESYSTEMS \<equiv> 16"
abbreviation (input) FS_TOTAL_FILE_DESCRIPTORS :: nat where "FS_TOTAL_FILE_DESCRIPTORS \<equiv> 1024"
abbreviation (input) FS_MAX_PATH_LENGTH :: u32 where "FS_MAX_PATH_LENGTH \<equiv> 512"
abbreviation (input) FS_MAX_PATH_UNIT_LENGTH :: u32 where "FS_MAX_PATH_UNIT_LENGTH \<equiv> 64"
abbreviation (input) TASK_DEFAULT_START :: u32 where "TASK_DEFAULT_START \<equiv> 0x400000"
abbreviation (input) TASK_STACK_SIZE :: u32 where "TASK_STACK_SIZE \<equiv> 16384"
abbreviation (input) TASK_DEFAULT_STACK_BEGIN :: u32 where "TASK_DEFAULT_STACK_BEGIN \<equiv> 0x3FF000"
abbreviation (input) TASK_DEFAULT_STACK_END :: u32 where
  "TASK_DEFAULT_STACK_END \<equiv> TASK_DEFAULT_STACK_BEGIN - TASK_STACK_SIZE"
abbreviation (input) PROCESS_MAX_PROCESSES :: nat where "PROCESS_MAX_PROCESSES \<equiv> 16"
abbreviation (input) PROCESS_MAX_PROCESS_MEM_ALLOCATIONS :: nat where
  "PROCESS_MAX_PROCESS_MEM_ALLOCATIONS \<equiv> 1024"
abbreviation (input) PROCESS_MAX_PROCESS_STACK_SIZE :: u32 where "PROCESS_MAX_PROCESS_STACK_SIZE \<equiv> 65536"
abbreviation (input) PROCESS_MAX_KEYBOARD_BUFFER_SIZE :: nat where
  "PROCESS_MAX_KEYBOARD_BUFFER_SIZE \<equiv> 1024"

section \<open>Word lemmas\<close>

lemma unat_Suc_less:
  fixes i n :: "'a::len word"
  assumes "i < n"
  shows "unat (i + 1) = Suc (unat i)"
proof -
  have "1 + i \<noteq> 0"
  proof
    assume "1 + i = 0"
    then have "i = - 1" by (simp only: eq_neg_iff_add_eq_0 add.commute)
    moreover have "n \<le> - 1" by (rule word_order.extremum)
    ultimately show False using assms by (simp add: leD)
  qed
  then show ?thesis by (simp add: unatSuc add.commute)
qed

lemma word_Suc_le_iff:
  fixes i n y :: "'a::len word"
  assumes "i < n"
  shows "i + 1 \<le> y \<longleftrightarrow> i < y"
  by (simp add: word_le_nat_alt word_less_nat_alt unat_Suc_less [OF assms] Suc_le_eq)

lemma unat_loop_dec:
  fixes i n :: "'a::len word"
  assumes "i < n"
  shows "unat n - unat (i + 1) < unat n - unat i"
  using assms by (simp add: unat_Suc_less word_less_nat_alt)

lemma unat_pred_less:
  fixes n :: "'a::len word"
  assumes "n \<noteq> 0"
  shows "unat (n - 1) < unat n"
  using assms by (metis measure_unat)

lemma word_add_eq_iff_diff:
  fixes a x i :: "'a::len word"
  shows "x = a + i \<longleftrightarrow> x - a = i"
  by (auto simp: algebra_simps)

lemma unat_of_nat_less:
  assumes "i < 2 ^ LENGTH('a)"
  shows "unat (of_nat i :: 'a::len word) = i"
  using assms by (simp add: unat_of_nat)

lemma of_nat_u32_eq_iff:
  assumes "i < 2 ^ 32" and "j < 2 ^ 32"
  shows "(of_nat i :: u32) = of_nat j \<longleftrightarrow> i = j"
  using assms by (simp add: word_of_nat_eq_iff take_bit_eq_mod)

lemma of_nat_less_word:
  fixes n :: "'a::len word"
  assumes "i < unat n"
  shows "of_nat i < n" and "unat (of_nat i :: 'a word) = i"
proof -
  have "i < 2 ^ LENGTH('a)"
    using assms unsigned_less [of n] by (rule less_trans)
  then show "unat (of_nat i :: 'a word) = i" by (rule unat_of_nat_less)
  with assms show "of_nat i < n" by (simp add: word_less_nat_alt)
qed

lemma sint_range32:
  fixes w :: u32
  shows "- 2147483648 \<le> sint w" and "sint w < 2147483648"
  using sint_greater_eq [of w] sint_less [of w] by simp_all

lemma sint_uminus32:
  fixes w :: u32
  assumes "w \<noteq> 0x80000000"
  shows "sint (- w) = - sint w"
proof -
  have "sint w \<noteq> - 2147483648"
  proof
    assume "sint w = - 2147483648"
    then have "word_of_int (sint w) = (word_of_int (- 2147483648) :: u32)" by (rule arg_cong)
    then show False using assms by simp
  qed
  then have "signed_take_bit 31 (- sint w) = - sint w"
    using sint_range32 [of w] by (intro signed_take_bit_int_eq_self) simp_all
  moreover have "sint (- w) = signed_take_bit 31 (- sint w)"
    using sint_sbintrunc' [of "- sint w", where ?'a = 32] by simp
  ultimately show ?thesis by simp
qed

section \<open>Pages and blocks of 4096 bytes\<close>

lemma unat_mod_4096: "unat (w mod 4096 :: u32) = unat w mod 4096"
  by (simp add: unat_mod_distrib)

lemma unat_div_4096: "unat (w div 4096 :: u32) = unat w div 4096"
  by (simp add: unat_div_distrib)

lemma split_4096:
  fixes n :: nat
  obtains q r where "n = 4096 * q + r" "r < 4096" "n div 4096 = q" "n mod 4096 = r"
  by (rule that [of "n div 4096" "n mod 4096"]) simp_all

lemma roundup_nat:
  fixes n :: nat
  shows "(n + 4095) div 4096 = n div 4096 + (if n mod 4096 = 0 then 0 else 1)"
proof -
  obtain q r where n: "n = 4096 * q + r" "r < 4096" "n div 4096 = q" "n mod 4096 = r"
    by (rule split_4096)
  show ?thesis unfolding n(3,4) using n(1,2) by (intro div_nat_eqI) auto
qed

lemma last_page: 
  fixes n :: nat
  assumes "n < 2 ^ 32"
  shows "n \<le> 2 ^ 32 - 4096 \<longleftrightarrow> n div 4096 + (if n mod 4096 = 0 then 0 else 1) < 2 ^ 20"
proof -
  obtain q r where n: "n = 4096 * q + r" "r < 4096" "n div 4096 = q" "n mod 4096 = r"
    by (rule split_4096)
  show ?thesis unfolding n(3,4) using n(1,2) assms by auto
qed

lemma align_up_u32:
  fixes sz :: "u32"
  shows "unat (sz - sz mod 4096 + 4096) = (unat sz div 4096 + 1) * 4096 mod 2^32"
proof -
  have "sz mod 4096 \<le> sz" by (simp add: word_le_nat_alt unat_mod_4096)
  then have "unat (sz - sz mod 4096) = unat sz - unat sz mod 4096"
    by (simp add: unat_sub unat_mod_4096)
  also have "\<dots> = unat sz div 4096 * 4096"
    by (simp add: minus_mod_eq_div_mult)
  finally have u: "unat (sz - sz mod 4096) = unat sz div 4096 * 4096" .
  have "unat (sz - sz mod 4096 + 4096) = (unat (sz - sz mod 4096) + unat (4096 :: u32)) mod 2 ^ LENGTH(32)"
    by (rule unat_word_ariths)
  then show ?thesis unfolding u by (simp add: add.commute [of "unat sz div 4096 * 4096" 4096])
qed

lemma mod_4096_take_bit: "(w :: u32) mod 4096 = take_bit 12 w"
  by (simp add: take_bit_eq_mod)

lemma mod_4096_add_mult: "(a + b * 4096 :: u32) mod 4096 = a mod 4096"
proof (rule unsigned_word_eqI [where ?'a = nat])
  have "unat (a + b * 4096) = (unat a + unat b * 4096) mod 2 ^ 32"
    using unat_word_ariths(1) [of a "b * 4096"] unat_word_ariths(2) [of b 4096]
    by (simp add: mod_add_right_eq)
  then have "unat (a + b * 4096) mod 4096 = (unat a + unat b * 4096) mod 4096"
    by (simp add: mod_mod_cancel)
  then show "unat ((a + b * 4096) mod 4096) = unat (a mod 4096)"
    by (simp add: unat_mod_4096)
qed

end
