(* ===== verification/CMem.thy ===== *)
theory CMem
  imports Prelude
begin

text \<open>
  Physical memory as a total function from 32-bit addresses to bytes, with the byte routines of
  \<^verbatim>\<open>mm/memory.c\<close> (\<open>memset\<close>, \<open>memcpy\<close>, \<open>memcmp\<close>) and the little-endian
  16- and 32-bit accesses the compiler emits for the \<^verbatim>\<open>uint16_t\<close> and \<^verbatim>\<open>uint32_t\<close>
  objects of the kernel. The kernel runs with an identity mapping, so every address is backed and a
  store through a null pointer hits byte 0. Addresses wrap at \<open>2 ^ 32\<close>; a range is described by
  the distance from its base (\<open>within\<close>), which is exact even when it wraps.
\<close>

type_synonym memory = "u32 \<Rightarrow> u8"

section \<open>Ranges, bytes, and wide accesses\<close>

definition within :: "u32 \<Rightarrow> u32 \<Rightarrow> u32 \<Rightarrow> bool" where
  "within a n x \<longleftrightarrow> x - a < n"

definition bytes_at :: "memory \<Rightarrow> u32 \<Rightarrow> nat \<Rightarrow> u8 list" where
  "bytes_at m a n = map (\<lambda>i. m (a + of_nat i)) [0..<n]"

definition load16 :: "memory \<Rightarrow> u32 \<Rightarrow> u16" where
  "load16 m a = ucast (m a) OR push_bit 8 (ucast (m (a + 1)))"

definition load32 :: "memory \<Rightarrow> u32 \<Rightarrow> u32" where
  "load32 m a = ucast (m a) OR push_bit 8 (ucast (m (a + 1)))
     OR push_bit 16 (ucast (m (a + 2))) OR push_bit 24 (ucast (m (a + 3)))"

definition store16 :: "memory \<Rightarrow> u32 \<Rightarrow> u16 \<Rightarrow> memory" where
  "store16 m a v = m(a := ucast v, a + 1 := ucast (drop_bit 8 v))"

definition store32 :: "memory \<Rightarrow> u32 \<Rightarrow> u32 \<Rightarrow> memory" where
  "store32 m a v = m(a := ucast v, a + 1 := ucast (drop_bit 8 v),
     a + 2 := ucast (drop_bit 16 v), a + 3 := ucast (drop_bit 24 v))"

lemma length_bytes_at [simp]: "length (bytes_at m a n) = n"
  by (simp add: bytes_at_def)

lemma nth_bytes_at [simp]: "i < n \<Longrightarrow> bytes_at m a n ! i = m (a + of_nat i)"
  by (simp add: bytes_at_def)

lemma u32_split_bytes:
  fixes v :: u32
  shows "ucast (ucast v :: u8) OR push_bit 8 (ucast (ucast (drop_bit 8 v) :: u8))
     OR push_bit 16 (ucast (ucast (drop_bit 16 v) :: u8))
     OR push_bit 24 (ucast (ucast (drop_bit 24 v) :: u8)) = v"
proof (rule bit_word_eqI)
  fix n assume "n < LENGTH(32)"
  then consider "n < 8" | "8 \<le> n" "n < 16" | "16 \<le> n" "n < 24" | "24 \<le> n" "n < 32"
    by fastforce
  then show "bit (ucast (ucast v :: u8) OR push_bit 8 (ucast (ucast (drop_bit 8 v) :: u8))
     OR push_bit 16 (ucast (ucast (drop_bit 16 v) :: u8))
     OR push_bit 24 (ucast (ucast (drop_bit 24 v) :: u8)) :: u32) n = bit v n"
    by cases (auto simp: bit_simps)
qed

lemma u16_split_bytes:
  fixes v :: u16
  shows "ucast (ucast v :: u8) OR push_bit 8 (ucast (ucast (drop_bit 8 v) :: u8)) = v"
  by (rule bit_word_eqI) (auto simp: bit_simps)

lemma load32_store32_same [simp]: "load32 (store32 m a v) a = v"
  by (simp add: load32_def store32_def u32_split_bytes)

lemma load16_store16_same [simp]: "load16 (store16 m a v) a = v"
  by (simp add: load16_def store16_def u16_split_bytes)

lemma store32_other:
  "\<not> within a 4 x \<Longrightarrow> store32 m a v x = m x"
  by (auto simp: store32_def within_def)

lemma load32_cong:
  assumes "\<And>x. within a 4 x \<Longrightarrow> m' x = m x"
  shows "load32 m' a = load32 m a"
  by (simp add: load32_def assms within_def)

text \<open>Writing back what another memory holds in a cell.\<close>

lemma store32_load32: "within a 4 x \<Longrightarrow> store32 m a (load32 m' a) x = m' x"
proof -
  assume "within a 4 x"
  then have "unat (x - a) < 4" by (simp add: within_def word_less_nat_alt)
  then have "unat (x - a) = 0 \<or> unat (x - a) = 1 \<or> unat (x - a) = 2 \<or> unat (x - a) = 3" by arith
  then have "x - a = 0 \<or> x - a = 1 \<or> x - a = 2 \<or> x - a = 3" by (auto simp: word_unat_eq_iff)
  then have x: "x = a \<or> x = a + 1 \<or> x = a + 2 \<or> x = a + 3" by (auto simp: algebra_simps)
  have b: "(ucast (load32 m' a) :: u8) = m' a" "(ucast (drop_bit 8 (load32 m' a)) :: u8) = m' (a + 1)"
    "(ucast (drop_bit 16 (load32 m' a)) :: u8) = m' (a + 2)" "(ucast (drop_bit 24 (load32 m' a)) :: u8) = m' (a + 3)"
    by (rule bit_word_eqI; auto simp: load32_def bit_simps dest: bit_imp_le_length)+
  show ?thesis using x by (auto simp: store32_def b)
qed

text \<open>A word-sized cell at a small offset inside a structure.\<close>

lemma field_within:
  fixes a i n x :: u32
  assumes "x - (a + i) < 4" and "i \<le> n" and "n \<le> 0x10000"
  shows "x - a < n + 4"
proof -
  have u: "unat (x - (a + i)) < 4" "unat i \<le> unat n" "unat n \<le> 65536"
    using assms by (simp_all add: word_less_nat_alt word_le_nat_alt)
  have "unat (x - a) = unat ((x - (a + i)) + i)" by simp
  also have "\<dots> = unat (x - (a + i)) + unat i"
    using u unat_word_ariths(1) [of "x - (a + i)" i] by simp
  moreover have "unat (n + 4) = unat n + 4"
    using u unat_word_ariths(1) [of n 4] by simp
  ultimately show ?thesis using u by (simp add: word_less_nat_alt)
qed

text \<open>Two word-sized cells are disjoint exactly when neither starts inside the other.\<close>

lemma within_offset:
  assumes "within (a + of_nat k) (of_nat w) x" and "k + w \<le> n" and "n < 2 ^ 32"
  shows "within a (of_nat n) x"
proof -
  let ?d = "x - (a + of_nat k)"
  have u: "unat (of_nat w :: u32) = w" "unat (of_nat n :: u32) = n" "unat (of_nat k :: u32) = k"
    using assms(2,3) by (auto intro: unat_of_nat_less)
  have "unat ?d < w" using assms(1) u by (simp add: within_def word_less_nat_alt)
  moreover have "x - a = ?d + of_nat k" by simp
  ultimately have "unat (x - a) < n"
    using assms(2,3) u unat_word_ariths(1) [of ?d "of_nat k"] by simp
  then show ?thesis using u by (simp add: within_def word_less_nat_alt)
qed

definition apart4 :: "u32 \<Rightarrow> u32 \<Rightarrow> bool" where
  "apart4 a b \<longleftrightarrow> 4 \<le> a - b \<and> 4 \<le> b - a"

lemma apart4_sym: "apart4 a b \<longleftrightarrow> apart4 b a"
  by (auto simp: apart4_def)

lemma word_sub_both_ge_4:
  fixes p q :: u32
  shows "p < 4 \<Longrightarrow> q < 4 \<Longrightarrow> 4 \<le> q - p \<Longrightarrow> 4 \<le> p - q \<Longrightarrow> False"
  by unat_arith

lemma apart4_disjoint:
  assumes "apart4 a b" and "within a 4 x"
  shows "\<not> within b 4 x"
proof
  assume "within b 4 x"
  moreover have "a - b = (x - b) - (x - a)" and "b - a = (x - a) - (x - b)" by simp_all
  ultimately show False
    using assms word_sub_both_ge_4 [of "x - a" "x - b"] unfolding apart4_def within_def by metis
qed

lemma load32_store32_apart [simp]:
  "apart4 a b \<Longrightarrow> load32 (store32 m a v) b = load32 m b"
  by (rule load32_cong) (metis apart4_disjoint apart4_sym store32_other)

section \<open>\<^verbatim>\<open>mm/memory.c\<close>\<close>

text \<open>\<open>memset\<close>: the loop of the code, with the fill value truncated to a \<open>char\<close>.\<close>

function memset_loop :: "memory \<Rightarrow> u32 \<Rightarrow> u32 \<Rightarrow> u32 \<Rightarrow> u32 \<Rightarrow> memory" where
  "memset_loop m base v i n =
     (if i < n then memset_loop (m(base + i := ucast v)) base v (i + 1) n else m)"
  by pat_completeness auto
termination
  by (relation "measure (\<lambda>(m, base, v, i, n). unat n - unat i)") (auto simp: unat_loop_dec)

declare memset_loop.simps [simp del, loop_simps]

definition memset :: "memory \<Rightarrow> u32 \<Rightarrow> u32 \<Rightarrow> u32 \<Rightarrow> memory" where
  "memset m base v n = memset_loop m base v 0 n"

text \<open>\<open>memcpy\<close>: forward, one byte at a time.\<close>

function memcpy :: "memory \<Rightarrow> u32 \<Rightarrow> u32 \<Rightarrow> u32 \<Rightarrow> memory" where
  "memcpy m tgt src n =
     (if n = 0 then m else memcpy (m(tgt := m src)) (tgt + 1) (src + 1) (n - 1))"
  by pat_completeness auto
termination
  by (relation "measure (\<lambda>(m, tgt, src, n). unat n)") (auto simp: unat_pred_less)

declare memcpy.simps [simp del, loop_simps]

text \<open>\<open>memcmp\<close> answers 0 or 1, and stops early when a pointer reaches null.\<close>

function memcmp :: "memory \<Rightarrow> u32 \<Rightarrow> u32 \<Rightarrow> u32 \<Rightarrow> u8" where
  "memcmp m b1 b2 n =
     (if n \<noteq> 0 \<and> b1 \<noteq> 0 \<and> b2 \<noteq> 0
      then if m b1 \<noteq> m b2 then 1 else memcmp m (b1 + 1) (b2 + 1) (n - 1)
      else 0)"
  by pat_completeness auto
termination
  by (relation "measure (\<lambda>(m, b1, b2, n). unat n)") (auto simp: unat_pred_less)

declare memcmp.simps [simp del, loop_simps]

lemma memset_loop_eq:
  "memset_loop m base v i n = (\<lambda>x. if i \<le> x - base \<and> x - base < n then ucast v else m x)"
proof (induction m base v i n rule: memset_loop.induct)
  case (1 m base v i n)
  show ?case
  proof (cases "i < n")
    case True
    have step: "i + 1 \<le> x - base \<longleftrightarrow> i \<le> x - base \<and> x - base \<noteq> i" for x
      using word_Suc_le_iff [OF True] by (auto simp: order.order_iff_strict)
    have "memset_loop m base v i n = memset_loop (m(base + i := ucast v)) base v (i + 1) n"
      using True by (subst memset_loop.simps) simp
    also have "\<dots> = (\<lambda>x. if i + 1 \<le> x - base \<and> x - base < n then ucast v
        else (m(base + i := ucast v)) x)"
      by (rule "1.IH" [OF True])
    also have "\<dots> = (\<lambda>x. if i \<le> x - base \<and> x - base < n then ucast v else m x)"
      using True by (auto simp: fun_eq_iff step word_add_eq_iff_diff)
    finally show ?thesis .
  next
    case False
    then show ?thesis
      by (subst memset_loop.simps) (auto simp: fun_eq_iff not_less)
  qed
qed

lemma memset_eq: "memset m base v n = (\<lambda>x. if within base n x then ucast v else m x)"
  by (simp add: memset_def memset_loop_eq within_def)

lemma word_pred_less_iff:
  fixes y n :: u32
  shows "n \<noteq> 0 \<Longrightarrow> y - 1 < n - 1 \<longleftrightarrow> y \<noteq> 0 \<and> y < n"
  by unat_arith

lemma word_sub_pred_ge:
  fixes d n :: u32
  shows "n \<noteq> 0 \<Longrightarrow> n \<le> d \<Longrightarrow> n - 1 \<le> d"
  by unat_arith

text \<open>
  The copy is right whenever the target does not start strictly inside the source; a target
  that starts before an overlapping source is fine, because the copy runs forward.
\<close>

lemma memcpy_eq:
  assumes "tgt = src \<or> n \<le> tgt - src"
  shows "memcpy m tgt src n = (\<lambda>x. if within tgt n x then m (src + (x - tgt)) else m x)"
  using assms
proof (induction m tgt src n rule: memcpy.induct)
  case (1 m tgt src n)
  show ?case
  proof (cases "n = 0")
    case True
    then show ?thesis by (subst memcpy.simps) (simp add: within_def)
  next
    case False
    let ?m = "m(tgt := m src)"
    have pre: "tgt + 1 = src + 1 \<or> n - 1 \<le> (tgt + 1) - (src + 1)"
      using "1.prems" word_sub_pred_ge [OF False] by auto
    have keep: "?m (src + (x - tgt)) = m (src + (x - tgt))" if "within tgt n x" "x \<noteq> tgt" for x
    proof -
      have "src + (x - tgt) \<noteq> tgt"
      proof
        assume "src + (x - tgt) = tgt"
        then have "tgt - src = x - tgt" by (metis add_diff_cancel_left')
        with "1.prems" that show False by (auto simp: within_def)
      qed
      then show ?thesis by simp
    qed
    have "memcpy m tgt src n = memcpy ?m (tgt + 1) (src + 1) (n - 1)"
      using False by (subst memcpy.simps) simp
    also have "\<dots>
        = (\<lambda>x. if within (tgt + 1) (n - 1) x then ?m (src + 1 + (x - (tgt + 1))) else ?m x)"
      by (rule "1.IH" [OF False pre])
    also have "\<dots> = (\<lambda>x. if within tgt n x then m (src + (x - tgt)) else m x)"
    proof
      fix x
      have w: "within (tgt + 1) (n - 1) x \<longleftrightarrow> x \<noteq> tgt \<and> within tgt n x"
        using word_pred_less_iff [OF False, of "x - tgt"] by (auto simp: within_def algebra_simps)
      have "within tgt n tgt" using False by (simp add: within_def word_gt_0)
      moreover have "src + 1 + (x - (tgt + 1)) = src + (x - tgt)" by simp
      ultimately show "(if within (tgt + 1) (n - 1) x then ?m (src + 1 + (x - (tgt + 1))) else ?m x)
          = (if within tgt n x then m (src + (x - tgt)) else m x)"
        using keep [of x] by (cases "x = tgt") (simp_all only: w, auto)
    qed
    finally show ?thesis .
  qed
qed

lemma bytes_at_0 [simp]: "bytes_at m a 0 = []"
  by (simp add: bytes_at_def)

lemma bytes_at_Suc: "bytes_at m a (Suc k) = m a # bytes_at m (a + 1) k"
  by (rule nth_equalityI) (auto simp: bytes_at_def nth_Cons add.assoc simp del: upt_Suc split: nat.split)

lemma bytes_at_cong: "(\<And>i. i < n \<Longrightarrow> m (a + of_nat i) = m' (b + of_nat i)) \<Longrightarrow>
    bytes_at m a n = bytes_at m' b n"
  by (simp add: bytes_at_def)

lemma unat_eq_Suc_pred:
  fixes n :: "'a::len word"
  shows "n \<noteq> 0 \<Longrightarrow> unat n = Suc (unat (n - 1))"
  by (metis add.commute diff_add_cancel unatSuc)

text \<open>\<open>in_bounds b n\<close>: the \<open>n\<close> bytes at \<open>b\<close> do not include the null byte and do not wrap.\<close>

definition in_bounds :: "u32 \<Rightarrow> u32 \<Rightarrow> bool" where
  "in_bounds b n \<longleftrightarrow> n = 0 \<or> b \<noteq> 0 \<and> unat b + unat n \<le> 2 ^ 32"

lemma in_bounds_step:
  assumes "in_bounds b n" and "n \<noteq> 0"
  shows "b \<noteq> 0" and "in_bounds (b + 1) (n - 1)"
proof -
  show "b \<noteq> 0" using assms by (simp add: in_bounds_def)
  show "in_bounds (b + 1) (n - 1)"
  proof (cases "n - 1 = 0")
    case True
    then show ?thesis by (simp add: in_bounds_def)
  next
    case False
    then have "unat b + 1 < 2 ^ 32"
      using assms unat_eq_Suc_pred [of n] unat_eq_Suc_pred [of "n - 1"] by (simp add: in_bounds_def)
    then have "unat (b + 1) = unat b + 1"
      by (simp add: unat_word_ariths)
    then show ?thesis
      using assms unat_eq_Suc_pred [of n] by (auto simp: in_bounds_def)
  qed
qed

lemma memcmp_zero_iff:
  assumes "in_bounds b1 n" and "in_bounds b2 n"
  shows "memcmp m b1 b2 n = 0 \<longleftrightarrow> bytes_at m b1 (unat n) = bytes_at m b2 (unat n)"
  using assms
proof (induction m b1 b2 n rule: memcmp.induct)
  case (1 m b1 b2 n)
  show ?case
  proof (cases "n = 0")
    case True
    then show ?thesis by (subst memcmp.simps) simp
  next
    case False
    note s1 = in_bounds_step [OF "1.prems"(1) False]
    note s2 = in_bounds_step [OF "1.prems"(2) False]
    from False s1 s2 show ?thesis
      using "1.IH" by (subst memcmp.simps) (auto simp: unat_eq_Suc_pred [OF False] bytes_at_Suc)
  qed
qed

lemma memcmp_bool: "memcmp m b1 b2 n \<in> {0, 1}"
proof (induction m b1 b2 n rule: memcmp.induct)
  case (1 m b1 b2 n)
  then show ?case by (subst memcmp.simps) auto
qed

lemma bytes_at_memset:
  "bytes_at (memset m base v n) base (unat n) = replicate (unat n) (ucast v)"
  by (rule nth_equalityI) (auto simp: memset_eq within_def of_nat_less_word)

end
