(* ===== verification/Alloc_Spec.thy ===== *)
theory Alloc_Spec
  imports CMem
begin

text \<open>
  The contract between the allocators (\<open>malloc\<close> on a heap, \<open>kmalloc\<close> and
  \<open>kzalloc\<close> on the kernel state) and the code that allocates: page tables, paths, file-system
  objects, processes. \<open>used h\<close> is the set of addresses inside occupied blocks.
\<close>

locale allocator =
  fixes inv :: "'h \<Rightarrow> bool"
    and alloc :: "'h \<Rightarrow> u32 \<Rightarrow> (u32 \<times> 'h) option"
    and release :: "'h \<Rightarrow> u32 \<Rightarrow> 'h"
    and used :: "'h \<Rightarrow> u32 set"
  assumes alloc_total: "inv h \<Longrightarrow> \<exists>a h'. alloc h n = Some (a, h')"
    and alloc_inv: "inv h \<Longrightarrow> alloc h n = Some (a, h') \<Longrightarrow> inv h'"
    and alloc_null: "inv h \<Longrightarrow> alloc h n = Some (0, h') \<Longrightarrow> used h' = used h"
    and alloc_fresh: "inv h \<Longrightarrow> alloc h n = Some (a, h') \<Longrightarrow> a \<noteq> 0 \<Longrightarrow> within a n x \<Longrightarrow> x \<notin> used h"
    and alloc_used: "inv h \<Longrightarrow> alloc h n = Some (a, h') \<Longrightarrow> a \<noteq> 0 \<Longrightarrow> within a n x \<Longrightarrow> x \<in> used h'"
    and alloc_mono: "inv h \<Longrightarrow> alloc h n = Some (a, h') \<Longrightarrow> used h \<subseteq> used h'"
    and alloc_aligned: "inv h \<Longrightarrow> alloc h n = Some (a, h') \<Longrightarrow> a mod 4096 = 0"
    and release_inv: "inv h \<Longrightarrow> inv (release h a)"
    and release_sub: "inv h \<Longrightarrow> used (release h a) \<subseteq> used h"
begin

lemma alloc_disjoint:
  assumes "inv h" and "alloc h n = Some (a, h1)" and "a \<noteq> 0"
    and "inv h2" and "used h1 \<subseteq> used h2"
    and "alloc h2 k = Some (b, h3)" and "b \<noteq> 0"
    and "within a n x"
  shows "\<not> within b k x"
  using alloc_used [OF assms(1-3,8)] alloc_fresh [OF assms(4,6,7)] assms(5) by blast

text \<open>A block handed out is outside every block that was in use before.\<close>

lemma alloc_start_fresh:
  assumes "inv h" and "alloc h n = Some (a, h')" and "a \<noteq> 0" and "n \<noteq> 0"
  shows "a \<notin> used h" and "a \<in> used h'"
  using alloc_fresh [OF assms(1-3), of a] alloc_used [OF assms(1-3), of a] assms(4)
  by (simp_all add: within_def word_gt_0)

end

text \<open>A run of allocations of the same size, as the loops that build tables perform it.\<close>

fun alloc_run :: "('h \<Rightarrow> u32 \<Rightarrow> (u32 \<times> 'h) option) \<Rightarrow> 'h \<Rightarrow> u32 \<Rightarrow> nat \<Rightarrow> (u32 list \<times> 'h) option"
where
  "alloc_run alloc h n 0 = Some ([], h)"
| "alloc_run alloc h n (Suc k) =
     (case alloc h n of
        None \<Rightarrow> None
      | Some (a, h1) \<Rightarrow>
          (case alloc_run alloc h1 n k of
             None \<Rightarrow> None
           | Some (as, h2) \<Rightarrow> Some (a # as, h2)))"

context allocator
begin

lemma alloc_run_total:
  "inv h \<Longrightarrow> \<exists>as h'. alloc_run alloc h n k = Some (as, h') \<and> inv h' \<and> length as = k
     \<and> used h \<subseteq> used h'"
proof (induction k arbitrary: h)
  case 0
  then show ?case by simp
next
  case (Suc k)
  obtain a h1 where a: "alloc h n = Some (a, h1)" using alloc_total [OF Suc.prems] by blast
  then have "inv h1" "used h \<subseteq> used h1"
    using alloc_inv [OF Suc.prems a] alloc_mono [OF Suc.prems a] by blast+
  with a Suc.IH [of h1] show ?case by fastforce
qed

lemma alloc_run_fresh:
  assumes "inv h" and "alloc_run alloc h n k = Some (as, h')" and "a \<in> set as" and "a \<noteq> 0"
    and "within a n x"
  shows "x \<notin> used h"
  using assms
proof (induction k arbitrary: h as)
  case 0
  then show ?case by simp
next
  case (Suc k)
  obtain b h1 bs where b: "alloc h n = Some (b, h1)" "alloc_run alloc h1 n k = Some (bs, h')"
    "as = b # bs"
    using Suc.prems(2) by (auto split: option.splits)
  show ?case
  proof (cases "a = b")
    case True
    then show ?thesis using alloc_fresh Suc.prems b(1) by blast
  next
    case False
    then have "x \<notin> used h1"
      using Suc.IH [of h1 bs] alloc_inv [OF Suc.prems(1) b(1)] b Suc.prems by simp
    then show ?thesis using alloc_mono [OF Suc.prems(1) b(1)] by blast
  qed
qed

text \<open>The blocks of a run are pairwise disjoint.\<close>

lemma alloc_run_disjoint:
  assumes "inv h" and "alloc_run alloc h n k = Some (as, h')" and "i < j" and "j < length as"
    and "as ! i \<noteq> 0" and "as ! j \<noteq> 0" and "within (as ! i) n x"
  shows "\<not> within (as ! j) n x"
  using assms
proof (induction k arbitrary: h as i j)
  case 0
  then show ?case by simp
next
  case (Suc k)
  obtain b h1 bs where b: "alloc h n = Some (b, h1)" "alloc_run alloc h1 n k = Some (bs, h')"
    "as = b # bs"
    using Suc.prems(2) by (auto split: option.splits)
  have inv1: "inv h1" by (rule alloc_inv [OF Suc.prems(1) b(1)])
  show ?case
  proof (cases i)
    case 0
    then have "x \<in> used h1" using alloc_used [OF Suc.prems(1) b(1)] Suc.prems b(3) by simp
    moreover have "as ! j \<in> set bs" using Suc.prems 0 b(3) by (cases j) auto
    ultimately show ?thesis using alloc_run_fresh [OF inv1 b(2)] Suc.prems(6) by blast
  next
    case (Suc i')
    then show ?thesis
      using Suc.IH [OF inv1 b(2), of i' "j - 1"] Suc.prems b(3) by (cases j) auto
  qed
qed

end

end
