(* ===== verification/Heap.thy ===== *)
theory Heap
  imports Alloc_Spec
begin

text \<open>
  The block allocator of \<^verbatim>\<open>mm/heap/heap.c\<close>. A heap is a table of one byte per 4096-byte
  block (\<open>entries\<close>, a C array, here a function of the index), the number of entries and the base
  address. The state of \<open>struct heap\<close> and of the \<open>struct hb_table\<close> it points to is one
  record. A result \<open>None\<close> is a call that does not return.
\<close>

section \<open>State and operations\<close>

record heap =
  entries :: "u32 \<Rightarrow> u8"
  num_entries :: u32
  heap_base :: u32

abbreviation (input) HEAP_BLOCK_ENTRY_FREE :: u8 where "HEAP_BLOCK_ENTRY_FREE \<equiv> 0x0"
abbreviation (input) HEAP_BLOCK_ENTRY_TAKEN :: u8 where "HEAP_BLOCK_ENTRY_TAKEN \<equiv> 0x1"
abbreviation (input) HEAP_BLOCK_HAS_NEXT :: u8 where "HEAP_BLOCK_HAS_NEXT \<equiv> 0x80"
abbreviation (input) HEAP_BLOCK_IS_FIRST :: u8 where "HEAP_BLOCK_IS_FIRST \<equiv> 0x40"

definition get_aligned_heap_size :: "u32 \<Rightarrow> u32" where
  "get_aligned_heap_size sz =
     (if sz mod KERNEL_HB_SIZE = 0 then sz
      else sz - (sz mod KERNEL_HB_SIZE) + KERNEL_HB_SIZE)"

definition validate_heap_alignment :: "u32 \<Rightarrow> bool" where
  "validate_heap_alignment addr \<longleftrightarrow> addr mod KERNEL_HB_SIZE = 0"

text \<open>The pointer difference is a signed \<open>ptrdiff_t\<close>, divided with truncation.\<close>

definition validate_heap_table :: "u32 \<Rightarrow> u32 \<Rightarrow> heap \<Rightarrow> bool" where
  "validate_heap_table saddr eaddr h \<longleftrightarrow>
     num_entries h = word_of_int (sint (eaddr - saddr) sdiv 4096)"

definition create_heap :: "heap \<Rightarrow> u32 \<Rightarrow> u32 \<Rightarrow> int \<times> heap" where
  "create_heap h saddr eaddr =
     (if \<not> validate_heap_alignment saddr \<or> \<not> validate_heap_alignment eaddr
      then (- errno ERR_INVARG, h)
      else if \<not> validate_heap_table saddr eaddr h then (- errno ERR_INVARG, h)
      else (0, h\<lparr>heap_base := saddr,
                  entries := memset (entries h) 0 (ucast HEAP_BLOCK_ENTRY_FREE) (num_entries h)\<rparr>))"

text \<open>The scan keeps the start and the length of the free run that ends before \<open>cur\<close>.\<close>

function find_free_loop :: "heap \<Rightarrow> u32 \<Rightarrow> u32 \<Rightarrow> u32 \<Rightarrow> u32 \<Rightarrow> u32" where
  "find_free_loop h n cur block_start block_count =
     (if cur < num_entries h
      then if entries h cur \<noteq> HEAP_BLOCK_ENTRY_FREE then find_free_loop h n (cur + 1) (- 1) 0
           else let block_start' = (if block_start = - 1 then cur else block_start);
                    block_count' = block_count + 1
                in if block_count' = n then block_start'
                   else find_free_loop h n (cur + 1) block_start' block_count'
      else word_of_int (- errno ERR_MALLOC_FAIL))"
  by pat_completeness auto
termination
  by (relation "measure (\<lambda>(h, n, cur, s, c). unat (num_entries h) - unat cur)")
    (auto simp: unat_loop_dec)

declare find_free_loop.simps [simp del, loop_simps]

definition find_free_entry :: "heap \<Rightarrow> u32 \<Rightarrow> u32" where
  "find_free_entry h n = find_free_loop h n 0 (- 1) 0"

text \<open>
  The marking loop runs while \<open>block \<le> eblock\<close>: for \<open>eblock = 0xFFFFFFFF\<close> the
  counter wraps and the loop never ends, which is the answer \<open>None\<close>.
\<close>

function mark_loop :: "heap \<Rightarrow> u32 \<Rightarrow> u32 \<Rightarrow> u32 \<Rightarrow> heap option" where
  "mark_loop h sblock eblock block =
     (if block \<le> eblock
      then let tag = (if block = sblock
                      then HEAP_BLOCK_ENTRY_TAKEN OR HEAP_BLOCK_IS_FIRST OR HEAP_BLOCK_HAS_NEXT
                      else if block = eblock then HEAP_BLOCK_ENTRY_TAKEN
                      else HEAP_BLOCK_ENTRY_TAKEN OR HEAP_BLOCK_HAS_NEXT)
           in if block = - 1 then None
              else mark_loop (h\<lparr>entries := (entries h)(block := tag)\<rparr>) sblock eblock (block + 1)
      else Some h)"
  by pat_completeness auto
termination
proof (relation "measure (\<lambda>(h, s, e, b). 2 ^ 32 - unat b)")
  fix h :: heap and s e b :: u32 and x :: u8
  assume "b \<noteq> - 1"
  then have "b < - 1" by (simp add: order.not_eq_order_implies_strict)
  then have "unat (b + 1) = Suc (unat b)" by (rule unat_Suc_less)
  moreover have "unat b < 2 ^ 32" using unsigned_less [of b, where ?'a = nat] by simp
  ultimately show "((h\<lparr>entries := (entries h)(b := x)\<rparr>, s, e, b + 1), h, s, e, b)
      \<in> measure (\<lambda>(h, s, e, b). 2 ^ 32 - unat b)" by simp
qed simp

declare mark_loop.simps [simp del, loop_simps]

definition mark_blocks_taken :: "heap \<Rightarrow> u32 \<Rightarrow> u32 \<Rightarrow> heap option" where
  "mark_blocks_taken h sblock eblock =
     (if sblock = eblock
      then Some (h\<lparr>entries := (entries h)
             (sblock := HEAP_BLOCK_ENTRY_TAKEN OR HEAP_BLOCK_IS_FIRST)\<rparr>)
      else mark_loop h sblock eblock sblock)"

definition malloc_blocks :: "heap \<Rightarrow> u32 \<Rightarrow> (u32 \<times> heap) option" where
  "malloc_blocks h blocks =
     (let start = find_free_entry h blocks
      in if start = word_of_int (- errno ERR_MALLOC_FAIL) then Some (0, h)
         else case mark_blocks_taken h start (start + blocks - 1) of
                None \<Rightarrow> None
              | Some h' \<Rightarrow> Some (heap_base h' + start * KERNEL_HB_SIZE, h'))"

definition malloc :: "heap \<Rightarrow> u32 \<Rightarrow> (u32 \<times> heap) option" where
  "malloc h sz = malloc_blocks h (get_aligned_heap_size sz div KERNEL_HB_SIZE)"

text \<open>\<open>free_blocks\<close> clears an entry and then tests the cleared entry for a successor.\<close>

function free_blocks :: "heap \<Rightarrow> u32 \<Rightarrow> heap" where
  "free_blocks h block =
     (if block < num_entries h
      then let h' = h\<lparr>entries := (entries h)(block := HEAP_BLOCK_ENTRY_FREE)\<rparr>
           in if entries h' block AND HEAP_BLOCK_HAS_NEXT = 0 then h'
              else free_blocks h' (block + 1)
      else h)"
  by pat_completeness auto
termination
  by (relation "measure (\<lambda>(h, b). unat (num_entries h) - unat b)") (auto simp: unat_loop_dec)

declare free_blocks.simps [simp del, loop_simps]

definition free :: "heap \<Rightarrow> u32 \<Rightarrow> heap" where
  "free h base = free_blocks h ((base - heap_base h) div KERNEL_HB_SIZE)"

text \<open>Only the entries of a heap ever change.\<close>

lemma mark_loop_geometry: "mark_loop h s e b = Some h' \<Longrightarrow> h'\<lparr>entries := f\<rparr> = h\<lparr>entries := f\<rparr>"
proof (induction h s e b rule: mark_loop.induct)
  case (1 h s e b)
  show ?case
  proof (cases "b \<le> e")
    case True
    with 1(2) have b: "b \<noteq> - 1" by (subst (asm) mark_loop.simps) (simp add: Let_def split: if_split_asm)
    from 1(2) True b have "mark_loop (h\<lparr>entries := (entries h)(b := if b = s then 1 OR 64 OR 128
        else if b = e then 1 else 1 OR 128)\<rparr>) s e (b + 1) = Some h'"
      by (subst (asm) mark_loop.simps) (simp add: Let_def)
    from "1.IH" [OF True refl b this] show ?thesis by simp
  qed (use 1(2) in \<open>simp add: mark_loop.simps [of h s e b]\<close>)
qed

lemma malloc_geometry: "malloc h n = Some (a, h') \<Longrightarrow> h'\<lparr>entries := f\<rparr> = h\<lparr>entries := f\<rparr>"
  by (auto simp: malloc_def malloc_blocks_def mark_blocks_taken_def Let_def dest: mark_loop_geometry
      split: if_split_asm option.splits)

section \<open>Abstract view: free runs, first fit\<close>

text \<open>The table as a set of occupied block numbers.\<close>

definition busy :: "heap \<Rightarrow> nat \<Rightarrow> bool" where
  "busy h i \<longleftrightarrow> entries h (of_nat i) \<noteq> 0"

definition run_free :: "heap \<Rightarrow> nat \<Rightarrow> nat \<Rightarrow> bool" where
  "run_free h i n \<longleftrightarrow> i + n \<le> unat (num_entries h) \<and> (\<forall>j<n. \<not> busy h (i + j))"

definition first_fit :: "heap \<Rightarrow> nat \<Rightarrow> nat option" where
  "first_fit h n = (if \<exists>i. run_free h i n then Some (LEAST i. run_free h i n) else None)"

lemma first_fit_SomeI:
  assumes "run_free h s n" and "\<And>i. i < s \<Longrightarrow> \<not> run_free h i n"
  shows "first_fit h n = Some s"
  unfolding first_fit_def using assms by (auto intro!: Least_equality) (meson not_less)

lemma first_fit_NoneI: "(\<And>i. \<not> run_free h i n) \<Longrightarrow> first_fit h n = None"
  by (simp add: first_fit_def)

lemma first_fit_Some: "first_fit h n = Some s \<Longrightarrow> run_free h s n"
  by (auto simp: first_fit_def split: if_splits intro: LeastI)

lemma first_fit_least: "first_fit h n = Some s \<Longrightarrow> run_free h i n \<Longrightarrow> s \<le> i"
  by (auto simp: first_fit_def split: if_splits intro: Least_le)

text \<open>Loop invariant of the scan: \<open>[s, c)\<close> is the free run that ends before \<open>c\<close>.\<close>

definition scan_inv :: "heap \<Rightarrow> nat \<Rightarrow> nat \<Rightarrow> nat \<Rightarrow> bool" where
  "scan_inv h n s c \<longleftrightarrow> s \<le> c \<and> c \<le> unat (num_entries h) \<and> c - s < n
     \<and> (\<forall>j. s \<le> j \<and> j < c \<longrightarrow> \<not> busy h j) \<and> (s = 0 \<or> busy h (s - 1))
     \<and> (\<forall>i. i + n \<le> c \<longrightarrow> \<not> run_free h i n)"

lemma scan_inv_busy:
  assumes "scan_inv h n s c" and "c < unat (num_entries h)" and "busy h c"
  shows "scan_inv h n (Suc c) (Suc c)"
proof -
  have "\<not> run_free h i n" if "i + n \<le> Suc c" for i
  proof (cases "i + n \<le> c")
    case True
    then show ?thesis using assms(1) by (simp add: scan_inv_def)
  next
    case False
    with that assms(1) have "c = i + (n - 1)" "n - 1 < n" by (auto simp: scan_inv_def)
    with assms(3) show ?thesis unfolding run_free_def by metis
  qed
  then show ?thesis using assms by (auto simp: scan_inv_def)
qed

lemma scan_inv_free:
  assumes "scan_inv h n s c" and "c < unat (num_entries h)" and "\<not> busy h c" and "Suc c - s \<noteq> n"
  shows "scan_inv h n s (Suc c)"
proof -
  have "\<not> run_free h i n" if i: "i + n \<le> Suc c" for i
  proof (cases "i + n \<le> c")
    case True
    then show ?thesis using assms(1) by (simp add: scan_inv_def)
  next
    case False
    have "Suc c - s < n" using assms(1,4) by (auto simp: scan_inv_def)
    with False i have "i \<le> s - 1" "s - 1 - i < n" "s \<noteq> 0"
      using assms(1) by (auto simp: scan_inv_def)
    moreover from this have "i + (s - 1 - i) = s - 1" by simp
    moreover have "busy h (s - 1)" using assms(1) \<open>s \<noteq> 0\<close> by (simp add: scan_inv_def)
    ultimately show ?thesis unfolding run_free_def by metis
  qed
  then show ?thesis using assms by (auto simp: scan_inv_def less_Suc_eq)
qed

lemma scan_inv_found:
  assumes "scan_inv h n s c" and "c < unat (num_entries h)" and "\<not> busy h c" and "Suc c - s = n"
  shows "first_fit h n = Some s"
proof (rule first_fit_SomeI)
  show "run_free h s n"
  proof -
    have "\<not> busy h (s + j)" if "j < n" for j
      using that assms by (cases "s + j = c") (auto simp: scan_inv_def)
    then show ?thesis using assms by (auto simp: scan_inv_def run_free_def)
  qed
  fix i assume "i < s"
  with assms have "i + n \<le> c" by (auto simp: scan_inv_def)
  then show "\<not> run_free h i n" using assms(1) by (simp add: scan_inv_def)
qed

lemma of_nat_u32_neq_max: "c < 2 ^ 32 - 1 \<Longrightarrow> (of_nat c :: u32) \<noteq> - 1"
proof
  assume "c < 2 ^ 32 - 1" and "(of_nat c :: u32) = - 1"
  then have "unat (of_nat c :: u32) = unat (- 1 :: u32)" by simp
  moreover have "unat (- 1 :: u32) = 2 ^ 32 - 1"
    by (simp add: unsigned_minus_1_eq_mask mask_eq_exp_minus_1)
  ultimately show False using \<open>c < 2 ^ 32 - 1\<close> by (simp add: unat_of_nat)
qed

lemma num_entries_bound: "unat (num_entries h) \<le> 2 ^ 32 - 1"
  using unsigned_less [of "num_entries h", where ?'a = nat] by simp

lemma find_free_loop_first_fit:
  assumes "scan_inv h (unat n) s c"
  shows "find_free_loop h n (of_nat c) (if s = c then - 1 else of_nat s) (of_nat (c - s)) =
    (case first_fit h (unat n) of Some i \<Rightarrow> of_nat i | None \<Rightarrow> - 2)"
  using assms
proof (induction "unat (num_entries h) - c" arbitrary: s c)
  case 0
  then have "c = unat (num_entries h)" by (simp add: scan_inv_def)
  moreover from this 0 have "first_fit h (unat n) = None"
    by (intro first_fit_NoneI) (auto simp: scan_inv_def run_free_def)
  ultimately show ?case by (subst find_free_loop.simps) simp
next
  case (Suc d)
  then have c: "c < unat (num_entries h)" by simp
  then have cw: "of_nat c < num_entries h" by (simp add: of_nat_less_word)
  have s: "s \<le> c" using Suc.prems by (simp add: scan_inv_def)
  have one: "of_nat c + 1 = (of_nat (Suc c) :: u32)" by simp
  show ?case
  proof (cases "busy h c")
    case True
    then have "find_free_loop h n (of_nat (Suc c)) (- 1) 0 =
      (case first_fit h (unat n) of Some i \<Rightarrow> of_nat i | None \<Rightarrow> - 2)"
      using Suc(1) [of "Suc c" "Suc c"] Suc(2) scan_inv_busy [OF Suc.prems c] by simp
    then show ?thesis
      using True cw unfolding one [symmetric]
      by (subst find_free_loop.simps) (simp add: busy_def)
  next
    case False
    let ?start = "if (if s = c then - 1 else of_nat s) = (- 1 :: u32) then of_nat c
      else (if s = c then - 1 else of_nat s)"
    have start: "?start = of_nat s"
      using s c num_entries_bound [of h] of_nat_u32_neq_max [of s] by auto
    have count: "of_nat (c - s) + 1 = (of_nat (Suc c - s) :: u32)" using s by (simp add: Suc_diff_le)
    have "unat (of_nat (Suc c - s) :: u32) = Suc c - s"
      using c num_entries_bound [of h] by (intro unat_of_nat_less) simp
    then have hit: "of_nat (Suc c - s) = n \<longleftrightarrow> Suc c - s = unat n" by auto
    have step: "find_free_loop h n (of_nat c) (if s = c then - 1 else of_nat s) (of_nat (c - s))
      = (if Suc c - s = unat n then of_nat s
         else find_free_loop h n (of_nat (Suc c)) (of_nat s) (of_nat (Suc c - s)))"
      using False cw
      by (subst find_free_loop.simps)
        (simp add: busy_def start count hit Let_def one [symmetric] del: of_nat_Suc)
    show ?thesis
    proof (cases "Suc c - s = unat n")
      case True
      then show ?thesis using step scan_inv_found [OF Suc.prems c False] by simp
    next
      case F: False
      have "find_free_loop h n (of_nat (Suc c)) (of_nat s) (of_nat (Suc c - s)) =
        (case first_fit h (unat n) of Some i \<Rightarrow> of_nat i | None \<Rightarrow> - 2)"
        using Suc(1) [of "Suc c" s] Suc(2) s scan_inv_free [OF Suc.prems c False F] by simp
      with F step show ?thesis by simp
    qed
  qed
qed

lemma find_free_entry_first_fit:
  assumes "n \<noteq> 0"
  shows "find_free_entry h n =
    (case first_fit h (unat n) of Some i \<Rightarrow> of_nat i | None \<Rightarrow> - 2)"
proof -
  have "0 < unat n" using assms by (simp add: unat_gt_0)
  then have "scan_inv h (unat n) 0 0"
    by (auto simp: scan_inv_def)
  from find_free_loop_first_fit [OF this] show ?thesis by (simp add: find_free_entry_def)
qed

text \<open>A request for no blocks never succeeds: the length of a run is never 0.\<close>

lemma find_free_loop_zero:
  assumes "k \<le> c" and "c \<le> unat (num_entries h)"
  shows "find_free_loop h 0 (of_nat c) st (of_nat k) = - 2"
  using assms
proof (induction "unat (num_entries h) - c" arbitrary: st k c)
  case 0
  then have c: "c = unat (num_entries h)" by simp
  show ?case unfolding c by (subst find_free_loop.simps) simp
next
  case (Suc d)
  then have c: "c < unat (num_entries h)" by simp
  have "unat (of_nat (Suc k) :: u32) = Suc k"
    using c Suc.prems num_entries_bound [of h] by (intro unat_of_nat_less) simp
  then have nz: "(of_nat k :: u32) + 1 \<noteq> 0"
    by (metis Suc_eq_plus1 nat.distinct(1) of_nat_Suc unsigned_0 add.commute)
  have IH: "find_free_loop h 0 (of_nat c + 1) st' 0 = - 2"
    "find_free_loop h 0 (of_nat c + 1) st' (of_nat k + 1) = - 2" for st'
    using Suc(1) [of "Suc c" 0 st'] Suc(1) [of "Suc c" "Suc k" st'] Suc(2) Suc.prems c
    by (simp_all add: add.commute)
  show ?case
    using nz c by (subst find_free_loop.simps) (simp add: IH Let_def)
qed

lemma find_free_entry_zero: "find_free_entry h 0 = - 2"
  using find_free_loop_zero [of 0 0 h "- 1"] by (simp add: find_free_entry_def)

section \<open>Marking\<close>

definition block_tag :: "u32 \<Rightarrow> u32 \<Rightarrow> u32 \<Rightarrow> u8" where
  "block_tag s e i = HEAP_BLOCK_ENTRY_TAKEN OR (if i = s then HEAP_BLOCK_IS_FIRST else 0)
     OR (if i = e then 0 else HEAP_BLOCK_HAS_NEXT)"

lemma block_tag_nonzero [simp]: "block_tag s e i \<noteq> 0"
  by (simp add: block_tag_def)

lemma mark_loop_eq:
  assumes "e \<noteq> - 1" and "s \<noteq> e"
  shows "mark_loop h s e b =
    Some (h\<lparr>entries := \<lambda>i. if b \<le> i \<and> i \<le> e then block_tag s e i else entries h i\<rparr>)"
  using assms
proof (induction h s e b rule: mark_loop.induct)
  case (1 h s e b)
  show ?case
  proof (cases "b \<le> e")
    case True
    let ?tag = "if b = s then 1 OR 0x40 OR 0x80 else if b = e then 1 else 1 OR (0x80 :: u8)"
    have tag: "?tag = block_tag s e b" using "1.prems" by (simp add: block_tag_def)
    have "e < - 1" using "1.prems" by (simp add: order.not_eq_order_implies_strict)
    then have b: "b < - 1" using True by (rule le_less_trans [rotated])
    then have nb: "b \<noteq> - 1" by simp
    have le: "b + 1 \<le> i \<longleftrightarrow> b \<le> i \<and> i \<noteq> b" for i
      using word_Suc_le_iff [OF b] by (auto simp: order.order_iff_strict)
    have "mark_loop h s e b = mark_loop (h\<lparr>entries := (entries h)(b := ?tag)\<rparr>) s e (b + 1)"
      using True nb by (subst mark_loop.simps) (simp add: Let_def)
    also have "\<dots> = Some (h\<lparr>entries := (entries h)(b := ?tag),
        entries := \<lambda>i. if b + 1 \<le> i \<and> i \<le> e then block_tag s e i
          else entries (h\<lparr>entries := (entries h)(b := ?tag)\<rparr>) i\<rparr>)"
      by (rule "1.IH" [OF True refl nb "1.prems"])
    also have "\<dots> = Some (h\<lparr>entries := \<lambda>i. if b \<le> i \<and> i \<le> e then block_tag s e i
        else entries h i\<rparr>)"
      unfolding tag using True by (auto simp: fun_eq_iff le intro!: arg_cong [where f = "\<lambda>f. h\<lparr>entries := f\<rparr>"])
    finally show ?thesis .
  next
    case False
    then have "(\<lambda>i. if b \<le> i \<and> i \<le> e then block_tag s e i else entries h i) = entries h"
      by (auto simp: fun_eq_iff)
    then show ?thesis using False by (subst mark_loop.simps) simp
  qed
qed

lemma mark_blocks_taken_eq:
  assumes "e \<noteq> - 1"
  shows "mark_blocks_taken h s e =
    Some (h\<lparr>entries := \<lambda>i. if s \<le> i \<and> i \<le> e then block_tag s e i else entries h i\<rparr>)"
proof (cases "s = e")
  case True
  then have "(entries h)(s := 0x41) = (\<lambda>i. if s \<le> i \<and> i \<le> e then block_tag s e i else entries h i)"
    by (auto simp: fun_eq_iff block_tag_def)
  with True show ?thesis by (simp add: mark_blocks_taken_def)
next
  case False
  then show ?thesis by (simp add: mark_blocks_taken_def mark_loop_eq [OF assms])
qed

section \<open>The allocator against its abstract view\<close>

definition heap_inv :: "heap \<Rightarrow> bool" where
  "heap_inv h \<longleftrightarrow> heap_base h \<noteq> 0 \<and> heap_base h mod 4096 = 0
     \<and> unat (heap_base h) + 4096 * unat (num_entries h) \<le> 2 ^ 32"

definition blocks_of :: "u32 \<Rightarrow> nat" where
  "blocks_of sz = unat (get_aligned_heap_size sz div KERNEL_HB_SIZE)"

definition claim :: "heap \<Rightarrow> nat \<Rightarrow> nat \<Rightarrow> heap" where
  "claim h i n = h\<lparr>entries := \<lambda>b. if i \<le> unat b \<and> unat b < i + n
     then block_tag (of_nat i) (of_nat (i + n - 1)) b else entries h b\<rparr>"

definition block_addr :: "heap \<Rightarrow> nat \<Rightarrow> u32" where
  "block_addr h i = heap_base h + of_nat i * 4096"

lemma claim_sel [simp]:
  "num_entries (claim h i n) = num_entries h" "heap_base (claim h i n) = heap_base h"
  by (simp_all add: claim_def)

lemma heap_inv_num: "heap_inv h \<Longrightarrow> unat (num_entries h) \<le> 2 ^ 20"
  by (simp add: heap_inv_def)

text \<open>What \<open>malloc\<close> computes: first fit over the abstract table.\<close>

lemma malloc_first_fit:
  assumes "heap_inv h"
  shows "malloc h sz = Some (case (if blocks_of sz = 0 then None else first_fit h (blocks_of sz)) of
      None \<Rightarrow> (0, h) | Some i \<Rightarrow> (block_addr h i, claim h i (blocks_of sz)))"
proof -
  let ?n = "get_aligned_heap_size sz div KERNEL_HB_SIZE"
  show ?thesis
  proof (cases "?n = 0")
    case True
    then show ?thesis by (simp add: malloc_def malloc_blocks_def blocks_of_def find_free_entry_zero)
  next
    case False
    then have n: "0 < unat ?n" by (simp add: unat_gt_0)
    show ?thesis
    proof (cases "first_fit h (unat ?n)")
      case None
      with False show ?thesis
        by (simp add: malloc_def malloc_blocks_def blocks_of_def find_free_entry_first_fit)
    next
      case (Some i)
      then have run: "i + unat ?n \<le> unat (num_entries h)"
        using first_fit_Some run_free_def by blast
      with heap_inv_num [OF assms] n have bounds: "i + unat ?n \<le> 2 ^ 20" "i < 2 ^ 20" by auto
      have ui: "unat (of_nat i :: u32) = i" using bounds by (intro unat_of_nat_less) simp
      have ue: "unat (of_nat (i + unat ?n - 1) :: u32) = i + unat ?n - 1"
        using bounds by (intro unat_of_nat_less) simp
      have e: "of_nat i + ?n - 1 = of_nat (i + unat ?n - 1)"
        using n by (simp add: of_nat_diff)
      have "unat (- 1 :: u32) = 2 ^ 32 - 1" "unat (- 2 :: u32) = 2 ^ 32 - 2"
        by (simp_all add: unsigned_minus_1_eq_mask mask_eq_exp_minus_1)
      then have ne: "of_nat (i + unat ?n - 1) \<noteq> (- 1 :: u32)" "of_nat i \<noteq> (- 2 :: u32)"
        using ui ue bounds by (auto dest: arg_cong [where f = unat])
      have le: "of_nat i \<le> x \<and> x \<le> of_nat (i + unat ?n - 1)
          \<longleftrightarrow> i \<le> unat x \<and> unat x < i + unat ?n" for x :: u32
        unfolding word_le_nat_alt ui ue using n by linarith
      have "mark_blocks_taken h (of_nat i) (of_nat i + ?n - 1) = Some (claim h i (unat ?n))"
        unfolding e mark_blocks_taken_eq [OF ne(1)] claim_def le ..
      then show ?thesis
        using False Some ne n
        by (simp add: malloc_def malloc_blocks_def blocks_of_def find_free_entry_first_fit block_addr_def
            Let_def)
    qed
  qed
qed

text \<open>The rounded request is the least number of whole blocks that holds it; a request that
  would round up past the last page wraps to no block at all.\<close>

lemma blocks_of_eq:
  "blocks_of sz = (if unat sz \<le> 2 ^ 32 - 4096 then (unat sz + 4095) div 4096 else 0)"
proof -
  have lt: "unat sz < 2 ^ 32" using unsigned_less [of sz, where ?'a = nat] by simp
  obtain q r where n: "unat sz = 4096 * q + r" "r < 4096" "unat sz div 4096 = q" "unat sz mod 4096 = r"
    by (rule split_4096)
  have z: "sz mod 4096 = 0 \<longleftrightarrow> r = 0"
    using unat_mod_4096 [of sz] n(4) by (metis unsigned_0 unsigned_word_eqI)
  have q: "q < 2 ^ 20" using n lt by simp
  have aligned: "unat (get_aligned_heap_size sz) = (if r = 0 then 4096 * q else (q + 1) * 4096 mod 2 ^ 32)"
    using z n align_up_u32 [of sz] by (simp add: get_aligned_heap_size_def)
  have "(q + 1) * 4096 mod 2 ^ 32 = (if q + 1 < 2 ^ 20 then (q + 1) * 4096 else 0)"
    using q by (cases "q + 1 = 2 ^ 20") auto
  then show ?thesis
    unfolding blocks_of_def unat_div_4096 aligned last_page [OF lt] roundup_nat n(3,4)
    using q by simp
qed

lemma blocks_of_covers: "blocks_of sz \<noteq> 0 \<Longrightarrow> unat sz \<le> 4096 * blocks_of sz"
  unfolding blocks_of_eq by (simp split: if_splits)

lemma blocks_of_tight: "4096 * blocks_of sz < unat sz + 4096"
proof (cases "unat sz \<le> 2 ^ 32 - 4096")
  case True
  show ?thesis unfolding blocks_of_eq if_P [OF True]
    using times_div_less_eq_dividend [of 4096 "unat sz + 4095"] by linarith
next
  case False
  show ?thesis unfolding blocks_of_eq if_not_P [OF False] by simp
qed

lemma busy_claim:
  assumes "heap_inv h" and "i + n \<le> unat (num_entries h)" and "j < 2 ^ 32"
  shows "busy (claim h i n) j \<longleftrightarrow> i \<le> j \<and> j < i + n \<or> busy h j"
  using assms(3) by (auto simp: busy_def claim_def unat_of_nat_less)

lemma heap_inv_claim [simp]: "heap_inv (claim h i n) \<longleftrightarrow> heap_inv h"
  by (simp add: heap_inv_def)

lemma unat_block_addr:
  assumes "heap_inv h" and "i < unat (num_entries h)"
  shows "unat (block_addr h i) = unat (heap_base h) + 4096 * i"
proof -
  have b: "unat (heap_base h) + 4096 * i < 2 ^ 32" using assms by (simp add: heap_inv_def)
  then have "block_addr h i = of_nat (unat (heap_base h) + 4096 * i)"
    by (simp add: block_addr_def mult.commute)
  moreover have "unat (of_nat (unat (heap_base h) + 4096 * i) :: u32) = unat (heap_base h) + 4096 * i"
    using b by (intro unat_of_nat_less) simp
  ultimately show ?thesis by simp
qed

lemma block_addr_nonzero:
  assumes "heap_inv h" and "i < unat (num_entries h)"
  shows "block_addr h i \<noteq> 0"
proof -
  have "heap_base h \<noteq> 0" using assms by (simp add: heap_inv_def)
  then have "0 < unat (heap_base h)" by (simp add: unat_gt_0)
  then have "unat (block_addr h i) \<noteq> 0" using unat_block_addr [OF assms] by simp
  then show ?thesis by auto
qed

text \<open>Every branch of \<open>malloc\<close> in terms of the block table.\<close>

lemma malloc_cases:
  assumes "heap_inv h" and "malloc h sz = Some (a, h')"
  obtains (fail) "a = 0" "h' = h" "blocks_of sz = 0 \<or> (\<forall>i. \<not> run_free h i (blocks_of sz))"
  | (ok) i where "a = block_addr h i" "a \<noteq> 0" "h' = claim h i (blocks_of sz)" "0 < blocks_of sz"
      "run_free h i (blocks_of sz)" "\<And>k. run_free h k (blocks_of sz) \<Longrightarrow> i \<le> k"
      "i + blocks_of sz \<le> unat (num_entries h)"
proof (cases "blocks_of sz = 0 \<or> first_fit h (blocks_of sz) = None")
  case True
  with assms show thesis
    by (intro fail) (auto simp: malloc_first_fit first_fit_def split: if_splits)
next
  case False
  then obtain i where i: "first_fit h (blocks_of sz) = Some i" by auto
  have r: "run_free h i (blocks_of sz)" using i by (rule first_fit_Some)
  then have b: "i + blocks_of sz \<le> unat (num_entries h)" by (simp add: run_free_def)
  show thesis
    using assms False i r b first_fit_least [OF i] block_addr_nonzero [OF assms(1), of i]
    by (intro ok [of i]) (simp_all add: malloc_first_fit)
qed

lemma malloc_total: "heap_inv h \<Longrightarrow> \<exists>a h'. malloc h sz = Some (a, h')"
  by (simp add: malloc_first_fit)

section \<open>Releasing\<close>

lemma free_blocks_eq:
  "free_blocks h b = (if b < num_entries h then h\<lparr>entries := (entries h)(b := 0)\<rparr> else h)"
  by (subst free_blocks.simps) (simp add: Let_def)

definition block_of :: "heap \<Rightarrow> u32 \<Rightarrow> nat" where
  "block_of h p = unat (p - heap_base h) div 4096"

lemma block_of_claim [simp]: "block_of (claim h i n) = block_of h"
  by (simp add: block_of_def fun_eq_iff)

definition used :: "heap \<Rightarrow> u32 set" where
  "used h = {x. block_of h x < unat (num_entries h) \<and> busy h (block_of h x)}"

lemma block_of_bound: "block_of h p < 2 ^ 20"
  using unsigned_less [of "p - heap_base h", where ?'a = nat]
  by (simp add: block_of_def less_mult_imp_div_less)

lemma free_eq:
  "free h p = (if block_of h p < unat (num_entries h)
     then h\<lparr>entries := (entries h)(of_nat (block_of h p) := 0)\<rparr> else h)"
proof -
  have w: "(p - heap_base h) div 4096 = of_nat (block_of h p)"
    by (simp add: block_of_def flip: unat_div_4096)
  have u: "unat (of_nat (block_of h p) :: u32) = block_of h p"
    using block_of_bound [of h p] by (intro unat_of_nat_less) simp
  show ?thesis by (simp add: free_def w free_blocks_eq word_less_nat_alt u)
qed

lemma free_sel [simp]:
  "num_entries (free h p) = num_entries h" "heap_base (free h p) = heap_base h"
  "heap_inv (free h p) = heap_inv h" "block_of (free h p) = block_of h"
  by (auto simp: free_eq heap_inv_def block_of_def fun_eq_iff)

lemma busy_free:
  assumes "j < 2 ^ 32" and "block_of h p < unat (num_entries h)"
  shows "busy (free h p) j \<longleftrightarrow> busy h j \<and> j \<noteq> block_of h p"
proof -
  have "block_of h p < 2 ^ 32" using block_of_bound [of h p] by simp
  then have "(of_nat j :: u32) = of_nat (block_of h p) \<longleftrightarrow> j = block_of h p"
    using assms(1) by (intro of_nat_u32_eq_iff)
  then show ?thesis using assms by (simp add: free_eq busy_def)
qed

lemma block_of_offset:
  assumes "heap_inv h" and "i + n \<le> unat (num_entries h)" and "unat (x - block_addr h i) < 4096 * n"
  shows "block_of h x = i + unat (x - block_addr h i) div 4096"
proof -
  let ?d = "x - block_addr h i"
  have bound: "4096 * i + unat ?d < 2 ^ 32" using assms by (simp add: heap_inv_def)
  have eq: "x - heap_base h = of_nat (4096 * i + unat ?d)"
    by (simp add: block_addr_def mult.commute)
  have un: "unat (of_nat (4096 * i + unat ?d) :: u32) = 4096 * i + unat ?d"
    using bound by (intro unat_of_nat_less) simp
  have "block_of h x = (4096 * i + unat ?d) div 4096"
    unfolding block_of_def eq un ..
  then show ?thesis by simp
qed

lemma block_of_within:
  assumes "heap_inv h" and "i + n \<le> unat (num_entries h)" and "unat sz \<le> 4096 * n"
    and "within (block_addr h i) sz x"
  shows "i \<le> block_of h x" and "block_of h x < i + n"
proof -
  have d: "unat (x - block_addr h i) < 4096 * n"
    using assms(3,4) by (simp add: within_def word_less_nat_alt)
  then have "unat (x - block_addr h i) div 4096 < n"
    by (simp add: less_mult_imp_div_less mult.commute)
  then show "i \<le> block_of h x" "block_of h x < i + n"
    using block_of_offset [OF assms(1,2) d] by simp_all
qed

lemma block_of_block_addr:
  assumes "heap_inv h" and "i < unat (num_entries h)"
  shows "block_of h (block_addr h i) = i"
  using block_of_within [OF assms(1), of i 1 1 "block_addr h i"] assms(2)
  by (simp add: within_def)

lemma block_addr_mod: 
  assumes "heap_inv h"
  shows "block_addr h i mod 4096 = 0"
  using assms by (simp add: block_addr_def mod_4096_add_mult heap_inv_def)

section \<open>The contract holds\<close>

lemma malloc_used:
  assumes "heap_inv h" and "malloc h sz = Some (a, h')" and "a \<noteq> 0"
  shows "used h \<subseteq> used h' \<and> (\<forall>x. within a sz x \<longrightarrow> x \<notin> used h \<and> x \<in> used h') \<and> heap_inv h'"
  using assms(1,2)
proof (cases rule: malloc_cases)
  case fail
  then show ?thesis using assms(3) by simp
next
  case (ok i)
  let ?n = "blocks_of sz"
  have b: "busy h' j \<longleftrightarrow> i \<le> j \<and> j < i + ?n \<or> busy h j" if "j < unat (num_entries h)" for j
    using that busy_claim [OF assms(1) ok(7)] ok(3) unsigned_less [of "num_entries h", where ?'a = nat]
    by simp
  have cover: "unat sz \<le> 4096 * ?n" using ok(4) blocks_of_covers by simp
  have win: "i \<le> block_of h x \<and> block_of h x < i + ?n \<and> block_of h x < unat (num_entries h)"
    if "within a sz x" for x
    using block_of_within [OF assms(1) ok(7) cover, of x] that ok(1,7) by simp
  have free: "\<not> busy h j" if "i \<le> j" "j < i + ?n" for j
    using ok(5) that unfolding run_free_def by (metis le_iff_add nat_add_left_cancel_less)
  show ?thesis
    using b win free ok(3,7) assms(1) by (auto simp: used_def)
qed

lemma free_used:
  "used (free h p) = (if block_of h p < unat (num_entries h)
     then used h - {x. block_of h x = block_of h p} else used h)"
proof -
  have "j < unat (num_entries h) \<Longrightarrow> j < 2 ^ 32" for j
    using unsigned_less [of "num_entries h", where ?'a = nat] by simp
  then show ?thesis
    using busy_free [of _ h p] by (auto simp: used_def) (simp_all add: free_eq)
qed

interpretation heap: allocator heap_inv malloc free used
proof unfold_locales
  fix h :: heap and n a :: u32 and h' :: heap and x :: u32
  assume inv: "heap_inv h"
  show "\<exists>a h'. malloc h n = Some (a, h')" using inv by (rule malloc_total)
  show "heap_inv (free h a)" using inv by simp
  show "used (free h a) \<subseteq> used h" by (auto simp: free_used)
  show "used h' = used h" if "malloc h n = Some (0, h')"
    using inv that by (cases rule: malloc_cases) auto
  assume m: "malloc h n = Some (a, h')"
  from inv m show "heap_inv h'" by (cases rule: malloc_cases) (use inv in simp_all)
  from inv m show "a mod 4096 = 0"
    by (cases rule: malloc_cases) (use inv in \<open>simp_all add: block_addr_mod\<close>)
  show "used h \<subseteq> used h'"
    using inv m by (cases rule: malloc_cases) (use malloc_used [OF inv m] in simp_all)
  assume a: "a \<noteq> 0" and x: "within a n x"
  show "x \<notin> used h" "x \<in> used h'" using malloc_used [OF inv m a] x by simp_all
qed

section \<open>Runs of the allocator with its live allocations\<close>

text \<open>
  A history of calls: the heap is created, blocks are allocated, and live allocations are
  released by their address. \<open>L\<close> is the ghost set of live allocations, as pairs of first
  block and block count.
\<close>

inductive heap_run :: "heap \<Rightarrow> (nat \<times> nat) set \<Rightarrow> bool" where
  created: "create_heap h0 s e = (0, h) \<Longrightarrow> heap_inv h \<Longrightarrow> heap_run h {}"
| refused: "heap_run h L \<Longrightarrow> malloc h sz = Some (0, h') \<Longrightarrow> heap_run h' L"
| allocated: "heap_run h L \<Longrightarrow> malloc h sz = Some (a, h') \<Longrightarrow> a \<noteq> 0 \<Longrightarrow>
    heap_run h' (insert (block_of h a, blocks_of sz) L)"
| released: "heap_run h L \<Longrightarrow> (i, n) \<in> L \<Longrightarrow> heap_run (free h (block_addr h i)) (L - {(i, n)})"

definition live_block :: "heap \<Rightarrow> nat \<times> nat \<Rightarrow> bool" where
  "live_block h b \<longleftrightarrow> 0 < snd b \<and> fst b + snd b \<le> unat (num_entries h)
     \<and> (\<forall>j. fst b \<le> j \<and> j < fst b + snd b \<longrightarrow> busy h j)"

definition blocks_apart :: "nat \<times> nat \<Rightarrow> nat \<times> nat \<Rightarrow> bool" where
  "blocks_apart b c \<longleftrightarrow> fst b + snd b \<le> fst c \<or> fst c + snd c \<le> fst b"

definition live_ok :: "heap \<Rightarrow> (nat \<times> nat) set \<Rightarrow> bool" where
  "live_ok h L \<longleftrightarrow> heap_inv h \<and> (\<forall>b\<in>L. live_block h b)
     \<and> (\<forall>b\<in>L. \<forall>c\<in>L. b \<noteq> c \<longrightarrow> blocks_apart b c)"

lemma num_entries_less: "j < unat (num_entries h) \<Longrightarrow> j < 2 ^ 32"
  using unsigned_less [of "num_entries h", where ?'a = nat] by simp

lemma blocks_apart_sym: "blocks_apart b c \<longleftrightarrow> blocks_apart c b"
  by (auto simp: blocks_apart_def)

text \<open>A live block shares no block with a free run.\<close>

lemma live_block_apart_run:
  assumes "live_block h b" and "run_free h i n" and "0 < n"
  shows "blocks_apart b (i, n)"
proof (rule ccontr)
  let ?j = "max (fst b) i"
  assume "\<not> blocks_apart b (i, n)"
  then have "fst b \<le> ?j" "?j < fst b + snd b" "i \<le> ?j" "?j < i + n"
    using assms(1,3) by (auto simp: blocks_apart_def live_block_def)
  moreover from this have "busy h ?j" using assms(1) by (simp add: live_block_def)
  moreover have "\<not> busy h j" if "i \<le> j" "j < i + n" for j
    using assms(2) that unfolding run_free_def by (metis le_iff_add nat_add_left_cancel_less)
  ultimately show False by blast
qed

lemma live_block_claim:
  assumes "heap_inv h" and "i + n \<le> unat (num_entries h)"
  shows "live_block h b \<Longrightarrow> live_block (claim h i n) b"
    and "0 < n \<Longrightarrow> live_block (claim h i n) (i, n)"
proof -
  have c: "busy (claim h i n) j \<longleftrightarrow> i \<le> j \<and> j < i + n \<or> busy h j" if "j < unat (num_entries h)" for j
    by (rule busy_claim [OF assms num_entries_less [OF that]])
  then show "live_block h b \<Longrightarrow> live_block (claim h i n) b" by (simp add: live_block_def)
  show "0 < n \<Longrightarrow> live_block (claim h i n) (i, n)" using c assms(2) by (simp add: live_block_def)
qed

lemma live_block_free:
  assumes "live_block h b" and "live_block h c" and "heap_inv h" and "blocks_apart b c"
  shows "live_block (free h (block_addr h (fst c))) b"
proof -
  have c: "fst c < unat (num_entries h)" using assms(2) by (auto simp: live_block_def)
  then have bc: "block_of h (block_addr h (fst c)) = fst c"
    using assms(3) by (intro block_of_block_addr)
  have "busy (free h (block_addr h (fst c))) j" if j: "fst b \<le> j" "j < fst b + snd b" for j
  proof -
    have "j < unat (num_entries h)" using j assms(1) by (simp add: live_block_def)
    then have "j < 2 ^ 32" by (rule num_entries_less)
    moreover have "busy h j" "j \<noteq> fst c"
      using j assms(1,2,4) by (auto simp: live_block_def blocks_apart_def)
    ultimately show ?thesis
      using busy_free [of j h "block_addr h (fst c)"] bc c by simp
  qed
  then show ?thesis using assms(1) by (simp add: live_block_def)
qed

lemma live_ok_malloc:
  assumes "live_ok h L" and "malloc h sz = Some (a, h')" and "a \<noteq> 0"
  shows "live_ok h' (insert (block_of h a, blocks_of sz) L)"
proof -
  have inv: "heap_inv h" using assms(1) by (simp add: live_ok_def)
  from inv assms(2) show ?thesis
  proof (cases rule: malloc_cases)
    case fail
    then show ?thesis using assms(3) by simp
  next
    case (ok i)
    have i: "block_of h a = i" using block_of_block_addr [OF inv, of i] ok by simp
    have "blocks_apart b (i, blocks_of sz)" if "b \<in> L" for b
      using live_block_apart_run [OF _ ok(5,4)] assms(1) that by (simp add: live_ok_def)
    then show ?thesis
      unfolding live_ok_def i ok(3)
      using assms(1) inv ok(4) live_block_claim [OF inv ok(7)] blocks_apart_sym
      by (simp add: live_ok_def)
  qed
qed

lemma live_ok_free:
  assumes "live_ok h L" and "(i, n) \<in> L"
  shows "live_ok (free h (block_addr h i)) (L - {(i, n)})"
  using assms live_block_free [of h _ "(i, n)"] by (auto simp: live_ok_def)

lemma heap_run_live_ok: "heap_run h L \<Longrightarrow> live_ok h L"
proof (induction rule: heap_run.induct)
  case (created h0 s e h)
  then show ?case by (simp add: live_ok_def)
next
  case (refused h L sz h')
  then have "heap_inv h" by (simp add: live_ok_def)
  from this refused(2) have "h' = h"
    by (cases rule: malloc_cases) simp_all
  with refused show ?case by simp
next
  case (allocated h L sz a h')
  then show ?case by (simp add: live_ok_malloc)
next
  case (released h L i n)
  then show ?case by (simp add: live_ok_free)
qed

section \<open>Properties\<close>

lemma free_after_small_malloc:
  assumes "heap_inv h" and "malloc h sz = Some (a, h')" and "a \<noteq> 0" and "unat sz \<le> 4096"
  shows "free h' a = h"
  using assms(1,2)
proof (cases rule: malloc_cases)
  case fail
  then show ?thesis using assms(3) by simp
next
  case (ok i)
  have n: "blocks_of sz = 1" using ok(4) assms(4) blocks_of_tight [of sz] by simp
  have i: "block_of h a = i" using block_of_block_addr [OF assms(1), of i] ok by simp
  have "i < 2 ^ 32" using ok(7) n by (intro num_entries_less [of i h]) simp
  then have "unat b = i \<longleftrightarrow> b = of_nat i" for b :: u32
    by (auto simp: unat_of_nat_less)
  then have tag: "i \<le> unat b \<and> unat b < i + 1 \<longleftrightarrow> b = of_nat i" for b :: u32
    by (metis Suc_eq_plus1 le_less_Suc_eq lessI order_refl)
  have "\<not> busy h i" using ok(5) n by (simp add: run_free_def)
  then have free: "entries h (of_nat i) = 0" by (simp add: busy_def)
  have "entries h' = (entries h)(of_nat i := block_tag (of_nat i) (of_nat i) (of_nat i))"
    unfolding ok(3) n claim_def tag by (auto simp: fun_eq_iff)
  then have "entries (free h' a) = entries h"
    using ok(3,7) n i free by (auto simp: free_eq fun_eq_iff)
  then show ?thesis using ok(3) by (simp add: free_eq claim_def)
qed

lemma free_after_malloc:
  assumes "heap_inv h" and "malloc h sz = Some (a, h')" and "a \<noteq> 0" and "within a sz x"
  shows "x \<in> used (free h' a) \<longleftrightarrow> 4096 \<le> x - a"
  using assms(1,2)
proof (cases rule: malloc_cases)
  case fail
  then show ?thesis using assms(3) by simp
next
  case (ok i)
  have d: "unat (x - block_addr h i) < 4096 * blocks_of sz"
    using assms(4) ok(1) blocks_of_covers [of sz] ok(4) by (simp add: within_def word_less_nat_alt)
  have i: "block_of h a = i" using block_of_block_addr [OF assms(1), of i] ok by simp
  have "x \<in> used h'" using heap.alloc_used [OF assms(1-4)] .
  then have "x \<in> used (free h' a) \<longleftrightarrow> block_of h x \<noteq> i"
    using free_used [of h' a] ok(3,4,7) i by simp
  also have "\<dots> \<longleftrightarrow> unat (x - a) div 4096 \<noteq> 0"
    using block_of_offset [OF assms(1) ok(7) d] ok(1) by simp
  also have "\<dots> \<longleftrightarrow> 4096 \<le> x - a"
    by (simp add: word_le_nat_alt div_eq_0_iff not_less)
  finally show ?thesis .
qed

definition demo_heap :: heap where
  "demo_heap = \<lparr>entries = (\<lambda>i. if i = 1 then 0x41 else 0), num_entries = 8, heap_base = 0x1000000\<rparr>"

lemma demo_heap_inv: "heap_inv demo_heap"
  by (simp add: heap_inv_def demo_heap_def)

lemmas heap_eval = malloc_def malloc_blocks_def find_free_entry_def find_free_loop.simps
  mark_blocks_taken_def mark_loop.simps get_aligned_heap_size_def Let_def

text \<open>In the small heap a request of 5000 bytes skips the run of one block and takes blocks 2 and 3.\<close>

lemma demo_malloc:
  "malloc demo_heap 5000 = Some (0x1002000,
     demo_heap\<lparr>entries := (entries demo_heap)(2 := 0xC1, 3 := 0x01)\<rparr>)"
  by (simp add: heap_eval demo_heap_def)

definition demo_empty :: heap where
  "demo_empty = \<lparr>entries = (\<lambda>i. 0), num_entries = 8, heap_base = 0x1000000\<rparr>"

definition demo_two :: heap where
  "demo_two = demo_empty\<lparr>entries := (entries demo_empty)(0 := 0x41, 1 := 0xC1, 2 := 0x01)\<rparr>"

lemma demo_two_run: "heap_run demo_two {(1, 2), (0, 1)}"
proof -
  let ?h1 = "demo_empty\<lparr>entries := (entries demo_empty)(0 := 0x41)\<rparr>"
  have "heap_run demo_empty {}"
  proof (rule heap_run.created)
    show "create_heap (demo_empty\<lparr>heap_base := 0\<rparr>) 0x1000000 0x1008000 = (0, demo_empty)"
      by (simp add: create_heap_def demo_empty_def validate_heap_alignment_def validate_heap_table_def
          memset_eq signed_divide_int_def fun_eq_iff)
    show "heap_inv demo_empty" by (simp add: heap_inv_def demo_empty_def)
  qed
  moreover have "malloc demo_empty 1 = Some (0x1000000, ?h1)"
    by (simp add: heap_eval demo_empty_def)
  ultimately have "heap_run ?h1 {(block_of demo_empty 0x1000000, blocks_of 1)}"
    by (rule heap_run.allocated) simp
  then have "heap_run ?h1 {(0, 1)}"
    by (simp add: block_of_def blocks_of_eq demo_empty_def)
  moreover have "malloc ?h1 5000 = Some (0x1001000, demo_two)"
    by (simp add: heap_eval demo_two_def demo_empty_def)
  ultimately have "heap_run demo_two {(block_of ?h1 0x1001000, blocks_of 5000), (0, 1)}"
    by (rule heap_run.allocated) simp
  then show ?thesis by (simp add: block_of_def blocks_of_eq demo_empty_def)
qed

text \<open>C1: on a well-formed heap \<open>malloc\<close> always returns; it is the first-fit allocator over the
  table: a request of at least one byte that does not wrap gets the lowest run of
  \<open>(sz + 4095) div 4096\<close> free blocks, marked taken, and null with the heap unchanged exactly when
  no such run exists. (A zero-sized request is refused.)\<close>

theorem malloc_is_first_fit:
  assumes "heap_inv h" and "unat sz \<le> 2 ^ 32 - 4096" and "n = (unat sz + 4095) div 4096"
  shows "malloc h sz = Some
    (if sz \<noteq> 0 \<and> (\<exists>i. run_free h i n)
     then (block_addr h (LEAST i. run_free h i n), claim h (LEAST i. run_free h i n) n)
     else (0, h))"
proof -
  have n: "blocks_of sz = n" using assms(2,3) by (simp add: blocks_of_eq)
  have "n = 0 \<longleftrightarrow> sz = 0" using assms(3) by (auto simp: div_eq_0_iff unat_eq_0)
  then show ?thesis
    unfolding malloc_first_fit [OF assms(1)] n first_fit_def by simp
qed

theorem malloc_is_first_fit_witness:
  "malloc demo_heap 5000 = Some
    (if (5000::u32) \<noteq> 0 \<and> (\<exists>i. run_free demo_heap i 2)
     then (block_addr demo_heap (LEAST i. run_free demo_heap i 2),
           claim demo_heap (LEAST i. run_free demo_heap i 2) 2)
     else (0, demo_heap))"
  by (rule malloc_is_first_fit [OF demo_heap_inv]) simp_all

text \<open>C2: in every history of allocations and releases of live allocations, two distinct live
  allocations share no address, and every address of a live allocation is inside an occupied block.\<close>

theorem heap_run_disjoint:
  assumes "heap_run h L" and "b \<in> L" and "c \<in> L" and "b \<noteq> c"
    and "fst b \<le> block_of h x" and "block_of h x < fst b + snd b"
  shows "x \<in> used h \<and> \<not> (fst c \<le> block_of h x \<and> block_of h x < fst c + snd c)"
proof -
  have ok: "live_ok h L" using assms(1) by (rule heap_run_live_ok)
  then have "live_block h b" "blocks_apart b c" using assms(2-4) by (auto simp: live_ok_def)
  with assms(5,6) show ?thesis
    by (auto simp: live_block_def blocks_apart_def used_def)
qed

theorem heap_run_disjoint_witness:
  "0x1002000 \<in> used demo_two \<and> \<not> (0 \<le> block_of demo_two 0x1002000 \<and> block_of demo_two 0x1002000 < 0 + 1)"
  using heap_run_disjoint [OF demo_two_run, of "(1, 2)" "(0, 1)" "0x1002000"]
  by (simp add: block_of_def demo_two_def demo_empty_def)

text \<open>Freeing an allocation releases its first block only. Right after \<open>malloc\<close>, an address
  of the allocation is still occupied after \<open>free\<close> exactly when it lies 4096 bytes or more into it:
  the loop clears the table entry before it tests that same entry for a successor.\<close>

theorem free_releases_first_block_only:
  assumes "heap_inv h" and "malloc h sz = Some (a, h')" and "a \<noteq> 0" and "within a sz x"
  shows "x \<in> used h' \<and> (x \<in> used (free h' a) \<longleftrightarrow> 4096 \<le> x - a)"
  using heap.alloc_used [OF assms] free_after_malloc [OF assms] by blast

theorem free_releases_first_block_only_witness:
  "let h' = demo_heap\<lparr>entries := (entries demo_heap)(2 := 0xC1, 3 := 0x01)\<rparr>
   in 0x1003000 \<in> used (free h' 0x1002000)"
  using free_releases_first_block_only [OF demo_heap_inv demo_malloc, of "0x1003000"]
  by (simp add: within_def)

text \<open>C35: a request of at most one block is released completely: \<open>free\<close> after \<open>malloc\<close>
  gives back the heap as it was.\<close>

theorem malloc_free_roundtrip:
  assumes "heap_inv h" and "malloc h sz = Some (a, h')" and "a \<noteq> 0" and "unat sz \<le> 4096"
  shows "free h' a = h"
  by (rule free_after_small_malloc [OF assms])

theorem malloc_free_roundtrip_witness:
  "free (demo_heap\<lparr>entries := (entries demo_heap)(0 := 0x41)\<rparr>) 0x1000000 = demo_heap"
proof (rule malloc_free_roundtrip [OF demo_heap_inv])
  show "malloc demo_heap 10 = Some (0x1000000, demo_heap\<lparr>entries := (entries demo_heap)(0 := 0x41)\<rparr>)"
    by (simp add: heap_eval demo_heap_def)
qed simp_all

end
