(* ===== verification/KHeap.thy ===== *)
theory KHeap
  imports Heap
begin

text \<open>
  The kernel heap of \<^verbatim>\<open>mm/heap/kheap.c\<close>: the base layer of the kernel state, which every
  later component extends. It holds the physical memory and the one heap \<open>kheap\<close> with its table
  \<open>kheap_table\<close>. (The table itself occupies the bytes from \<open>KERNEL_HEAP_TABLE_BASE\<close>
  on, below 1 MB; the model keeps it as the \<open>entries\<close> of the heap.) A call that ends in
  \<open>kpanic\<close>, which halts the machine, is \<open>None\<close>.
\<close>

section \<open>State and operations\<close>

record kst =
  mem :: memory
  kheap :: heap

definition kheap_init :: "'a kst_scheme \<Rightarrow> 'a kst_scheme option" where
  "kheap_init s =
     (let kheap_entry_count = KERNEL_HEAP_SIZE div KERNEL_HB_SIZE;
          kheap_end = KERNEL_HEAP_BASE + KERNEL_HEAP_SIZE;
          (status, h) = create_heap ((kheap s)\<lparr>num_entries := kheap_entry_count\<rparr>)
                          KERNEL_HEAP_BASE kheap_end
      in if status < 0 then None else Some (s\<lparr>kheap := h\<rparr>))"

definition kmalloc :: "'a kst_scheme \<Rightarrow> u32 \<Rightarrow> (u32 \<times> 'a kst_scheme) option" where
  "kmalloc s sz =
     (case malloc (kheap s) sz of
        None \<Rightarrow> None
      | Some (addr, h) \<Rightarrow>
          if addr = 0 then Some (0, s\<lparr>kheap := h\<rparr>) else Some (addr, s\<lparr>kheap := h\<rparr>))"

definition kzalloc :: "'a kst_scheme \<Rightarrow> u32 \<Rightarrow> (u32 \<times> 'a kst_scheme) option" where
  "kzalloc s sz =
     (case malloc (kheap s) sz of
        None \<Rightarrow> None
      | Some (addr, h) \<Rightarrow>
          if addr = 0 then Some (0, s\<lparr>kheap := h\<rparr>)
          else Some (addr, s\<lparr>kheap := h, mem := memset (mem s) addr 0 sz\<rparr>))"

definition kfree :: "'a kst_scheme \<Rightarrow> u32 \<Rightarrow> 'a kst_scheme" where
  "kfree s base = s\<lparr>kheap := free (kheap s) base\<rparr>"

section \<open>The contract of a clearing allocator\<close>

locale zeroing_allocator = allocator inv alloc release used
  for inv :: "'h \<Rightarrow> bool" and alloc release used +
  fixes contents :: "'h \<Rightarrow> memory"
  assumes alloc_zeroed: "inv h \<Longrightarrow> alloc h n = Some (a, h') \<Longrightarrow> a \<noteq> 0 \<Longrightarrow> within a n x \<Longrightarrow> contents h' x = 0"
    and alloc_frame: "inv h \<Longrightarrow> alloc h n = Some (a, h') \<Longrightarrow> a = 0 \<or> \<not> within a n x \<Longrightarrow>
      contents h' x = contents h x"
    and release_frame: "contents (release h a) = contents h"
begin

text \<open>An allocation changes no byte of a block that was in use.\<close>

lemma alloc_keeps_used:
  assumes "inv h" and "alloc h n = Some (a, h')" and "x \<in> used h"
  shows "contents h' x = contents h x"
  using alloc_frame [OF assms(1,2)] alloc_fresh [OF assms(1,2)] assms(3) by blast

lemma alloc_run_keeps_used:
  assumes "inv h" and "alloc_run alloc h n k = Some (as, h')" and "x \<in> used h"
  shows "contents h' x = contents h x"
  using assms
proof (induction k arbitrary: h as)
  case 0
  then show ?case by simp
next
  case (Suc k)
  obtain b h1 bs where b: "alloc h n = Some (b, h1)" "alloc_run alloc h1 n k = Some (bs, h')"
    using Suc.prems(2) by (auto split: option.splits)
  have "x \<in> used h1" using alloc_mono [OF Suc.prems(1) b(1)] Suc.prems(3) by blast
  then show ?case
    using Suc.IH [OF alloc_inv [OF Suc.prems(1) b(1)] b(2)] alloc_keeps_used [OF Suc.prems(1) b(1)]
      Suc.prems(3) by simp
qed

end

abbreviation (input) kinv :: "'a kst_scheme \<Rightarrow> bool" where
  "kinv s \<equiv> heap_inv (kheap s)"

abbreviation (input) kused :: "'a kst_scheme \<Rightarrow> u32 set" where
  "kused s \<equiv> used (kheap s)"

lemma kzalloc_SomeE:
  assumes "kzalloc s n = Some (a, s')"
  obtains h where "malloc (kheap s) n = Some (a, h)"
    "s' = (if a = 0 then s\<lparr>kheap := h\<rparr> else s\<lparr>kheap := h, mem := memset (mem s) a 0 n\<rparr>)"
  using assms by (auto simp: kzalloc_def split: option.splits prod.splits if_splits)

lemma kzalloc_kheap: "kzalloc s n = Some (a, s') \<Longrightarrow> malloc (kheap s) n = Some (a, kheap s')"
  by (erule kzalloc_SomeE) (simp split: if_splits)

interpretation kz: zeroing_allocator kinv kzalloc kfree kused mem
proof unfold_locales
  fix s s' :: "'a kst_scheme" and n a x :: u32
  assume inv: "kinv s"
  show "\<exists>a s'. kzalloc s n = Some (a, s')"
    using heap.alloc_total [OF inv, of n] by (auto simp: kzalloc_def)
  show "kinv (kfree s a)" "kused (kfree s a) \<subseteq> kused s"
    using heap.release_inv [OF inv] heap.release_sub [OF inv] by (simp_all add: kfree_def)
  show "kused s' = kused s" if "kzalloc s n = Some (0, s')"
    using heap.alloc_null [OF inv kzalloc_kheap [OF that]] .
  assume m: "kzalloc s n = Some (a, s')"
  note h = kzalloc_kheap [OF m]
  show "kinv s'" "kused s \<subseteq> kused s'" "a mod 4096 = 0"
    using heap.alloc_inv [OF inv h] heap.alloc_mono [OF inv h] heap.alloc_aligned [OF inv h] .
  show "mem s' x = mem s x" if "a = 0 \<or> \<not> within a n x"
    using m that by (elim kzalloc_SomeE) (auto simp: memset_eq)
  assume a: "a \<noteq> 0" and x: "within a n x"
  show "x \<notin> kused s" "x \<in> kused s'"
    using heap.alloc_fresh [OF inv h a x] heap.alloc_used [OF inv h a x] .
  show "mem s' x = 0" using m a x by (elim kzalloc_SomeE) (simp add: memset_eq)
qed (simp add: kfree_def)

section \<open>Properties\<close>

lemma used_in_heap:
  assumes "heap_inv h" and "x \<in> used h"
  shows "unat (heap_base h) \<le> unat x \<and> unat x < unat (heap_base h) + 4096 * unat (num_entries h)"
proof -
  let ?b = "heap_base h" and ?d = "unat (x - heap_base h)"
  have "block_of h x < unat (num_entries h)" using assms(2) by (simp add: used_def)
  then have d: "?d < 4096 * unat (num_entries h)"
    by (simp add: block_of_def div_less_iff_less_mult mult.commute)
  have "x = ?b + (x - ?b)" by simp
  then have "unat x = (unat ?b + ?d) mod 2 ^ 32"
    using unat_word_ariths(1) [of ?b "x - ?b"] by simp
  moreover have "unat ?b + ?d < 2 ^ 32" using d assms(1) by (simp add: heap_inv_def)
  ultimately show ?thesis using d by simp
qed

text \<open>The heap of the kernel lies above the text buffer.\<close>

lemma heap_page_outside_window:
  assumes "heap_inv h" and "heap_base h = 0x1000000" and "x \<in> used h"
  shows "\<not> within 0xB8000 40960 x"
proof
  assume w: "within 0xB8000 40960 x"
  have "unat (0x1000000 :: u32) \<le> unat x" using used_in_heap [OF assms(1,3)] assms(2) by simp
  then have x: "0x1000000 \<le> x" by (simp add: word_le_nat_alt)
  from w have "x - 0xB8000 < 40960" by (simp add: within_def)
  with x show False by unat_arith
qed

lemma kheap_geometry:
  "(KERNEL_HEAP_SIZE div KERNEL_HB_SIZE :: u32) = 25600"
  "(KERNEL_HEAP_BASE + KERNEL_HEAP_SIZE :: u32) = 0x7400000"
  by simp_all

text \<open>\<open>kheap_init\<close> does not panic: the configured base, size and table agree. It leaves a
  well-formed heap of 25600 blocks from \<open>0x1000000\<close> with every block free, and touches nothing else.\<close>

theorem kheap_init_ready:
  "\<exists>s'. kheap_init s = Some s' \<and> heap_inv (kheap s') \<and> num_entries (kheap s') = 25600
     \<and> heap_base (kheap s') = 0x1000000 \<and> used (kheap s') = {} \<and> (\<forall>j<25600. \<not> busy (kheap s') j)
     \<and> s' = s\<lparr>kheap := kheap s'\<rparr>"
proof -
  let ?e = "memset (entries (kheap s)) 0 0 25600"
  let ?h = "(kheap s)\<lparr>num_entries := 25600, heap_base := 0x1000000, entries := ?e\<rparr>"
  have "kheap_init s = Some (s\<lparr>kheap := ?h\<rparr>)"
    by (simp add: kheap_init_def create_heap_def validate_heap_alignment_def validate_heap_table_def
        signed_divide_int_def Let_def)
  moreover have free: "\<not> busy ?h j" if "j < 25600" for j
    using that by (simp add: busy_def memset_eq within_def word_less_nat_alt unat_of_nat_less)
  then have "used ?h = {}" by (auto simp: used_def)
  ultimately show ?thesis using free by (simp add: heap_inv_def)
qed

definition demo_kst :: kst where
  "demo_kst = \<lparr>mem = (\<lambda>x. 0xAA), kheap = demo_empty\<rparr>"

lemma demo_empty_inv: "heap_inv demo_empty"
  by (simp add: heap_inv_def demo_empty_def)

lemma demo_kst_inv: "kinv demo_kst"
  by (simp add: demo_kst_def demo_empty_inv)

definition demo_kst1 :: kst where
  "demo_kst1 = \<lparr>mem = (\<lambda>x. if x = 0x1000000 then 0 else 0xAA),
     kheap = demo_empty\<lparr>entries := (entries demo_empty)(0 := 0x41)\<rparr>\<rparr>"

lemma demo_kzalloc: "kzalloc demo_kst 1 = Some (0x1000000, demo_kst1)"
  by (simp add: kzalloc_def heap_eval demo_kst_def demo_kst1_def demo_empty_def memset_eq
      within_def fun_eq_iff)

text \<open>C6: a successful \<open>kzalloc\<close> hands out a page-aligned block of zero bytes that lies inside the
  heap and outside every block in use, and changes no other byte of memory.\<close>

theorem kzalloc_spec:
  assumes "kinv s" and "kzalloc s n = Some (a, s')" and "a \<noteq> 0"
  shows "a mod 4096 = 0
    \<and> (\<forall>x. if within a n x
        then mem s' x = 0 \<and> x \<notin> kused s \<and> x \<in> kused s'
          \<and> unat (heap_base (kheap s')) \<le> unat x
          \<and> unat x < unat (heap_base (kheap s')) + 4096 * unat (num_entries (kheap s'))
        else mem s' x = mem s x)"
proof -
  have inv': "kinv s'" by (rule kz.alloc_inv [OF assms(1,2)])
  show ?thesis
    using kz.alloc_aligned [OF assms(1,2)] kz.alloc_zeroed [OF assms] kz.alloc_fresh [OF assms]
      kz.alloc_used [OF assms] kz.alloc_frame [OF assms(1,2)] used_in_heap [OF inv'] by auto
qed

theorem kzalloc_spec_witness:
  "mem demo_kst1 0x1000000 = 0 \<and> 0x1000000 \<in> kused demo_kst1 \<and> 0x1000000 \<notin> kused demo_kst"
  using kzalloc_spec [OF demo_kst_inv demo_kzalloc, THEN conjunct2, THEN spec, of "0x1000000"]
  by (simp add: within_def)

end
