(* ===== verification/Str.thy ===== *)
theory Str
  imports CMem
begin

text \<open>
  The string routines of \<^verbatim>\<open>string/string.c\<close> over the byte memory. A loop that scans for a terminator
  need not stop, so \<open>strlen\<close> and \<open>strcpy\<close> answer an option: \<open>None\<close> is
  not returning. \<open>char\<close> is signed on the i686 target, which the comparisons respect.
\<close>

section \<open>The routines\<close>

partial_function (option) strlen_loop :: "memory \<Rightarrow> u32 \<Rightarrow> u32 \<Rightarrow> u32 option" where
  "strlen_loop m str strpos =
     (if m (str + strpos) \<noteq> 0 then strlen_loop m str (strpos + 1) else Some strpos)"

definition strlen :: "memory \<Rightarrow> u32 \<Rightarrow> u32 option" where
  "strlen m str = strlen_loop m str 0"

partial_function (option) strcpy_loop ::
    "memory \<Rightarrow> u32 \<Rightarrow> u32 \<Rightarrow> u32 \<Rightarrow> u32 \<Rightarrow> memory option" where
  "strcpy_loop m tgt src tgt_ix src_ix =
     (if m (src + src_ix) \<noteq> 0
      then strcpy_loop (m(tgt + tgt_ix := m (src + src_ix))) tgt src (tgt_ix + 1) (src_ix + 1)
      else Some (m(tgt + tgt_ix := 0)))"

definition strcpy :: "memory \<Rightarrow> u32 \<Rightarrow> u32 \<Rightarrow> memory option" where
  "strcpy m tgt src = strcpy_loop m tgt src 0 0"

text \<open>\<open>tolower\<close> tests for a lower-case letter and shifts everything else by 32.\<close>

definition tolower :: "u8 \<Rightarrow> u8" where
  "tolower c = (if sint c \<ge> 97 \<and> sint c \<le> 122 then c else c + 32)"

function strncmp :: "memory \<Rightarrow> u32 \<Rightarrow> u32 \<Rightarrow> u32 \<Rightarrow> int" where
  "strncmp m s1 s2 n =
     (if n \<noteq> 0
      then if tolower (m s1) = tolower (m s2) then strncmp m (s1 + 1) (s2 + 1) (n - 1)
           else if sint (m s1) < sint (m s2) then -1 else 1
      else 0)"
  by pat_completeness auto
termination
  by (relation "measure (\<lambda>(m, s1, s2, n). unat n)") (auto simp: unat_pred_less)

declare strncmp.simps [simp del, loop_simps]

text \<open>\<open>strncpy\<close> copies up to \<open>len\<close> bytes, stops before the terminator, never writes one, and
  returns the count. The result is the new memory and that count.\<close>

function strncpy_loop :: "memory \<Rightarrow> u32 \<Rightarrow> u32 \<Rightarrow> u32 \<Rightarrow> u32 \<Rightarrow> memory \<times> u32" where
  "strncpy_loop m tgt src len written =
     (if written < len
      then if m (src + written) = 0 then (m, written)
           else strncpy_loop (m(tgt + written := m (src + written))) tgt src len (written + 1)
      else (m, written))"
  by pat_completeness auto
termination
  by (relation "measure (\<lambda>(m, tgt, src, len, written). unat len - unat written)")
    (auto simp: unat_loop_dec)

declare strncpy_loop.simps [simp del, loop_simps]

definition strncpy :: "memory \<Rightarrow> u32 \<Rightarrow> u32 \<Rightarrow> u32 \<Rightarrow> memory \<times> u32" where
  "strncpy m tgt src len = strncpy_loop m tgt src len 0"

section \<open>C strings in memory\<close>

text \<open>\<open>cstr m a s\<close>: the bytes \<open>s\<close>, none of them 0, stand at \<open>a\<close> and a 0 follows.\<close>

definition cstr :: "memory \<Rightarrow> u32 \<Rightarrow> u8 list \<Rightarrow> bool" where
  "cstr m a s \<longleftrightarrow> bytes_at m a (length s) = s \<and> 0 \<notin> set s \<and> m (a + of_nat (length s)) = 0"

lemma cstr_Nil [simp]: "cstr m a [] \<longleftrightarrow> m a = 0"
  by (simp add: cstr_def)

lemma cstr_Cons [simp]: "cstr m a (c # s) \<longleftrightarrow> m a = c \<and> c \<noteq> 0 \<and> cstr m (a + 1) s"
  by (auto simp: cstr_def bytes_at_Suc add.assoc)

lemma cstr_cong:
  assumes "cstr m a s" and "\<And>i. i \<le> length s \<Longrightarrow> m' (a + of_nat i) = m (a + of_nat i)"
  shows "cstr m' a s"
proof -
  have "bytes_at m' a (length s) = bytes_at m a (length s)"
    using assms(2) by (intro bytes_at_cong) simp
  then show ?thesis using assms by (simp add: cstr_def)
qed

lemma strlen_loop_cstr: "cstr m (str + p) s \<Longrightarrow> strlen_loop m str p = Some (p + of_nat (length s))"
proof (induction s arbitrary: p)
  case Nil
  then show ?case by (subst strlen_loop.simps) simp
next
  case (Cons c s)
  then have "strlen_loop m str (p + 1) = Some (p + 1 + of_nat (length s))"
    by (simp add: add.assoc)
  then show ?case using Cons.prems by (subst strlen_loop.simps) (simp add: add.assoc)
qed

lemma strlen_cstr: "cstr m a s \<Longrightarrow> strlen m a = Some (of_nat (length s))"
  using strlen_loop_cstr [of m a 0 s] by (simp add: strlen_def)

text \<open>Away from overlap, \<open>strcpy\<close> is the copy of the string with its terminator.\<close>

lemma cstr_upd_before:
  assumes "cstr m (src + 1) s" and "n = of_nat (Suc (length s)) + 1" and "Suc (Suc (length s)) < 2 ^ 32"
    and "tgt = src \<or> n \<le> tgt - src"
  shows "cstr (m(tgt := v)) (src + 1) s"
proof (rule cstr_cong [OF assms(1)])
  fix i assume i: "i \<le> length s"
  have "tgt \<noteq> src + 1 + of_nat i"
  proof
    assume eq: "tgt = src + 1 + of_nat i"
    then have d: "tgt - src = of_nat (Suc i)" by simp
    have ui: "unat (of_nat (Suc i) :: u32) = Suc i"
      using i assms(3) by (intro unat_of_nat_less) simp
    have n: "n = of_nat (Suc (Suc (length s)))" using assms(2) by simp
    have un: "unat n = Suc (Suc (length s))"
      unfolding n using assms(3) by (intro unat_of_nat_less) simp
    from d ui have "tgt \<noteq> src" by auto
    with assms(4) d have "n \<le> of_nat (Suc i)" by simp
    then have "Suc (Suc (length s)) \<le> Suc i"
      unfolding word_le_nat_alt ui un .
    with i show False by simp
  qed
  then show "(m(tgt := v)) (src + 1 + of_nat i) = m (src + 1 + of_nat i)" by simp
qed

lemma copy_step_pre:
  fixes tgt src n :: u32
  assumes "n \<noteq> 0" and "tgt = src \<or> n \<le> tgt - src"
  shows "tgt + 1 = src + 1 \<or> n - 1 \<le> (tgt + 1) - (src + 1)"
  using assms word_sub_pred_ge [of n "tgt - src"] by auto

lemma strcpy_loop_memcpy:
  assumes "cstr m (src + i) s" and "Suc (length s) < 2 ^ 32"
    and "tgt = src \<or> of_nat (length s) + 1 \<le> tgt - src"
  shows "strcpy_loop m tgt src i i = Some (memcpy m (tgt + i) (src + i) (of_nat (length s) + 1))"
  using assms
proof (induction s arbitrary: m i)
  case Nil
  then show ?case
    by (subst strcpy_loop.simps) (simp add: memcpy.simps [where n = 1] memcpy.simps [where n = 0])
next
  case (Cons c s)
  let ?m = "m(tgt + i := m (src + i))"
  let ?n = "of_nat (length (c # s)) + 1 :: u32"
  have "unat (of_nat (Suc (Suc (length s))) :: u32) = Suc (Suc (length s))"
    using Cons.prems(2) by (intro unat_of_nat_less) simp
  then have n: "?n \<noteq> 0" by auto
  have pre: "tgt + i = src + i \<or> ?n \<le> (tgt + i) - (src + i)"
    using Cons.prems(3) by simp
  have "cstr m (src + i + 1) s" using Cons.prems(1) by simp
  then have c: "cstr ?m (src + (i + 1)) s"
    using cstr_upd_before [of m "src + i" s ?n "tgt + i" "m (src + i)"] pre Cons.prems(2)
    by (simp add: add.assoc)
  have pre': "tgt = src \<or> of_nat (length s) + 1 \<le> tgt - src"
    using copy_step_pre [OF n Cons.prems(3)] by (simp add: add.commute)
  have "strcpy_loop m tgt src i i = strcpy_loop ?m tgt src (i + 1) (i + 1)"
    using Cons.prems(1) by (subst strcpy_loop.simps) simp
  also have "\<dots> = Some (memcpy ?m (tgt + (i + 1)) (src + (i + 1)) (of_nat (length s) + 1))"
    using Cons.prems(2) by (intro Cons.IH c pre') simp
  also have "\<dots> = Some (memcpy m (tgt + i) (src + i) ?n)"
    using n by (subst (2) memcpy.simps) (simp add: ac_simps)
  finally show ?case .
qed

lemma strcpy_memcpy:
  assumes "cstr m src s" and "Suc (length s) < 2 ^ 32"
    and "tgt = src \<or> of_nat (length s) + 1 \<le> tgt - src"
  shows "strcpy m tgt src = Some (memcpy m tgt src (of_nat (length s) + 1))"
  using strcpy_loop_memcpy [of m src 0 s tgt] assms by (simp add: strcpy_def)

section \<open>Case folding\<close>

definition fold_case :: "u8 \<Rightarrow> u8" where
  "fold_case c = (if 65 \<le> c \<and> c \<le> 90 then c + 32 else c)"

lemma sint_u8:
  fixes c :: u8
  shows "sint c = (if uint c < 128 then uint c else uint c - 256)"
proof -
  have "0 \<le> uint c" "uint c < 256" using uint_lt2p [of c] by simp_all
  moreover have "(uint c + 128) mod 256 = (uint c - 128) mod 256"
    using mod_add_self2 [of "uint c - 128" 256] by (simp add: add.commute)
  ultimately have "(uint c + 128) mod 256 - 128 = (if uint c < 128 then uint c else uint c - 256)"
    by (cases "uint c < 128") (simp_all only: mod_pos_pos_trivial, simp_all add: mod_pos_pos_trivial)
  then show ?thesis
    by (simp only: sint_uint signed_take_bit_eq_take_bit_shift take_bit_eq_mod) simp
qed

lemma u8_in_range:
  fixes c :: u8
  assumes "0 \<le> l" and "u \<le> 127"
  shows "(l \<le> sint c \<and> sint c \<le> u) \<longleftrightarrow> (l \<le> uint c \<and> uint c \<le> u)"
  using assms uint_lt2p [of c] by (auto simp: sint_u8 split: if_splits)

lemma tolower_eq: "tolower c = (if 97 \<le> c \<and> c \<le> 122 then c else c + 32)"
  using u8_in_range [of 97 122 c] by (simp add: tolower_def word_le_def)

text \<open>\<open>tolower\<close> garbles digits and punctuation, but two bytes get the same image exactly
  when they are equal up to the case of an ASCII letter.\<close>

lemma tolower_eq_iff: "tolower x = tolower y \<longleftrightarrow> fold_case x = fold_case y"
proof -
  define A B :: "u8 \<Rightarrow> bool" where "A c = (97 \<le> c \<and> c \<le> 122)" and "B c = (65 \<le> c \<and> c \<le> 90)" for c
  have up: "B d" if "A (d + 32)" for d
  proof -
    have "unat (d + 32) = (unat d + 32) mod 256" by (simp add: unat_word_ariths)
    with that show ?thesis
      using unsigned_less [of d, where ?'a = nat]
      by (cases "unat d + 32 < 256") (simp_all add: A_def B_def word_le_nat_alt le_mod_geq, linarith)
  qed
  have down: "A (d + 32)" if "B d" for d
    using that by (auto simp: A_def B_def word_le_nat_alt unat_word_ariths)
  have excl: "\<not> B d" if "A d" for d
    using that by (auto simp: A_def B_def word_le_nat_alt)
  have tl: "tolower c = (if A c then c else c + 32)" for c by (simp add: tolower_eq A_def)
  have fc: "fold_case c = (if B c then c + 32 else c)" for c by (simp add: fold_case_def B_def)
  show ?thesis
    unfolding tl fc using up [of x] up [of y] down [of x] down [of y] excl [of x] excl [of y]
    by (cases "A x"; cases "A y"; cases "B x"; cases "B y") auto
qed

text \<open>\<open>strncmp\<close> compares exactly \<open>n\<close> bytes, terminators included, up to letter case.\<close>

lemma strncmp_zero_iff:
  "strncmp m s1 s2 n = 0 \<longleftrightarrow>
     map fold_case (bytes_at m s1 (unat n)) = map fold_case (bytes_at m s2 (unat n))"
proof (induction m s1 s2 n rule: strncmp.induct)
  case (1 m s1 s2 n)
  show ?case
  proof (cases "n = 0")
    case True
    then show ?thesis by (subst strncmp.simps) simp
  next
    case False
    then show ?thesis
      using "1.IH" by (subst strncmp.simps)
        (auto simp: unat_eq_Suc_pred [OF False] bytes_at_Suc tolower_eq_iff)
  qed
qed

lemma strncmp_range: "strncmp m s1 s2 n \<in> {-1, 0, 1}"
proof (induction m s1 s2 n rule: strncmp.induct)
  case (1 m s1 s2 n)
  then show ?case by (subst strncmp.simps) auto
qed

section \<open>\<open>strncpy\<close> copies a prefix and no terminator\<close>

lemma memcpy_0 [simp]: "memcpy m tgt src 0 = m"
  by (subst memcpy.simps) simp

lemma strncpy_loop_memcpy:
  assumes "cstr m (src + w) s" and "Suc (length s) < 2 ^ 32" and "w \<le> len"
    and "tgt = src \<or> of_nat (length s) + 1 \<le> tgt - src"
    and "k = of_nat (min (length s) (unat (len - w)))"
  shows "strncpy_loop m tgt src len w = (memcpy m (tgt + w) (src + w) k, w + k)"
  using assms
proof (induction s arbitrary: m w k)
  case Nil
  then show ?case by (subst strncpy_loop.simps) simp
next
  case (Cons c s)
  show ?case
  proof (cases "w < len")
    case False
    with Cons.prems(3,5) have "k = 0" by simp
    then show ?thesis using False by (subst strncpy_loop.simps) simp
  next
    case True
    let ?m = "m(tgt + w := m (src + w))" and ?n = "of_nat (length (c # s)) + 1 :: u32"
    have "unat (of_nat (Suc (Suc (length s))) :: u32) = Suc (Suc (length s))"
      using Cons.prems(2) by (intro unat_of_nat_less) simp
    then have n: "?n \<noteq> 0" by auto
    have pre': "tgt = src \<or> of_nat (length s) + 1 \<le> tgt - src"
      using copy_step_pre [OF n Cons.prems(4)] by (simp add: add.commute)
    have "cstr m (src + w + 1) s" using Cons.prems(1) by simp
    then have c: "cstr ?m (src + (w + 1)) s"
      using cstr_upd_before [of m "src + w" s ?n "tgt + w" "m (src + w)"] Cons.prems(2,4)
      by (simp add: add.assoc)
    have d: "unat (len - w) = Suc (unat (len - (w + 1)))"
      using True unat_eq_Suc_pred [of "len - w"] by (simp add: algebra_simps)
    let ?k = "of_nat (min (length s) (unat (len - (w + 1)))) :: u32"
    have k: "k = ?k + 1" using Cons.prems(5) d by (simp add: min_def)
    have "unat ?k = min (length s) (unat (len - (w + 1)))"
      using Cons.prems(2) by (intro unat_of_nat_less) simp
    then have "unat (?k + 1) = Suc (min (length s) (unat (len - (w + 1))))"
      using Cons.prems(2) by (simp add: unat_word_ariths)
    then have k0: "k \<noteq> 0" unfolding k by auto
    have "strncpy_loop m tgt src len w = strncpy_loop ?m tgt src len (w + 1)"
      using True Cons.prems(1) by (subst strncpy_loop.simps) simp
    also have "\<dots> = (memcpy ?m (tgt + (w + 1)) (src + (w + 1)) ?k, w + 1 + ?k)"
      using Cons.prems(2) True by (intro Cons.IH c pre' refl inc_le) simp_all
    also have "\<dots> = (memcpy m (tgt + w) (src + w) k, w + k)"
      using k0 by (subst (2) memcpy.simps) (simp add: k ac_simps)
    finally show ?thesis .
  qed
qed

lemma strncpy_memcpy:
  assumes "cstr m src s" and "Suc (length s) < 2 ^ 32"
    and "tgt = src \<or> of_nat (length s) + 1 \<le> tgt - src"
  shows "strncpy m tgt src len =
    (let k = of_nat (min (length s) (unat len)) in (memcpy m tgt src k, k))"
  using strncpy_loop_memcpy [of m src 0 s len tgt] assms by (simp add: strncpy_def Let_def)

section \<open>Properties\<close>

text \<open>The comparison of two lists of bytes up to letter case; the first difference decides, by the raw
  signed bytes.\<close>

fun compare_nocase :: "u8 list \<Rightarrow> u8 list \<Rightarrow> int" where
  "compare_nocase (x # xs) (y # ys) =
     (if fold_case x = fold_case y then compare_nocase xs ys else if sint x < sint y then -1 else 1)"
| "compare_nocase _ _ = 0"

section \<open>Bytes moved one at a time\<close>

text \<open>The bytes from \<open>w\<close> on have gone to \<open>tgt\<close>; nothing else has changed.\<close>

definition moved :: "memory \<Rightarrow> memory \<Rightarrow> u32 \<Rightarrow> (nat \<Rightarrow> u8) \<Rightarrow> nat \<Rightarrow> nat \<Rightarrow> bool" where
  "moved m m' tgt c w k \<longleftrightarrow> (\<forall>i. w \<le> i \<and> i < k \<longrightarrow> m' (tgt + of_nat i) = c i)
     \<and> (\<forall>x. (\<forall>i. w \<le> i \<and> i < k \<longrightarrow> x \<noteq> tgt + of_nat i) \<longrightarrow> m' x = m x)"

lemma moved_refl: "k \<le> w \<Longrightarrow> moved m m tgt c w k"
  by (auto simp: moved_def)

lemma moved_step:
  assumes "moved (m(tgt + of_nat w := c w)) m' tgt c (Suc w) k" and "w < k" and "k < 2 ^ 32"
  shows "moved m m' tgt c w k"
proof -
  have ne: "tgt + of_nat w \<noteq> tgt + of_nat i" if "w < i" "i < k" for i
    using of_nat_u32_eq_iff [of w i] that assms(3) by simp
  have "m' (tgt + of_nat w) = c w"
    using assms(1) ne unfolding moved_def by (metis Suc_le_eq fun_upd_same)
  moreover have "m' (tgt + of_nat i) = c i" if "w \<le> i" "i < k" "i \<noteq> w" for i
    using assms(1) that unfolding moved_def by (metis Suc_leI le_neq_implies_less)
  moreover have "m' x = m x" if "\<forall>i. w \<le> i \<and> i < k \<longrightarrow> x \<noteq> tgt + of_nat i" for x
    using assms(1,2) that unfolding moved_def by (metis Suc_leD fun_upd_other order_refl)
  ultimately show ?thesis unfolding moved_def by blast
qed

lemma movedD:
  assumes "moved m m' tgt c 0 k"
  shows "i < k \<Longrightarrow> m' (tgt + of_nat i) = c i"
    and "k \<le> unat n \<Longrightarrow> \<not> within tgt n x \<Longrightarrow> m' x = m x"
    and "(\<forall>i<k. x \<noteq> tgt + of_nat i) \<Longrightarrow> m' x = m x"
proof -
  show "i < k \<Longrightarrow> m' (tgt + of_nat i) = c i" using assms by (simp add: moved_def)
  show out: "(\<forall>i<k. x \<noteq> tgt + of_nat i) \<Longrightarrow> m' x = m x" for x using assms by (simp add: moved_def)
  show "m' x = m x" if k: "k \<le> unat n" and w: "\<not> within tgt n x"
  proof (rule out, intro allI impI notI)
    fix i assume "i < k" and x: "x = tgt + of_nat i"
    then have "i < unat n" using k by simp
    from of_nat_less_word [OF this] w show False by (simp add: x within_def)
  qed
qed

text \<open>C33: \<open>strncmp\<close> is the case-insensitive comparison of exactly \<open>n\<close> bytes: it folds the letters of
  both strings although \<open>tolower\<close> garbles every other character, and it does not stop at a terminator.\<close>

theorem strncmp_is_compare_nocase:
  "strncmp m s1 s2 n = compare_nocase (bytes_at m s1 (unat n)) (bytes_at m s2 (unat n))"
proof (induction m s1 s2 n rule: strncmp.induct)
  case (1 m s1 s2 n)
  show ?case
  proof (cases "n = 0")
    case True
    then show ?thesis by (subst strncmp.simps) simp
  next
    case False
    then show ?thesis
      using "1.IH" by (subst strncmp.simps)
        (simp add: unat_eq_Suc_pred [OF False] bytes_at_Suc tolower_eq_iff)
  qed
qed

end
