(* ===== verification/Vga.thy ===== *)
theory Vga
  imports KHeap Str
begin

text \<open>
  The text console of \<^verbatim>\<open>drivers/display/vga/vga.c\<close>. The 16-bit cells of the screen are
  in the physical memory, at \<open>VGA_BASE + 2 * (80 * y + x)\<close>; the component adds the cursor and the
  base pointer to the state. The cursor is two \<open>uint8_t\<close>; nothing scrolls.
\<close>

section \<open>State and operations\<close>

record vga = kst +
  VGA_BASE :: u32
  cursor_x :: u8
  cursor_y :: u8

abbreviation (input) VGA_TEXT_BUFFER :: u32 where "VGA_TEXT_BUFFER \<equiv> 0xB8000"
abbreviation (input) VGA_WIDTH :: nat where "VGA_WIDTH \<equiv> 80"
abbreviation (input) VGA_HEIGHT :: nat where "VGA_HEIGHT \<equiv> 80"
abbreviation (input) ASCII_BACKSPACE :: u8 where "ASCII_BACKSPACE \<equiv> 0x08"
abbreviation (input) ASCII_RETURN :: u8 where "ASCII_RETURN \<equiv> 0xA"

definition vga_init :: "'a vga_scheme \<Rightarrow> 'a vga_scheme" where
  "vga_init s = s\<lparr>VGA_BASE := VGA_TEXT_BUFFER, cursor_x := 0, cursor_y := 0\<rparr>"

text \<open>Both arguments are signed \<open>char\<close>s, promoted before the shift and the disjunction.\<close>

definition kmake_char :: "u8 \<Rightarrow> u8 \<Rightarrow> u16" where
  "kmake_char c color = push_bit 8 (scast color) OR scast c"

definition cell_addr :: "u32 \<Rightarrow> nat \<Rightarrow> u32" where
  "cell_addr base i = base + 2 * of_nat i"

definition cursor_cell :: "'a vga_scheme \<Rightarrow> nat" where
  "cursor_cell s = unat (cursor_y s) * VGA_WIDTH + unat (cursor_x s)"

text \<open>The tail of \<open>kputchar\<close>: store the cell, advance, wrap at the right margin.\<close>

definition advance_cursor :: "'a vga_scheme \<Rightarrow> 'a vga_scheme" where
  "advance_cursor s =
     (let s = s\<lparr>cursor_x := cursor_x s + 1\<rparr>
      in if cursor_x s = of_nat VGA_WIDTH
         then s\<lparr>cursor_x := 0, cursor_y := cursor_y s + 1\<rparr> else s)"

definition kput_glyph :: "'a vga_scheme \<Rightarrow> u8 \<Rightarrow> u8 \<Rightarrow> 'a vga_scheme" where
  "kput_glyph s c color =
     advance_cursor
       (s\<lparr>mem := store16 (mem s) (cell_addr (VGA_BASE s) (cursor_cell s)) (kmake_char c color)\<rparr>)"

definition kreturn :: "'a vga_scheme \<Rightarrow> 'a vga_scheme" where
  "kreturn s = s\<lparr>cursor_x := 0, cursor_y := cursor_y s + 1\<rparr>"

text \<open>\<open>((cursor_x - 1) % 80 + 80) % 80\<close> in C integers, stored back to a byte.\<close>

definition cursor_back :: "u8 \<Rightarrow> u8" where
  "cursor_back x = word_of_int (((uint x - 1) smod 80 + 80) smod 80)"

text \<open>\<open>kbackspace\<close> calls \<open>kputchar(' ')\<close>, whose special cases do not apply to a space
  (\<open>kputchar_glyph\<close> below).\<close>

definition kbackspace :: "'a vga_scheme \<Rightarrow> 'a vga_scheme" where
  "kbackspace s =
     (if cursor_x s = 0 \<and> cursor_y s = 0 then s
      else let s = (if cursor_x s = 0 then s\<lparr>cursor_y := cursor_y s - 1\<rparr> else s);
               s = s\<lparr>cursor_x := cursor_back (cursor_x s)\<rparr>;
               s = kput_glyph s 0x20 0xf
           in s\<lparr>cursor_x := cursor_back (cursor_x s)\<rparr>)"

definition kputchar :: "'a vga_scheme \<Rightarrow> u8 \<Rightarrow> 'a vga_scheme" where
  "kputchar s c =
     (if c = ASCII_BACKSPACE then kbackspace s
      else if c = ASCII_RETURN then kreturn s
      else kput_glyph s c 0xf)"

partial_function (option) kputs_loop ::
    "'a vga_scheme \<Rightarrow> u32 \<Rightarrow> u32 \<Rightarrow> (u32 \<times> 'a vga_scheme) option" where
  "kputs_loop s str strpos =
     (if mem s (str + strpos) = 0 then Some (strpos, s)
      else if mem s (str + strpos) = 0xA
      then kputs_loop (s\<lparr>cursor_x := 0, cursor_y := cursor_y s + 1\<rparr>) str (strpos + 1)
      else kputs_loop (kputchar s (mem s (str + strpos))) str (strpos + 1))"

definition kputs :: "'a vga_scheme \<Rightarrow> u32 \<Rightarrow> (u32 \<times> 'a vga_scheme) option" where
  "kputs s str = kputs_loop s str 0"

partial_function (option) kprintf_wc_loop ::
    "'a vga_scheme \<Rightarrow> u32 \<Rightarrow> u8 \<Rightarrow> u32 \<Rightarrow> (u32 \<times> 'a vga_scheme) option" where
  "kprintf_wc_loop s str color n =
     (if mem s (str + n) = 0 then Some (n, s)
      else if mem s (str + n) = 0xA
      then kprintf_wc_loop (s\<lparr>cursor_x := 0, cursor_y := cursor_y s + 1\<rparr>) str color (n + 1)
      else kprintf_wc_loop (kput_glyph s (mem s (str + n)) color) str color (n + 1))"

definition kprintf_wc :: "'a vga_scheme \<Rightarrow> u32 \<Rightarrow> u8 \<Rightarrow> (u32 \<times> 'a vga_scheme) option" where
  "kprintf_wc s str color = kprintf_wc_loop s str color 0"

text \<open>\<open>kpanic\<close> prints and then loops forever: it has no successor state.\<close>

definition kpanic :: "'a vga_scheme \<Rightarrow> u32 \<Rightarrow> (unit \<times> 'a vga_scheme) option" where
  "kpanic s str = (case kputs s str of None \<Rightarrow> None | Some _ \<Rightarrow> None)"

text \<open>\<open>kprint_int\<close>: the digits go into a buffer, least significant first, and come out from the
  end. \<open>num = -num\<close> on the least \<open>int\<close> leaves it negative, and no digit is produced.\<close>

fun int_buf :: "nat \<Rightarrow> u8 list" where
  "int_buf num = (if 0 < num then (of_nat (num mod 10) + 0x30) # int_buf (num div 10) else [])"

declare int_buf.simps [simp del]

definition kprint_int :: "'a vga_scheme \<Rightarrow> u32 \<Rightarrow> 'a vga_scheme" where
  "kprint_int s num =
     (if num = 0 then kputchar s 0x30
      else let (s, num) = (if sint num < 0 then (kputchar s 0x2D, - num) else (s, num));
               buf = (if 0 < sint num then int_buf (nat (sint num)) else [])
           in fold (\<lambda>c s. kputchar s c) (rev buf) s)"

definition clear_cell :: "nat \<Rightarrow> nat \<Rightarrow> 'a vga_scheme \<Rightarrow> 'a vga_scheme" where
  "clear_cell x y s = s\<lparr>mem :=
     store16 (mem s) (cell_addr (VGA_BASE s) (y * VGA_WIDTH + x)) (kmake_char 0x20 0)\<rparr>"

definition kclear_display :: "'a vga_scheme \<Rightarrow> 'a vga_scheme" where
  "kclear_display s =
     fold (\<lambda>x. fold (\<lambda>y. clear_cell x y) [0..<VGA_HEIGHT]) [0..<VGA_WIDTH]
       (s\<lparr>cursor_x := 0, cursor_y := 0\<rparr>)"

section \<open>Where the console writes\<close>

definition con_frame :: "'a vga_scheme \<Rightarrow> 'a vga_scheme \<Rightarrow> bool" where
  "con_frame s s' \<longleftrightarrow> cursor_x s' < 80
     \<and> s' = s\<lparr>mem := mem s', cursor_x := cursor_x s', cursor_y := cursor_y s'\<rparr>
     \<and> (\<forall>a. \<not> within (VGA_BASE s) 40960 a \<longrightarrow> mem s' a = mem s a)"

lemma con_frame_refl: "cursor_x s < 80 \<Longrightarrow> con_frame s s"
  by (simp add: con_frame_def)

lemma con_frame_trans:
  assumes "con_frame s t" and "con_frame t u"
  shows "con_frame s u"
proof -
  have t: "t = s\<lparr>mem := mem t, cursor_x := cursor_x t, cursor_y := cursor_y t\<rparr>"
    and u: "u = t\<lparr>mem := mem u, cursor_x := cursor_x u, cursor_y := cursor_y u\<rparr>"
    using assms by (simp_all add: con_frame_def)
  have "u = s\<lparr>mem := mem u, cursor_x := cursor_x u, cursor_y := cursor_y u\<rparr>"
    by (subst u, subst t) simp
  moreover have "VGA_BASE t = VGA_BASE s" by (subst t) simp
  ultimately show ?thesis using assms by (auto simp: con_frame_def)
qed

lemma con_frame_base: "con_frame s t \<Longrightarrow> VGA_BASE t = VGA_BASE s"
  unfolding con_frame_def by (metis vga.select_convs(1) vga.surjective vga.update_convs(1,2,3) kst.update_convs(1))

lemma cell_addr_diff: "i < 2 ^ 30 \<Longrightarrow> unat (cell_addr b i - b) = 2 * i"
proof -
  assume "i < 2 ^ 30"
  then have un: "unat (of_nat (2 * i) :: u32) = 2 * i" by (intro unat_of_nat_less) simp
  have eq: "cell_addr b i - b = of_nat (2 * i)" by (simp add: cell_addr_def)
  show ?thesis unfolding eq un ..
qed

lemma store16_window:
  assumes "i < 20480" and "\<not> within b 40960 a"
  shows "store16 m (cell_addr b i) v a = m a"
proof -
  have "unat (cell_addr b i - b) = 2 * i" using assms(1) by (intro cell_addr_diff) simp
  moreover have "unat (cell_addr b i + 1 - b) = 2 * i + 1"
  proof -
    have eq: "cell_addr b i + 1 - b = of_nat (2 * i + 1)" by (simp add: cell_addr_def)
    have "unat (of_nat (2 * i + 1) :: u32) = 2 * i + 1"
      using assms(1) by (intro unat_of_nat_less) simp
    then show ?thesis unfolding eq .
  qed
  ultimately have "a \<noteq> cell_addr b i" "a \<noteq> cell_addr b i + 1"
    using assms by (auto simp: within_def word_less_nat_alt)
  then show ?thesis by (simp add: store16_def)
qed

lemma cursor_cell_bound: "cursor_x s < 80 \<Longrightarrow> cursor_cell s < 20480"
  using unsigned_less [of "cursor_y s", where ?'a = nat]
  by (simp add: cursor_cell_def word_less_nat_alt)

lemma unat_cursor_inc:
  fixes x :: u8
  assumes "x < 80"
  shows "unat (x + 1) = unat x + 1"
  using assms by (simp add: word_less_nat_alt unat_word_ariths)

lemma con_frame_glyph: "cursor_x s < 80 \<Longrightarrow> con_frame s (kput_glyph s c color)"
proof -
  assume x: "cursor_x s < 80"
  have "cursor_x s + 1 < 80 \<or> cursor_x s + 1 = 80"
    using x unat_cursor_inc [OF x] by (auto simp: word_less_nat_alt word_unat_eq_iff)
  then show ?thesis
    using store16_window [OF cursor_cell_bound [OF x]]
    by (auto simp: con_frame_def kput_glyph_def advance_cursor_def Let_def)
qed

lemma con_frame_cursor: "x < 80 \<Longrightarrow> con_frame s (s\<lparr>cursor_x := x, cursor_y := y\<rparr>)"
  by (simp add: con_frame_def)

lemma cursor_back_eq:
  assumes "x < 80"
  shows "cursor_back x = (if x = 0 then 79 else x - 1)"
proof (cases "x = 0")
  case True
  then show ?thesis by (simp add: cursor_back_def signed_modulo_int_def signed_divide_int_def)
next
  case False
  then have u: "0 < uint x" "uint x < 80"
    using assms by (simp_all add: word_less_def uint_0_iff word_neq_0_conv)
  then have "(uint x - 1) smod 80 = uint x - 1"
    by (subst smod_mod_positive) simp_all
  moreover have "(uint x - 1 + 80) smod 80 = uint x - 1"
    using u by (subst smod_mod_positive) (simp_all only: mod_add_self2, simp_all)
  ultimately have "(uint x - 1) smod 80 = uint x - 1" "(uint x - 1 + 80) smod 80 = uint x - 1" .
  then show ?thesis using False by (simp add: cursor_back_def)
qed

lemma cursor_back_less: "x < 80 \<Longrightarrow> cursor_back x < 80"
proof -
  assume x: "x < 80"
  then have "unat (x - 1) < 80" if "x \<noteq> 0"
    using that unat_eq_Suc_pred [OF that] by (simp add: word_less_nat_alt)
  then show ?thesis by (simp add: cursor_back_eq [OF x] word_less_nat_alt)
qed

lemma con_frame_x:
  assumes "con_frame s t" and "x < 80"
  shows "con_frame s (t\<lparr>cursor_x := x\<rparr>)"
proof (rule con_frame_trans [OF assms(1)])
  show "con_frame t (t\<lparr>cursor_x := x\<rparr>)" using assms(2) by (simp add: con_frame_def)
qed

lemma con_frame_less: "con_frame s t \<Longrightarrow> cursor_x t < 80"
  by (simp add: con_frame_def)

lemma con_frame_backspace:
  assumes "cursor_x s < 80"
  shows "con_frame s (kbackspace s)"
proof -
  let ?s1 = "if cursor_x s = 0 then s\<lparr>cursor_y := cursor_y s - 1\<rparr> else s"
  let ?s2 = "?s1\<lparr>cursor_x := cursor_back (cursor_x ?s1)\<rparr>"
  have s1: "con_frame s ?s1" using assms by (cases "cursor_x s = 0") (simp_all add: con_frame_def)
  then have s2: "con_frame s ?s2"
    by (rule con_frame_x) (rule cursor_back_less [OF con_frame_less [OF s1]])
  then have s3: "con_frame s (kput_glyph ?s2 0x20 0xf)"
    by (rule con_frame_trans) (rule con_frame_glyph [OF con_frame_less [OF s2]])
  then have "con_frame s ((kput_glyph ?s2 0x20 0xf)
      \<lparr>cursor_x := cursor_back (cursor_x (kput_glyph ?s2 0x20 0xf))\<rparr>)"
    by (rule con_frame_x) (rule cursor_back_less [OF con_frame_less [OF s3]])
  then show ?thesis
    unfolding kbackspace_def Let_def using assms by (auto simp: con_frame_refl split: if_splits)
qed

lemma con_frame_putchar: "cursor_x s < 80 \<Longrightarrow> con_frame s (kputchar s c)"
  unfolding kputchar_def kreturn_def
  by (auto intro: con_frame_backspace con_frame_glyph con_frame_cursor)

lemma con_frame_puts: "cursor_x s < 80 \<Longrightarrow> con_frame s (fold (\<lambda>c s. kputchar s c) cs s)"
proof (induction cs arbitrary: s)
  case Nil
  then show ?case by (simp add: con_frame_refl)
next
  case (Cons c cs)
  have f: "con_frame s (kputchar s c)" by (rule con_frame_putchar [OF Cons.prems])
  then show ?case using con_frame_trans [OF f Cons.IH [OF con_frame_less [OF f]]] by simp
qed

text \<open>A string outside the window stays as it is while it is printed.\<close>

definition outside_window :: "'a vga_scheme \<Rightarrow> u32 \<Rightarrow> nat \<Rightarrow> bool" where
  "outside_window s str n \<longleftrightarrow> (\<forall>i\<le>n. \<not> within (VGA_BASE s) 40960 (str + of_nat i))"

lemma cstr_con_frame:
  assumes "cstr (mem s) str cs" and "outside_window s str (length cs)" and "con_frame s t"
  shows "cstr (mem t) str cs"
  using assms by (intro cstr_cong [OF assms(1)]) (auto simp: con_frame_def outside_window_def)

lemma outside_window_step:
  "outside_window s str (Suc n) \<Longrightarrow> con_frame s t \<Longrightarrow> outside_window t (str + 1) n"
  unfolding outside_window_def
  by (metis (no_types, opaque_lifting) Suc_le_mono add.assoc add.commute con_frame_base of_nat_Suc)

lemma kputs_loop_fold:
  assumes "cstr (mem s) (str + p) cs" and "outside_window s (str + p) (length cs)"
    and "cursor_x s < 80"
  shows "kputs_loop s str p = Some (p + of_nat (length cs), fold (\<lambda>c s. kputchar s c) cs s)"
  using assms
proof (induction cs arbitrary: s p)
  case Nil
  then show ?case by (subst kputs_loop.simps) simp
next
  case (Cons c cs)
  have f: "con_frame s (kputchar s c)" by (rule con_frame_putchar [OF Cons.prems(3)])
  have o: "outside_window (kputchar s c) (str + (p + 1)) (length cs)"
    using outside_window_step [OF _ f, of "str + p"] Cons.prems(2) by (simp add: add.assoc)
  have o': "outside_window s (str + p + 1) (length cs)"
    using outside_window_step [OF _ con_frame_refl [OF Cons.prems(3)], of "str + p"] Cons.prems(2)
    by simp
  have "cstr (mem s) (str + p + 1) cs" using Cons.prems(1) by simp
  then have "cstr (mem (kputchar s c)) (str + (p + 1)) cs"
    using cstr_con_frame [OF _ o' f] by (simp add: add.assoc)
  then have "kputs_loop (kputchar s c) str (p + 1) =
      Some (p + 1 + of_nat (length cs), fold (\<lambda>c s. kputchar s c) cs (kputchar s c))"
    by (intro Cons.IH o con_frame_less [OF f])
  moreover have "kputs_loop s str p = kputs_loop (kputchar s c) str (p + 1)"
    using Cons.prems(1) by (subst kputs_loop.simps) (auto simp: kputchar_def kreturn_def)
  ultimately show ?case by (simp add: add.assoc)
qed

lemma kputchar_glyph: "kputchar s 0x20 = kput_glyph s 0x20 0xf"
  by (simp add: kputchar_def)

section \<open>What the cells hold\<close>

lemma store16_cell:
  assumes "i < 2 ^ 30"
  shows "store16 m (cell_addr b i) v a =
    (if unat (a - b) div 2 = i
     then if even (unat (a - b)) then ucast v else ucast (drop_bit 8 v) else m a)"
proof -
  have u: "unat (of_nat (2 * i) :: u32) = 2 * i" "unat (of_nat (2 * i + 1) :: u32) = 2 * i + 1"
    using assms by (intro unat_of_nat_less; simp)+
  have "a = cell_addr b i \<longleftrightarrow> a - b = of_nat (2 * i)"
    by (auto simp: cell_addr_def algebra_simps)
  also have "\<dots> \<longleftrightarrow> unat (a - b) = 2 * i" using u(1) by (metis of_nat_unat ucast_id)
  finally have e: "a = cell_addr b i \<longleftrightarrow> unat (a - b) = 2 * i" .
  have "a = cell_addr b i + 1 \<longleftrightarrow> a - b = of_nat (2 * i + 1)"
    by (auto simp: cell_addr_def algebra_simps)
  also have "\<dots> \<longleftrightarrow> unat (a - b) = 2 * i + 1" using u(2) by (metis of_nat_unat ucast_id)
  finally have o: "a = cell_addr b i + 1 \<longleftrightarrow> unat (a - b) = 2 * i + 1" .
  have "unat (a - b) div 2 = i \<longleftrightarrow> unat (a - b) = 2 * i \<or> unat (a - b) = 2 * i + 1"
    by presburger
  then show ?thesis by (auto simp: store16_def e o)
qed

lemma cell_offset:
  assumes "i < 2 ^ 30"
  shows "unat (cell_addr b i - b) = 2 * i" and "unat (cell_addr b i + 1 - b) = 2 * i + 1"
proof -
  have u: "unat (of_nat (2 * i) :: u32) = 2 * i" "unat (of_nat (2 * i + 1) :: u32) = 2 * i + 1"
    using assms by (intro unat_of_nat_less; simp)+
  have eq: "cell_addr b i - b = of_nat (2 * i)" "cell_addr b i + 1 - b = of_nat (2 * i + 1)"
    by (simp_all add: cell_addr_def)
  show "unat (cell_addr b i - b) = 2 * i" "unat (cell_addr b i + 1 - b) = 2 * i + 1"
    unfolding eq u by simp_all
qed

definition cell :: "'a vga_scheme \<Rightarrow> nat \<Rightarrow> u16" where
  "cell s i = load16 (mem s) (cell_addr (VGA_BASE s) i)"

lemma load16_store16_cell:
  assumes "i < 2 ^ 30" and "j < 2 ^ 30"
  shows "load16 (store16 m (cell_addr b i) v) (cell_addr b j) =
    (if i = j then v else load16 m (cell_addr b j))"
proof (cases "i = j")
  case True
  then show ?thesis by simp
next
  case False
  then show ?thesis
    using assms by (simp add: load16_def store16_cell cell_offset)
qed

lemma cell_glyph:
  assumes "cursor_x s < 80" and "j < 2 ^ 30"
  shows "cell (kput_glyph s c color) j = (if j = cursor_cell s then kmake_char c color else cell s j)"
proof -
  have "cursor_cell s < 2 ^ 30" using cursor_cell_bound [OF assms(1)] by simp
  then show ?thesis
    using assms(2) by (auto simp: cell_def kput_glyph_def advance_cursor_def Let_def load16_store16_cell)
qed

text \<open>A glyph that does not end its row moves the cursor one cell to the right.\<close>

lemma glyph_cursor:
  assumes "unat (cursor_x s) < 79"
  shows "cursor_x (kput_glyph s c color) = cursor_x s + 1"
    and "cursor_y (kput_glyph s c color) = cursor_y s"
proof -
  have "unat (cursor_x s + 1) = unat (cursor_x s) + 1"
    using assms by (intro unat_cursor_inc) (simp add: word_less_nat_alt)
  then have "cursor_x s + 1 \<noteq> 80" using assms by auto
  then show "cursor_x (kput_glyph s c color) = cursor_x s + 1"
    "cursor_y (kput_glyph s c color) = cursor_y s"
    by (simp_all add: kput_glyph_def advance_cursor_def Let_def)
qed

lemma puts_row:
  assumes "\<forall>c\<in>set cs. c \<noteq> 8 \<and> c \<noteq> 10" and "unat (cursor_x s) + length cs < 80"
    and "j < 2 ^ 30"
  shows "cell (fold (\<lambda>c s. kputchar s c) cs s) j =
      (if cursor_cell s \<le> j \<and> j < cursor_cell s + length cs
       then kmake_char (cs ! (j - cursor_cell s)) 0xf else cell s j)
    \<and> cursor_cell (fold (\<lambda>c s. kputchar s c) cs s) = cursor_cell s + length cs"
  using assms
proof (induction cs arbitrary: s)
  case Nil
  then show ?case by auto
next
  case (Cons c cs)
  let ?s = "kput_glyph s c 0xf"
  have cs: "unat (cursor_x s) < 79" and x: "cursor_x s < 80" and c: "kputchar s c = ?s"
    using Cons.prems by (auto simp: word_less_nat_alt kputchar_def)
  have ux: "unat (cursor_x ?s) = unat (cursor_x s) + 1"
    using glyph_cursor(1) [OF cs] unat_cursor_inc [OF x] by simp
  then have cc: "cursor_cell ?s = cursor_cell s + 1"
    using glyph_cursor(2) [OF cs] by (simp add: cursor_cell_def)
  show ?case
    using Cons.IH [of ?s] Cons.prems ux cc cell_glyph [OF x, of j c "0xf"] c
    by (auto simp: nth_Cons' Suc_le_eq)
qed

lemma cell_of_cursor:
  assumes "cursor_x t = cursor_x s" and "cursor_y t = cursor_y s"
  shows "cursor_cell t = cursor_cell s"
  using assms by (simp add: cursor_cell_def)

lemma unat_79 [simp]: "unat (79 :: u8) = 79"
  by simp

text \<open>A space in the last column ends its row.\<close>

lemma glyph_last_column:
  assumes "cursor_x s = 79"
  shows "cursor_x (kput_glyph s c color) = 0"
    and "cursor_y (kput_glyph s c color) = cursor_y s + 1"
  using assms by (simp_all add: kput_glyph_def advance_cursor_def Let_def)

lemma kbackspace_inner:
  assumes "cursor_x s < 80" and "cursor_x s \<noteq> 0"
  shows "kbackspace s = (kput_glyph (s\<lparr>cursor_x := cursor_x s - 1\<rparr>) 0x20 0xf)\<lparr>cursor_x := cursor_x s - 1\<rparr>"
proof -
  let ?s = "s\<lparr>cursor_x := cursor_x s - 1\<rparr>"
  have "unat (cursor_x s) = Suc (unat (cursor_x s - 1))" by (rule unat_eq_Suc_pred [OF assms(2)])
  then have "unat (cursor_x ?s) < 79" using assms(1) by (simp add: word_less_nat_alt)
  from glyph_cursor(1) [OF this, of "0x20" "0xf"]
  have x: "cursor_x (kput_glyph ?s 0x20 0xf) = cursor_x s" by simp
  have "kbackspace s = (kput_glyph ?s 0x20 0xf)
      \<lparr>cursor_x := cursor_back (cursor_x (kput_glyph ?s 0x20 0xf))\<rparr>"
    using assms(2) by (simp add: kbackspace_def Let_def cursor_back_eq [OF assms(1)])
  then show ?thesis unfolding x using assms by (simp add: cursor_back_eq)
qed

lemma kbackspace_column_0:
  assumes "cursor_x s = 0" and "cursor_y s \<noteq> 0"
  shows "kbackspace s =
    (kput_glyph (s\<lparr>cursor_x := 79, cursor_y := cursor_y s - 1\<rparr>) 0x20 0xf)\<lparr>cursor_x := 79\<rparr>"
proof -
  let ?s = "s\<lparr>cursor_y := cursor_y s - 1, cursor_x := 79\<rparr>"
  have "kbackspace s = (kput_glyph ?s 0x20 0xf)
      \<lparr>cursor_x := cursor_back (cursor_x (kput_glyph ?s 0x20 0xf))\<rparr>"
    using assms by (simp add: kbackspace_def Let_def cursor_back_eq)
  also have "cursor_x (kput_glyph ?s 0x20 0xf) = 0" by (rule glyph_last_column) simp
  finally have "kbackspace s = (kput_glyph ?s 0x20 0xf)\<lparr>cursor_x := 79\<rparr>"
    by (simp add: cursor_back_eq)
  moreover have "?s = s\<lparr>cursor_x := 79, cursor_y := cursor_y s - 1\<rparr>" by simp
  ultimately show ?thesis by (simp only:)
qed

lemma cell_x [simp]: "cell (s\<lparr>cursor_x := x\<rparr>) j = cell s j" "cell (s\<lparr>cursor_y := y\<rparr>) j = cell s j"
  by (simp_all add: cell_def)

section \<open>Decimal output\<close>

definition digit_val :: "u8 \<Rightarrow> nat" where
  "digit_val c = unat c - 48"

definition decimal_val :: "u8 list \<Rightarrow> nat" where
  "decimal_val cs = foldl (\<lambda>v c. 10 * v + digit_val c) 0 cs"

lemma digit_val_digit: "d < 10 \<Longrightarrow> digit_val (of_nat d + 0x30) = d"
proof -
  assume d: "d < 10"
  have "of_nat d + (0x30 :: u8) = of_nat (d + 48)" by simp
  moreover have "unat (of_nat (d + 48) :: u8) = d + 48" using d by (intro unat_of_nat_less) simp
  ultimately show ?thesis by (simp only: digit_val_def)
qed

lemma decimal_val_int_buf: "decimal_val (rev (int_buf n)) = n"
proof (induction n rule: int_buf.induct)
  case (1 n)
  show ?case
  proof (cases "0 < n")
    case True
    have "decimal_val (rev (int_buf n)) = 10 * decimal_val (rev (int_buf (n div 10))) + n mod 10"
      using True digit_val_digit [of "n mod 10"] by (subst int_buf.simps) (simp add: decimal_val_def)
    then show ?thesis using "1.IH" [OF True] by simp
  next
    case False
    then show ?thesis by (subst int_buf.simps) (simp add: decimal_val_def)
  qed
qed

lemma length_int_buf: "n < 10 ^ k \<Longrightarrow> length (int_buf n) \<le> k"
proof (induction k arbitrary: n)
  case 0
  then show ?case by (subst int_buf.simps) simp
next
  case (Suc k)
  then have "n div 10 < 10 ^ k" by (simp add: less_mult_imp_div_less mult.commute)
  then show ?case using Suc.IH by (subst int_buf.simps) simp
qed

definition is_digit :: "u8 \<Rightarrow> bool" where
  "is_digit c \<longleftrightarrow> 0x30 \<le> c \<and> c \<le> 0x39"

lemma unat_digit:
  assumes "d < 10"
  shows "unat (of_nat d + 0x30 :: u8) = d + 48"
proof -
  have "of_nat d + (0x30 :: u8) = of_nat (d + 48)" by simp
  moreover have "unat (of_nat (d + 48) :: u8) = d + 48" using assms by (intro unat_of_nat_less) simp
  ultimately show ?thesis by (simp only:)
qed

lemma is_digit_int_buf: "c \<in> set (int_buf n) \<Longrightarrow> is_digit c"
proof (induction n rule: int_buf.induct)
  case (1 n)
  have "is_digit (of_nat (n mod 10) + 0x30)"
    using unat_digit [of "n mod 10"] by (simp add: is_digit_def word_le_nat_alt)
  then show ?case using 1 by (subst (asm) int_buf.simps) (auto split: if_splits)
qed

text \<open>The most significant digit is not zero.\<close>

lemma last_int_buf: "0 < n \<Longrightarrow> int_buf n \<noteq> [] \<and> last (int_buf n) \<noteq> 0x30"
proof (induction n rule: int_buf.induct)
  case (1 n)
  show ?case
  proof (cases "n div 10 = 0")
    case True
    then have "int_buf n = [of_nat n + 0x30]" using 1(2)
      by (simp add: int_buf.simps [of n] int_buf.simps [of 0] div_eq_0_iff)
    moreover have "unat (of_nat n + 0x30 :: u8) \<noteq> unat (0x30 :: u8)"
      using True 1(2) unat_digit [of n] by (simp add: div_eq_0_iff)
    ultimately show ?thesis by auto
  next
    case False
    then show ?thesis using 1 by (subst int_buf.simps, subst int_buf.simps) simp
  qed
qed

lemma fold_store_cells:
  assumes "\<forall>i\<in>set is. i < 2 ^ 30"
  shows "fold (\<lambda>i m. store16 m (cell_addr b i) v) is m a =
    (if unat (a - b) div 2 \<in> set is
     then if even (unat (a - b)) then ucast v else ucast (drop_bit 8 v) else m a)"
  using assms
proof (induction "is" arbitrary: m)
  case Nil
  then show ?case by simp
next
  case (Cons i "is")
  then show ?case by (auto simp: store16_cell)
qed

definition clear_order :: "nat list" where
  "clear_order = concat (map (\<lambda>x. map (\<lambda>y. y * 80 + x) [0..<80]) [0..<80])"

lemma set_clear_order: "set clear_order = {..<6400}"
proof
  show "set clear_order \<subseteq> {..<6400}" by (auto simp: clear_order_def)
  show "{..<6400} \<subseteq> set clear_order"
  proof
    fix i :: nat assume "i \<in> {..<6400}"
    then have "i div 80 < 80" "i mod 80 < 80" "i = i div 80 * 80 + i mod 80"
      by (simp_all add: less_mult_imp_div_less)
    then show "i \<in> set clear_order" unfolding clear_order_def
      by (auto intro!: bexI [of _ "i mod 80"] image_eqI [of _ _ "i div 80"])
  qed
qed

lemma fold_clear_column:
  "fold (\<lambda>y. clear_cell x y) ys s =
    s\<lparr>mem := fold (\<lambda>i m. store16 m (cell_addr (VGA_BASE s) i) (kmake_char 0x20 0))
       (map (\<lambda>y. y * 80 + x) ys) (mem s)\<rparr>"
  by (induction ys arbitrary: s) (simp_all add: clear_cell_def)

lemma fold_clear_all:
  "fold (\<lambda>x. fold (\<lambda>y. clear_cell x y) ys) xs s =
    s\<lparr>mem := fold (\<lambda>i m. store16 m (cell_addr (VGA_BASE s) i) (kmake_char 0x20 0))
       (concat (map (\<lambda>x. map (\<lambda>y. y * 80 + x) ys) xs)) (mem s)\<rparr>"
  by (induction xs arbitrary: s) (simp_all add: fold_clear_column)

lemma kclear_display_eq:
  "kclear_display s = s\<lparr>cursor_x := 0, cursor_y := 0,
     mem := \<lambda>a. if within (VGA_BASE s) 12800 a
       then if even (unat (a - VGA_BASE s)) then 0x20 else 0 else mem s a\<rparr>"
proof -
  let ?b = "VGA_BASE s" and ?v = "kmake_char 0x20 0"
  have v: "?v = 0x20" by (simp add: kmake_char_def)
  have m: "fold (\<lambda>i m. store16 m (cell_addr ?b i) ?v) clear_order (mem s) =
    (\<lambda>a. if within ?b 12800 a then if even (unat (a - ?b)) then 0x20 else 0 else mem s a)"
  proof
    fix a
    have "\<forall>i\<in>set clear_order. i < 2 ^ 30" by (simp add: set_clear_order)
    moreover have "unat (a - ?b) div 2 < 6400 \<longleftrightarrow> within ?b 12800 a"
      by (simp add: within_def word_less_nat_alt div_less_iff_less_mult)
    ultimately show "fold (\<lambda>i m. store16 m (cell_addr ?b i) ?v) clear_order (mem s) a =
      (if within ?b 12800 a then if even (unat (a - ?b)) then 0x20 else 0 else mem s a)"
      by (simp add: fold_store_cells set_clear_order v)
  qed
  then show ?thesis
    unfolding kclear_display_def fold_clear_all clear_order_def [symmetric] by (simp add: m)
qed

section \<open>Properties\<close>

text \<open>C29: printing a terminated string that does not itself lie in the text window returns its
  length, is the same as printing its characters one by one, leaves the cursor on the 80-column grid
  and changes nothing but the 40960 bytes of the window and the cursor.\<close>

theorem kputs_confined:
  assumes "cstr (mem s) str cs" and "outside_window s str (length cs)" and "cursor_x s < 80"
  shows "\<exists>s'. kputs s str = Some (of_nat (length cs), s')
    \<and> s' = fold (\<lambda>c s. kputchar s c) cs s \<and> cursor_x s' < 80
    \<and> s' = s\<lparr>mem := mem s', cursor_x := cursor_x s', cursor_y := cursor_y s'\<rparr>
    \<and> (\<forall>a. within (VGA_BASE s) 40960 a \<or> mem s' a = mem s a)"
  using kputs_loop_fold [of s str 0 cs] assms con_frame_puts [OF assms(3), of cs]
  by (auto simp: kputs_def con_frame_def)

text \<open>C28: a string of ordinary characters that fits in the rest of the row appears in the cells from
  the cursor on, white on black, every other cell keeps its content, and the cursor moves past it.\<close>

theorem kputs_row:
  assumes "cstr (mem s) str cs" and "outside_window s str (length cs)"
    and "8 \<notin> set cs" and "10 \<notin> set cs" and "unat (cursor_x s) + length cs < 80" and "j < 2 ^ 30"
  shows "\<exists>s'. kputs s str = Some (of_nat (length cs), s')
    \<and> cell s' j = (if cursor_cell s \<le> j \<and> j < cursor_cell s + length cs
         then kmake_char (cs ! (j - cursor_cell s)) 0xf else cell s j)
    \<and> cursor_cell s' = cursor_cell s + length cs"
proof -
  have x: "cursor_x s < 80" using assms(5) by (simp add: word_less_nat_alt)
  have "\<forall>c\<in>set cs. c \<noteq> 8 \<and> c \<noteq> 10" using assms(3,4) by auto
  from puts_row [OF this assms(5,6)] show ?thesis
    using kputs_loop_fold [of s str 0 cs] assms(1,2) x by (simp add: kputs_def)
qed

definition demo_vga :: vga where
  "demo_vga = \<lparr>mem = (\<lambda>a. if a = 0x500 then 0x48 else if a = 0x501 then 0x69 else 0),
     kheap = demo_empty, VGA_BASE = 0xB8000, cursor_x = 5, cursor_y = 1\<rparr>"

lemma demo_vga_string: "cstr (mem demo_vga) 0x500 [0x48, 0x69]"
  by (simp add: demo_vga_def)

lemma demo_vga_outside: "outside_window demo_vga 0x500 (length [0x48 :: u8, 0x69])"
  unfolding outside_window_def
proof (intro allI impI)
  fix i assume "i \<le> length [0x48 :: u8, 0x69]"
  then consider "i = 0" | "i = 1" | "i = 2" by fastforce
  then show "\<not> within (VGA_BASE demo_vga) 40960 (0x500 + of_nat i)"
    by cases (simp_all add: demo_vga_def within_def)
qed

theorem kputs_confined_witness:
  "\<exists>s'. kputs demo_vga 0x500 = Some (2, s') \<and> cursor_x s' < 80"
  using kputs_confined [OF demo_vga_string demo_vga_outside]
  by (auto simp: demo_vga_def)

theorem kputs_row_witness:
  "\<exists>s'. kputs demo_vga 0x500 = Some (2, s') \<and> cell s' 86 = kmake_char 0x69 0xf"
  using kputs_row [OF demo_vga_string demo_vga_outside, of 86]
  by (auto simp: cursor_cell_def demo_vga_def)

text \<open>For a cursor on the grid and not at the origin, backspace blanks exactly the cell before the
  cursor. It moves the cursor back by one only inside a row: from column 0 the blank wraps the cursor
  back down, and it ends in column 79 of the row it came from.\<close>

theorem kbackspace_erases:
  assumes "cursor_x s < 80" and "cursor_cell s \<noteq> 0" and "j < 2 ^ 30"
  shows "cell (kbackspace s) j = (if j = cursor_cell s - 1 then kmake_char 0x20 0xf else cell s j)
    \<and> cursor_cell (kbackspace s) =
       (if cursor_x s = 0 then cursor_cell s + 79 else cursor_cell s - 1)"
proof (cases "cursor_x s = 0")
  case True
  then have y: "cursor_y s \<noteq> 0" using assms(2) by (auto simp: cursor_cell_def)
  let ?s = "s\<lparr>cursor_x := 79, cursor_y := cursor_y s - 1\<rparr>"
  have u: "unat (cursor_y s) = Suc (unat (cursor_y s - 1))" by (rule unat_eq_Suc_pred [OF y])
  have b: "cursor_cell ?s = cursor_cell s - 1" using True u by (simp add: cursor_cell_def)
  have "cursor_y (kput_glyph ?s 0x20 0xf) = cursor_y s" by (simp add: glyph_last_column(2))
  then show ?thesis
    using cell_glyph [of ?s j "0x20" "0xf"] assms(3) b True
    by (simp add: kbackspace_column_0 [OF True y]) (simp add: cursor_cell_def)
next
  case False
  let ?s = "s\<lparr>cursor_x := cursor_x s - 1\<rparr>"
  have u: "unat (cursor_x s) = Suc (unat (cursor_x s - 1))" by (rule unat_eq_Suc_pred [OF False])
  then have x: "cursor_x s - 1 < 80" "unat (cursor_x ?s) < 79"
    using assms(1) by (simp_all add: word_less_nat_alt)
  have b: "cursor_cell ?s = cursor_cell s - 1" using u by (simp add: cursor_cell_def)
  have "cursor_y (kput_glyph ?s 0x20 0xf) = cursor_y s" by (simp add: glyph_cursor(2) [OF x(2)])
  then show ?thesis
    using cell_glyph [of ?s j "0x20" "0xf"] assms(3) b x(1) False
    by (simp add: kbackspace_inner [OF assms(1) False]) (simp add: cursor_cell_def)
qed

theorem kbackspace_erases_witness:
  "cell (kbackspace demo_vga) 84 = kmake_char 0x20 0xf \<and> cursor_cell (kbackspace demo_vga) = 84"
  using kbackspace_erases [of demo_vga 84] by (simp add: demo_vga_def cursor_cell_def)

text \<open>\<open>kprint_int\<close> puts the decimal numeral of the number: a minus sign for a negative one,
  then at most ten digits whose value is the magnitude, with no leading zero. The least \<open>int\<close>,
  whose negation is itself, comes out as a bare minus sign.\<close>

theorem kprint_int_decimal:
  "\<exists>cs. kprint_int s num = fold (\<lambda>c s. kputchar s c) ((if sint num < 0 then [0x2D] else []) @ cs) s
    \<and> (if num = 0x80000000 then cs = []
       else decimal_val cs = nat \<bar>sint num\<bar> \<and> list_all is_digit cs
         \<and> 0 < length cs \<and> length cs \<le> 10 \<and> (hd cs = 0x30) = (num = 0))"
proof -
  let ?print = "fold (\<lambda>c s. kputchar s c)"
  let ?n = "nat \<bar>sint num\<bar>"
  consider "num = 0" | "num = 0x80000000" | "num \<noteq> 0" "num \<noteq> 0x80000000" by blast
  then show ?thesis
  proof cases
    case 1
    then show ?thesis
      by (intro exI [of _ "[0x30]"]) (simp add: kprint_int_def decimal_val_def digit_val_def is_digit_def)
  next
    case 2
    then show ?thesis by (intro exI [of _ "[]"]) (simp add: kprint_int_def)
  next
    case 3
    have n: "0 < ?n" "?n < 10 ^ 10"
      using 3(1) sint_range32 [of num] by (simp_all add: signed_eq_0_iff)
    have m: "sint (- num) = - sint num" by (rule sint_uminus32 [OF 3(2)])
    have p: "kprint_int s num = ?print ((if sint num < 0 then [0x2D] else []) @ rev (int_buf ?n)) s"
      using 3(1) n(1) m by (auto simp: kprint_int_def Let_def)
    have hd: "hd (rev (int_buf ?n)) \<noteq> 0x30" "0 < length (int_buf ?n)"
      using last_int_buf [OF n(1)] by (simp_all add: hd_rev)
    show ?thesis
      using p hd length_int_buf [OF n(2)] is_digit_int_buf [of _ ?n] decimal_val_int_buf [of ?n] 3
      by (intro exI [of _ "rev (int_buf ?n)"]) (simp add: list_all_iff)
  qed
qed

end
