(* ===== verification/Machine.thy ===== *)
theory Machine
  imports Vga
begin

text \<open>
  The machine around the kernel: port I/O (\<^verbatim>\<open>io/io.s\<close>), the page-directory register, the
  data-segment registers, and the addresses of the local objects whose address the C code takes.
  The devices are not part of the program. They are the field \<open>device\<close>, a function from the
  whole history of port accesses (latest first) and a port to the value the next read returns; every
  statement that needs a device to behave says so in a hypothesis on this function.
\<close>

datatype io_event = Out8 u16 u8 | In8 u16 u8 | In16 u16 u16

text \<open>Objects with automatic storage whose address escapes. No function that holds one of them is
  active twice while it still needs it, so one address for each is enough.\<close>

datatype local_object =
    Temp_buffer
  | Temp_file
  | Fat16_entry
  | Temp_name
  | Elf_stat
  | Bin_stat
  | Arg_in_kernel_space
  | Filename_in_kernel

record mach = vga +
  device :: "io_event list \<Rightarrow> u16 \<Rightarrow> u32"
  io_log :: "io_event list"
  cr3 :: u32
  data_segment :: u32
  current_page_directory :: u32
  kernel_space :: u32
  local_addr :: "local_object \<Rightarrow> u32"

definition outb :: "'a mach_scheme \<Rightarrow> u16 \<Rightarrow> u8 \<Rightarrow> 'a mach_scheme" where
  "outb s port val = s\<lparr>io_log := Out8 port val # io_log s\<rparr>"

definition insb :: "'a mach_scheme \<Rightarrow> u16 \<Rightarrow> u8 \<times> 'a mach_scheme" where
  "insb s port = (let v = ucast (device s (io_log s) port) in (v, s\<lparr>io_log := In8 port v # io_log s\<rparr>))"

definition insw :: "'a mach_scheme \<Rightarrow> u16 \<Rightarrow> u16 \<times> 'a mach_scheme" where
  "insw s port = (let v = ucast (device s (io_log s) port) in (v, s\<lparr>io_log := In16 port v # io_log s\<rparr>))"

definition load_pd_to_cr3 :: "'a mach_scheme \<Rightarrow> u32 \<Rightarrow> 'a mach_scheme" where
  "load_pd_to_cr3 s pd_base = s\<lparr>cr3 := pd_base\<rparr>"

definition set_all_segments_to_user_data_segment :: "'a mach_scheme \<Rightarrow> 'a mach_scheme" where
  "set_all_segments_to_user_data_segment s = s\<lparr>data_segment := 0x23\<rparr>"

definition set_all_segments_to_kernel_data_segment :: "'a mach_scheme \<Rightarrow> 'a mach_scheme" where
  "set_all_segments_to_kernel_data_segment s = s\<lparr>data_segment := 0x10\<rparr>"

section \<open>What an operation leaves alone\<close>

text \<open>The drivers and the file system change memory, the blocks of the heap and the history of the
  ports, nothing else. \<open>rest s\<close> is the rest of the state, with the base and the size of the heap
  and every field an extension of the record adds.\<close>

definition rest :: "'a mach_scheme \<Rightarrow> 'a mach_scheme" where
  "rest s = s\<lparr>mem := (\<lambda>_. 0), kheap := (kheap s)\<lparr>entries := (\<lambda>_. 0)\<rparr>, io_log := []\<rparr>"

lemma rest_upd [simp]:
  "rest (s\<lparr>mem := m\<rparr>) = rest s" "rest (s\<lparr>io_log := l\<rparr>) = rest s"
  by (simp_all add: rest_def)

lemma rest_sel [simp]:
  "VGA_BASE (rest s) = VGA_BASE s" "cursor_x (rest s) = cursor_x s" "cursor_y (rest s) = cursor_y s"
  "device (rest s) = device s" "cr3 (rest s) = cr3 s" "data_segment (rest s) = data_segment s"
  "current_page_directory (rest s) = current_page_directory s" "kernel_space (rest s) = kernel_space s"
  "local_addr (rest s) = local_addr s" "mach.more (rest s) = mach.more s"
  "heap_base (kheap (rest s)) = heap_base (kheap s)" "num_entries (kheap (rest s)) = num_entries (kheap s)"
  by (simp_all add: rest_def)

text \<open>Two states with the same rest agree on every field a reader can ask for.\<close>

lemma rest_eqD:
  assumes "rest s' = rest s"
  shows "VGA_BASE s' = VGA_BASE s" "cursor_x s' = cursor_x s" "cursor_y s' = cursor_y s"
    "device s' = device s" "cr3 s' = cr3 s" "data_segment s' = data_segment s"
    "current_page_directory s' = current_page_directory s" "kernel_space s' = kernel_space s"
    "local_addr s' = local_addr s" "mach.more s' = mach.more s"
    "heap_base (kheap s') = heap_base (kheap s)" "num_entries (kheap s') = num_entries (kheap s)"
  using assms rest_sel [of s] rest_sel [of s'] by auto

text \<open>Of a state bound by a \<open>let\<close> only its rest matters here.\<close>

lemma let_restE:
  fixes x :: "'a mach_scheme"
  assumes "Let x f = y"
  obtains z where "rest z = rest x" and "f z = y"
  using assms by simp

lemma letE:
  assumes "Let x f = y"
  obtains z where "f z = y"
  using assms by simp

lemma rest_outb [simp]: "rest (outb s p v) = rest s"
  by (simp add: outb_def)

lemma ins_rest [rest_rules]:
  "insb s p = (v, s') \<Longrightarrow> rest s' = rest s" "insw s p = (w, s') \<Longrightarrow> rest s' = rest s"
  by (auto simp: insb_def insw_def Let_def)

lemma rest_kheap:
  "h\<lparr>entries := (\<lambda>_. 0)\<rparr> = (kheap s)\<lparr>entries := (\<lambda>_. 0)\<rparr> \<Longrightarrow> rest (s\<lparr>kheap := h\<rparr>) = rest s"
  by (simp add: rest_def)

lemma rest_kfree [simp]: "rest (kfree s a) = rest s"
  unfolding kfree_def by (rule rest_kheap) (simp add: free_eq)

lemma kzalloc_rest [rest_rules]:
  assumes "kzalloc s n = Some (a, s')"
  shows "rest s' = rest s"
proof -
  have "rest (s\<lparr>kheap := kheap s'\<rparr>) = rest s"
    by (rule rest_kheap) (rule malloc_geometry [OF kzalloc_kheap [OF assms]])
  then show ?thesis
    using assms by (elim kzalloc_SomeE) (auto simp: rest_def split: if_splits)
qed

section \<open>Ranges that do not meet\<close>

definition apart :: "u32 \<Rightarrow> u32 \<Rightarrow> u32 \<Rightarrow> u32 \<Rightarrow> bool" where
  "apart a n b k \<longleftrightarrow> (\<forall>x. within a n x \<longrightarrow> \<not> within b k x)"

lemma apartD: "apart a n b k \<Longrightarrow> within a n x \<Longrightarrow> \<not> within b k x"
  by (simp add: apart_def)

lemma apartD': "apart a n b k \<Longrightarrow> within b k x \<Longrightarrow> \<not> within a n x"
  by (auto simp: apart_def)

lemma apart_sym: "apart a n b k \<longleftrightarrow> apart b k a n"
  by (auto simp: apart_def)

text \<open>A tail of a range lies inside the range.\<close>

lemma within_tail:
  assumes "k \<le> n" and "within (a + k) (n - k) x"
  shows "within a n x"
proof -
  have "unat (x - a) = unat ((x - (a + k)) + k)" by (simp add: algebra_simps)
  also have "\<dots> = (unat (x - (a + k)) + unat k) mod 2 ^ 32"
    using unat_word_ariths(1) [of "x - (a + k)" k] by simp
  finally have u: "unat (x - a) = (unat (x - (a + k)) + unat k) mod 2 ^ 32" .
  have "unat (x - (a + k)) < unat n - unat k"
    using assms by (simp add: within_def word_less_nat_alt unat_sub)
  then have l: "unat (x - (a + k)) + unat k < unat n" by simp
  also have "unat n < 2 ^ 32" using unsigned_less [of n, where ?'a = nat] by simp
  finally show ?thesis using u l by (simp add: within_def word_less_nat_alt)
qed

lemma within_head:
  assumes "k \<le> n" and "within a k x"
  shows "within a n x"
  using assms unfolding within_def by (rule order.strict_trans2 [rotated])

lemma within_split:
  assumes "k \<le> n"
  shows "within a n x \<longleftrightarrow> within a k x \<or> within (a + k) (n - k) x"
proof
  assume w: "within a n x"
  show "within a k x \<or> within (a + k) (n - k) x"
  proof (cases "x - a < k")
    case True
    then show ?thesis by (simp add: within_def)
  next
    case False
    have d: "x - (a + k) = (x - a) - k" by (simp add: algebra_simps)
    have "unat (x - (a + k)) = unat (x - a) - unat k"
      unfolding d using False by (intro unat_sub) (simp add: not_less)
    moreover have "unat (x - a) < unat n" using w by (simp add: within_def word_less_nat_alt)
    moreover have "unat (n - k) = unat n - unat k" using assms by (rule unat_sub)
    moreover have "unat k \<le> unat (x - a)" using False by (simp add: word_less_nat_alt)
    ultimately show ?thesis by (simp add: within_def word_less_nat_alt)
  qed
qed (use assms within_tail within_head in blast)

section \<open>A small machine\<close>

text \<open>A concrete state for the examples: zero memory, a heap of eight free blocks, silent devices.\<close>

definition demo_mach :: mach where
  "demo_mach = \<lparr>mem = (\<lambda>x. 0), kheap = demo_empty, VGA_BASE = 0xB8000, cursor_x = 0, cursor_y = 0,
     device = (\<lambda>h p. 0), io_log = [], cr3 = 0, data_segment = 0x10,
     current_page_directory = 0, kernel_space = 0,
     local_addr = (\<lambda>l. case l of Temp_buffer \<Rightarrow> 0x1FF000 | _ \<Rightarrow> 0x1FE000)\<rparr>"

end
