(* ===== verification/Disk.thy ===== *)
theory Disk
  imports Machine
begin

text \<open>
  The disk driver of \<^verbatim>\<open>drivers/disk/disk.c\<close>: sector reads over the ATA ports and the
  streams, which turn them into reads of any range of bytes of the disk. A stream is a
  \<open>struct disk_stream\<close> in memory, one 32-bit position.
\<close>

section \<open>Operations\<close>

abbreviation (input) SECTOR_SIZE_IN_BYTES :: u32 where "SECTOR_SIZE_IN_BYTES \<equiv> 512"
abbreviation (input) READ_SECTORS_WITH_RETRY :: u8 where "READ_SECTORS_WITH_RETRY \<equiv> 0x20"
abbreviation (input) SECTOR_BUFFER_REQUIRES_SERVICING :: u8 where
  "SECTOR_BUFFER_REQUIRES_SERVICING \<equiv> 8"

definition streamer_pos :: "memory \<Rightarrow> u32 \<Rightarrow> u32" where
  "streamer_pos m streamer = load32 m streamer"

definition set_streamer_pos :: "u32 \<Rightarrow> u32 \<Rightarrow> 'a mach_scheme \<Rightarrow> 'a mach_scheme" where
  "set_streamer_pos streamer position s = s\<lparr>mem := store32 (mem s) streamer position\<rparr>"

definition disk_stream_new :: "'a mach_scheme \<Rightarrow> (u32 \<times> 'a mach_scheme) option" where
  "disk_stream_new s =
     (case kzalloc s 4 of
        None \<Rightarrow> None
      | Some (streamer, s) \<Rightarrow> Some (streamer, set_streamer_pos streamer 0 s))"

definition disk_stream_init :: "'a mach_scheme \<Rightarrow> u32 \<Rightarrow> u32 \<Rightarrow> u32 \<times> 'a mach_scheme" where
  "disk_stream_init s streamer position = (streamer, set_streamer_pos streamer position s)"

definition disk_stream_seek :: "'a mach_scheme \<Rightarrow> u32 \<Rightarrow> u32 \<Rightarrow> 'a mach_scheme" where
  "disk_stream_seek s streamer position = set_streamer_pos streamer position s"

definition disk_stream_close :: "'a mach_scheme \<Rightarrow> u32 \<Rightarrow> 'a mach_scheme" where
  "disk_stream_close s streamer = kfree s streamer"

text \<open>The busy wait ends only if the drive asks to be serviced.\<close>

partial_function (option) ata_wait :: "'a mach_scheme \<Rightarrow> 'a mach_scheme option" where
  "ata_wait s =
     (let (status, s) = insb s 0x1F7
      in if status AND SECTOR_BUFFER_REQUIRES_SERVICING = 0 then ata_wait s else Some s)"

fun ata_read_words :: "nat \<Rightarrow> u32 \<Rightarrow> 'a mach_scheme \<Rightarrow> u32 \<times> 'a mach_scheme" where
  "ata_read_words 0 read_ptr s = (read_ptr, s)"
| "ata_read_words (Suc n) read_ptr s =
     (let (w, s) = insw s 0x1F0
      in ata_read_words n (read_ptr + 2) (s\<lparr>mem := store16 (mem s) read_ptr w\<rparr>))"

function ata_sector_loop ::
    "u32 \<Rightarrow> u32 \<Rightarrow> u32 \<Rightarrow> 'a mach_scheme \<Rightarrow> 'a mach_scheme option" where
  "ata_sector_loop sector sector_count read_ptr s =
     (if sector < sector_count then
        case ata_wait s of
          None \<Rightarrow> None
        | Some s \<Rightarrow>
            let (read_ptr, s) = ata_read_words 256 read_ptr s
            in ata_sector_loop (sector + 1) sector_count read_ptr s
      else Some s)"
  by pat_completeness auto
termination
  by (relation "measure (\<lambda>(sector, n, p, s). unat n - unat sector)") (auto simp: unat_loop_dec)

declare ata_sector_loop.simps [simp del, loop_simps]

definition ata_issue :: "'a mach_scheme \<Rightarrow> u32 \<Rightarrow> u32 \<Rightarrow> 'a mach_scheme" where
  "ata_issue s lba sector_count =
     (let s = outb s 0x1F6 (ucast (drop_bit 24 lba OR 0xE0));
          s = outb s 0x1F2 (ucast sector_count);
          s = outb s 0x1F3 (ucast (ucast (lba AND 0xff) :: u16));
          s = outb s 0x1F4 (ucast (ucast (drop_bit 8 lba) :: u16));
          s = outb s 0x1F5 (ucast (ucast (drop_bit 16 lba) :: u16))
      in outb s 0x1F7 READ_SECTORS_WITH_RETRY)"

definition ata_lba_read_sector ::
    "'a mach_scheme \<Rightarrow> u32 \<Rightarrow> u32 \<Rightarrow> u32 \<Rightarrow> 'a mach_scheme option" where
  "ata_lba_read_sector s lba sector_count read_buffer =
     ata_sector_loop 0 sector_count read_buffer (ata_issue s lba sector_count)"

text \<open>The copy out of the sector buffer.\<close>

function copy_loop :: "memory \<Rightarrow> u32 \<Rightarrow> u32 \<Rightarrow> u32 \<Rightarrow> u32 \<Rightarrow> memory" where
  "copy_loop m src read_buffer index bytes_to_read =
     (if index < bytes_to_read
      then copy_loop (m(read_buffer := m (src + index))) src (read_buffer + 1) (index + 1) bytes_to_read
      else m)"
  by pat_completeness auto
termination
  by (relation "measure (\<lambda>(m, src, b, i, n). unat n - unat i)") (auto simp: unat_loop_dec)

declare copy_loop.simps [simp del, loop_simps]

lemma stream_overflow_less:
  fixes off n :: u32
  assumes "512 \<le> off + n" and "off < 512"
  shows "unat (off + n - 512) < unat n" and "unat off + unat n < 2 ^ 32"
    and "unat (off + n - 512) = unat off + unat n - 512"
proof -
  have o: "unat off < 512" using assms(2) by (simp add: word_less_nat_alt)
  have s: "unat (off + n) = (unat off + unat n) mod 2 ^ 32"
    using unat_word_ariths(1) [of off n] by simp
  have n: "unat n < 2 ^ 32" using unsigned_less [of n, where ?'a = nat] by simp
  have ge: "512 \<le> unat (off + n)" using assms(1) by (simp add: word_le_nat_alt)
  show lt: "unat off + unat n < 2 ^ 32"
  proof (rule ccontr)
    assume "\<not> ?thesis"
    then have "(unat off + unat n) mod 2 ^ 32 = unat off + unat n - 2 ^ 32"
      using o n by (simp add: mod_if)
    then show False using s ge o n by linarith
  qed
  then have e: "unat (off + n) = unat off + unat n" using s by simp
  show d: "unat (off + n - 512) = unat off + unat n - 512"
    using assms(1) e by (subst unat_sub) simp_all
  show "unat (off + n - 512) < unat n" using d ge e o by simp
qed

text \<open>One sector at a time: what the current sector does not hold is read by the recursive call, from
  the position where the first part ended.\<close>

function disk_stream_read ::
    "'a mach_scheme \<Rightarrow> u32 \<Rightarrow> u32 \<Rightarrow> u32 \<Rightarrow> 'a mach_scheme option" where
  "disk_stream_read s streamer read_buffer n =
     (let sector = streamer_pos (mem s) streamer div SECTOR_SIZE_IN_BYTES;
          sector_offset = streamer_pos (mem s) streamer mod SECTOR_SIZE_IN_BYTES;
          is_overflowing = SECTOR_SIZE_IN_BYTES \<le> sector_offset + n;
          temp_buffer = local_addr s Temp_buffer;
          bytes_to_read =
            (if is_overflowing then n - (sector_offset + n - SECTOR_SIZE_IN_BYTES) else n)
      in case ata_lba_read_sector s sector 1 temp_buffer of
           None \<Rightarrow> None
         | Some s \<Rightarrow>
             let s = s\<lparr>mem := copy_loop (mem s) (temp_buffer + sector_offset) read_buffer 0 bytes_to_read\<rparr>;
                 s = set_streamer_pos streamer (streamer_pos (mem s) streamer + bytes_to_read) s
             in if is_overflowing
                then disk_stream_read s streamer (read_buffer + bytes_to_read) (n - bytes_to_read)
                else Some s)"
  by pat_completeness auto
termination
proof (relation "measure (\<lambda>(s, streamer, b, n). unat n)")
  fix s :: "'a mach_scheme" and streamer read_buffer n off bytes :: u32 and s1 s2 :: "'a mach_scheme"
    and sector :: u32 and over tb
  assume off: "off = streamer_pos (mem s) streamer mod 512" and over: "over = (512 \<le> off + n)"
    and bytes: "bytes = (if over then n - (off + n - 512) else n)" and o: over
  have "off < 512" unfolding off by (rule word_mod_less_divisor) simp
  moreover have e: "n - bytes = off + n - 512" using o bytes by simp
  ultimately have "unat (n - bytes) < unat n"
    unfolding e using stream_overflow_less(1) [of off n] over o by blast
  then show "((s2, streamer, read_buffer + bytes, n - bytes), s, streamer, read_buffer, n)
      \<in> measure (\<lambda>(s, streamer, b, n). unat n)" by simp
qed simp

declare disk_stream_read.simps [simp del, loop_simps]

section \<open>Frames\<close>

lemma rest_set_streamer_pos [simp]: "rest (set_streamer_pos a p s) = rest s"
  by (simp add: set_streamer_pos_def)

lemma disk_stream_rest [simp]:
  "rest (disk_stream_seek s a p) = rest s" "rest (disk_stream_close s a) = rest s"
  by (simp_all add: disk_stream_seek_def disk_stream_close_def)

lemma disk_stream_new_rest [rest_rules]: "disk_stream_new s = Some (a, s') \<Longrightarrow> rest s' = rest s"
  by (auto simp: disk_stream_new_def dest: kzalloc_rest split: option.splits)

lemma ata_wait_rest [rest_rules]:
  assumes "ata_wait s = Some s'"
  shows "rest s' = rest s"
  by (rule ata_wait.raw_induct [OF _ assms])
    (force simp: Let_def dest: ins_rest split: prod.splits if_splits)

lemma ata_read_words_rest: "rest (snd (ata_read_words n p s)) = rest s"
  by (induction n arbitrary: p s) (auto simp: Let_def dest: ins_rest split: prod.splits)

lemma ata_sector_loop_rest [rest_rules]: "ata_sector_loop i n p s = Some s' \<Longrightarrow> rest s' = rest s"
proof (induction i n p s rule: ata_sector_loop.induct)
  case (1 i n p s)
  show ?case
  proof (cases "i < n")
    case True
    then obtain t where t: "ata_wait s = Some t"
      using 1 by (auto simp: ata_sector_loop.simps [of i n p s] split: option.splits)
    obtain q u where q: "ata_read_words 256 p t = (q, u)" by (cases "ata_read_words 256 p t")
    have "ata_sector_loop (i + 1) n q u = Some s'"
      using 1(2) True t q by (subst (asm) ata_sector_loop.simps) simp
    from 1(1) [OF True t q [symmetric] refl this] have "rest s' = rest u" .
    then show ?thesis using ata_read_words_rest [of 256 p t] q ata_wait_rest [OF t] by simp
  qed (use 1 in \<open>simp add: ata_sector_loop.simps [of i n p s]\<close>)
qed

lemma ata_lba_read_sector_rest [rest_rules]: "ata_lba_read_sector s l n p = Some s' \<Longrightarrow> rest s' = rest s"
  by (auto simp: ata_lba_read_sector_def ata_issue_def Let_def dest: ata_sector_loop_rest)

lemma disk_stream_read_rest [rest_rules]: "disk_stream_read s a b n = Some s' \<Longrightarrow> rest s' = rest s"
proof (induction s a b n rule: disk_stream_read.induct)
  case (1 s a b n)
  obtain t where t: "ata_lba_read_sector s (streamer_pos (mem s) a div 512) 1 (local_addr s Temp_buffer) = Some t"
    using 1(2) by (subst (asm) disk_stream_read.simps) (auto simp: Let_def split: option.splits)
  note ih = 1(1) [OF refl refl refl refl refl t refl refl]
  show ?case
  proof (cases "512 \<le> streamer_pos (mem s) a mod 512 + n")
    case True
    from ih [OF True] 1(2) True t show ?thesis
      by (subst (asm) (2) disk_stream_read.simps) (simp add: Let_def ata_lba_read_sector_rest [OF t])
  next
    case False
    then show ?thesis using 1(2) t
      by (subst (asm) disk_stream_read.simps) (auto simp: Let_def ata_lba_read_sector_rest [OF t])
  qed
qed

section \<open>The drive\<close>

text \<open>What a history of port accesses leaves pending: the block address of the last one-sector read
  command, whether a status read has since shown the data request bit, and how many words have been
  taken. Any other use of the ports leaves nothing pending.\<close>

fun last_out :: "u16 \<Rightarrow> io_event list \<Rightarrow> u8" where
  "last_out p [] = 0"
| "last_out p (Out8 q v # h) = (if q = p then v else last_out p h)"
| "last_out p (In8 q v # h) = last_out p h"
| "last_out p (In16 q v # h) = last_out p h"

definition lba_registers :: "io_event list \<Rightarrow> u32" where
  "lba_registers h = ucast (last_out 0x1F3 h) OR push_bit 8 (ucast (last_out 0x1F4 h))
     OR push_bit 16 (ucast (last_out 0x1F5 h)) OR push_bit 24 (ucast (last_out 0x1F6 h AND 0x0F))"

fun ata_phase :: "io_event list \<Rightarrow> (u32 \<times> bool \<times> nat) option" where
  "ata_phase [] = None"
| "ata_phase (Out8 p v # h) =
     (if p = 0x1F7 \<and> v = 0x20 \<and> last_out 0x1F2 h = 1 then Some (lba_registers h, False, 0) else None)"
| "ata_phase (In8 p v # h) =
     (if p = 0x1F7 \<and> v AND 8 \<noteq> 0 then map_option (\<lambda>(lba, _, k). (lba, True, k)) (ata_phase h)
      else ata_phase h)"
| "ata_phase (In16 p v # h) =
     (if p = 0x1F0 then map_option (\<lambda>(lba, r, k). (lba, r, Suc k)) (ata_phase h) else ata_phase h)"

fun polls :: "(io_event list \<Rightarrow> u16 \<Rightarrow> u32) \<Rightarrow> nat \<Rightarrow> io_event list \<Rightarrow> io_event list" where
  "polls dev 0 h = h"
| "polls dev (Suc n) h = polls dev n (In8 0x1F7 (ucast (dev h 0x1F7)) # h)"

text \<open>The documented behaviour of a drive with the given contents: after a command it asks for service
  within finitely many status reads, and then the data port delivers the words of the sector.\<close>

definition ata_serves :: "(io_event list \<Rightarrow> u16 \<Rightarrow> u32) \<Rightarrow> (u32 \<Rightarrow> u8) \<Rightarrow> nat \<Rightarrow> bool" where
  "ata_serves dev img sectors \<longleftrightarrow>
     (\<forall>h lba. ata_phase h = Some (lba, False, 0) \<and> unat lba < sectors \<longrightarrow>
        (\<exists>n. (ucast (dev (polls dev n h) 0x1F7) :: u8) AND 8 \<noteq> 0))
   \<and> (\<forall>h lba k. ata_phase h = Some (lba, True, k) \<and> k < 256 \<and> unat lba < sectors \<longrightarrow>
        (ucast (dev h 0x1F0) :: u16) = ucast (img (lba * 512 + of_nat (2 * k)))
          OR push_bit 8 (ucast (img (lba * 512 + of_nat (2 * k) + 1))))"

lemma ata_wait_polls:
  assumes "\<And>m. m < n \<Longrightarrow> (ucast (device s (polls (device s) m (io_log s)) 0x1F7) :: u8) AND 8 = 0"
    and "(ucast (device s (polls (device s) n (io_log s)) 0x1F7) :: u8) AND 8 \<noteq> 0"
    and "ata_phase (io_log s) = Some (lba, False, 0)"
  shows "\<exists>h. ata_wait s = Some (s\<lparr>io_log := h\<rparr>) \<and> ata_phase h = Some (lba, True, 0)"
  using assms
proof (induction n arbitrary: s)
  case 0
  then show ?case
    by (intro exI [of _ "In8 0x1F7 (ucast (device s (io_log s) 0x1F7)) # io_log s"])
      (subst ata_wait.simps, simp add: insb_def Let_def)
next
  case (Suc n)
  let ?s = "s\<lparr>io_log := In8 0x1F7 (ucast (device s (io_log s) 0x1F7)) # io_log s\<rparr>"
  have z: "(ucast (device s (io_log s) 0x1F7) :: u8) AND 8 = 0" using Suc.prems(1) [of 0] by simp
  then have w: "ata_wait s = ata_wait ?s" by (subst ata_wait.simps) (simp add: insb_def Let_def)
  have "\<exists>h. ata_wait ?s = Some (?s\<lparr>io_log := h\<rparr>) \<and> ata_phase h = Some (lba, True, 0)"
  proof (rule Suc.IH)
    fix m assume "m < n"
    then show "(ucast (device ?s (polls (device ?s) m (io_log ?s)) 0x1F7) :: u8) AND 8 = 0"
      using Suc.prems(1) [of "Suc m"] by simp
  qed (use Suc.prems(2,3) z in simp_all)
  then show ?case unfolding w by simp
qed

text \<open>The wait as a function of the answers of the drive alone.\<close>

definition drive_requests :: "'a mach_scheme \<Rightarrow> nat \<Rightarrow> bool" where
  "drive_requests s n \<longleftrightarrow> (ucast (device s (polls (device s) n (io_log s)) 0x1F7) :: u8) AND 8 \<noteq> 0"

lemma drive_requests_poll:
  "drive_requests (s\<lparr>io_log := In8 0x1F7 (ucast (device s (io_log s) 0x1F7)) # io_log s\<rparr>) n
     \<longleftrightarrow> drive_requests s (Suc n)"
  by (simp add: drive_requests_def)

lemma ata_wait_unfold:
  "ata_wait s = (let t = s\<lparr>io_log := In8 0x1F7 (ucast (device s (io_log s) 0x1F7)) # io_log s\<rparr>
     in if drive_requests s 0 then Some t else ata_wait t)"
  by (subst ata_wait.simps) (simp add: insb_def drive_requests_def Let_def)

lemma ata_wait_returns:
  assumes "drive_requests s n"
  shows "\<exists>s'. ata_wait s = Some s'"
  using assms
proof (induction n arbitrary: s)
  case 0
  then show ?case by (subst ata_wait_unfold) (simp add: Let_def)
next
  case (Suc n)
  from Suc.IH [OF Suc.prems [folded drive_requests_poll]] show ?case
    by (subst ata_wait_unfold) (simp add: Let_def)
qed

lemma ata_wait_requested:
  assumes "ata_wait s = Some s'"
  shows "\<exists>n. drive_requests s n"
proof (rule ata_wait.raw_induct [OF _ assms])
  fix w and s s' :: "'a mach_scheme"
  let ?t = "s\<lparr>io_log := In8 0x1F7 (ucast (device s (io_log s) 0x1F7)) # io_log s\<rparr>"
  assume ih: "\<And>s s'. w s = Some s' \<Longrightarrow> \<exists>n. drive_requests s n"
    and w: "(let (status, s) = insb s 0x1F7
      in if status AND SECTOR_BUFFER_REQUIRES_SERVICING = 0 then w s else Some s) = Some s'"
  show "\<exists>n. drive_requests s n"
  proof (cases "drive_requests s 0")
    case False
    then have "w ?t = Some s'" using w by (simp add: insb_def Let_def drive_requests_def)
    from ih [OF this] obtain n where "drive_requests ?t n" ..
    then show ?thesis unfolding drive_requests_poll by blast
  qed blast
qed

lemma ata_wait_serves:
  assumes "ata_serves (device s) img sectors" and "ata_phase (io_log s) = Some (lba, False, 0)"
    and "unat lba < sectors"
  shows "\<exists>h. ata_wait s = Some (s\<lparr>io_log := h\<rparr>) \<and> ata_phase h = Some (lba, True, 0)"
proof -
  let ?P = "\<lambda>n. (ucast (device s (polls (device s) n (io_log s)) 0x1F7) :: u8) AND 8 \<noteq> 0"
  have ex: "\<exists>n. ?P n" using assms by (simp add: ata_serves_def)
  show ?thesis
  proof (rule ata_wait_polls [OF _ LeastI_ex [OF ex] assms(2)])
    fix m assume "m < (LEAST n. ?P n)"
    then show "(ucast (device s (polls (device s) m (io_log s)) 0x1F7) :: u8) AND 8 = 0"
      using not_less_Least [of m ?P] by blast
  qed
qed

lemma u16_bytes:
  "(ucast (ucast x OR push_bit 8 (ucast y) :: u16) :: u8) = x"
  "(ucast (drop_bit 8 (ucast x OR push_bit 8 (ucast y) :: u16)) :: u8) = y" for x y :: u8
  by (rule bit_word_eqI; auto simp: bit_simps dest: bit_imp_le_length)+

lemma ata_read_words_serves:
  assumes "ata_serves (device s) img sectors" and "ata_phase (io_log s) = Some (lba, True, k)"
    and "unat lba < sectors" and "k + n \<le> 256"
  shows "\<exists>h. ata_read_words n p s = (p + of_nat (2 * n), s\<lparr>io_log := h,
      mem := \<lambda>x. if within p (of_nat (2 * n)) x then img (lba * 512 + of_nat (2 * k) + (x - p))
                 else mem s x\<rparr>)
    \<and> ata_phase h = Some (lba, True, k + n)"
  using assms
proof (induction n arbitrary: s p k)
  case 0
  then show ?case by (intro exI [of _ "io_log s"]) (simp add: within_def)
next
  case (Suc n)
  let ?a = "lba * 512 + of_nat (2 * k) :: u32"
  define w where "w = (ucast (device s (io_log s) 0x1F0) :: u16)"
  have "w = ucast (img ?a) OR push_bit 8 (ucast (img (?a + 1)))"
    unfolding w_def using Suc.prems by (simp add: ata_serves_def)
  then have b: "ucast w = img ?a" "ucast (drop_bit 8 w) = img (?a + 1)" by (simp_all only: u16_bytes)
  let ?m = "(mem s)(p := img ?a, p + 1 := img (?a + 1))"
  let ?s = "s\<lparr>io_log := In16 0x1F0 w # io_log s, mem := ?m\<rparr>"
  have step: "ata_read_words (Suc n) p s = ata_read_words n (p + 2) ?s"
    by (simp add: insw_def w_def [symmetric] store16_def b Let_def)
  have "\<exists>h. ata_read_words n (p + 2) ?s = (p + 2 + of_nat (2 * n), ?s\<lparr>io_log := h,
      mem := \<lambda>x. if within (p + 2) (of_nat (2 * n)) x
                 then img (lba * 512 + of_nat (2 * Suc k) + (x - (p + 2))) else mem ?s x\<rparr>)
    \<and> ata_phase h = Some (lba, True, Suc k + n)"
    by (rule Suc.IH) (use Suc.prems in simp_all)
  then obtain h where h: "ata_read_words n (p + 2) ?s = (p + 2 + of_nat (2 * n), ?s\<lparr>io_log := h,
      mem := \<lambda>x. if within (p + 2) (of_nat (2 * n)) x
                 then img (lba * 512 + of_nat (2 * Suc k) + (x - (p + 2))) else mem ?s x\<rparr>)"
    "ata_phase h = Some (lba, True, Suc k + n)" by blast
  have eq: "(\<lambda>x. if within (p + 2) (of_nat (2 * n)) x
             then img (lba * 512 + of_nat (2 * Suc k) + (x - (p + 2))) else mem ?s x)
      = (\<lambda>x. if within p (of_nat (2 * Suc n)) x then img (?a + (x - p)) else mem s x)"
  proof
    fix x
    have two: "(2 :: u32) \<le> of_nat (2 * Suc n)"
    proof -
      have "unat (of_nat (2 * Suc n) :: u32) = 2 * Suc n"
        using Suc.prems(4) by (intro unat_of_nat_less) simp
      then show ?thesis by (simp only: word_le_nat_alt) simp
    qed
    have "within p (of_nat (2 * Suc n)) x \<longleftrightarrow>
        within p 2 x \<or> within (p + 2) (of_nat (2 * Suc n) - 2) x" by (rule within_split [OF two])
    also have "(of_nat (2 * Suc n) - 2 :: u32) = of_nat (2 * n)" by simp
    finally have sp: "within p (of_nat (2 * Suc n)) x \<longleftrightarrow>
        within p 2 x \<or> within (p + 2) (of_nat (2 * n)) x" .
    have p2: "within p 2 x \<longleftrightarrow> x = p \<or> x = p + 1"
    proof -
      have "x - p < 2 \<longleftrightarrow> x - p = 0 \<or> x - p = 1"
        by (simp add: word_less_nat_alt word_unat_eq_iff) arith
      then show ?thesis by (auto simp: within_def algebra_simps)
    qed
    have "of_nat (2 * Suc k) + (x - (p + 2)) = (of_nat (2 * k) + (x - p) :: u32)" by simp
    then have e: "img (lba * 512 + of_nat (2 * Suc k) + (x - (p + 2))) = img (?a + (x - p))"
      by (simp only: add.assoc)
    show "(if within (p + 2) (of_nat (2 * n)) x
             then img (lba * 512 + of_nat (2 * Suc k) + (x - (p + 2))) else mem ?s x)
      = (if within p (of_nat (2 * Suc n)) x then img (?a + (x - p)) else mem s x)"
      unfolding e sp p2 by auto
  qed
  show ?case unfolding step h(1) eq using h(2) by (intro exI [of _ h]) simp
qed

section \<open>Reading a sector\<close>

lemma lba_bytes:
  fixes lba :: u32
  assumes "unat lba < 2 ^ 28"
  shows "ucast (ucast (ucast (lba AND 0xff) :: u16) :: u8)
     OR push_bit 8 (ucast (ucast (ucast (drop_bit 8 lba) :: u16) :: u8))
     OR push_bit 16 (ucast (ucast (ucast (drop_bit 16 lba) :: u16) :: u8))
     OR push_bit 24 (ucast ((ucast (drop_bit 24 lba OR 0xE0) :: u8) AND 0x0F)) = lba"
proof -
  have "take_bit 28 (unat lba) = unat lba" using assms by (rule take_bit_nat_eq_self)
  then have hi: "\<not> bit lba n" if "28 \<le> n" for n
    using that bit_take_bit_iff [of 28 "unat lba" n] by (simp add: bit_unsigned_iff)
  have m: "bit (0xFF :: int) i \<longleftrightarrow> i < 8" "bit (0x0F :: int) i \<longleftrightarrow> i < 4" for i
  proof -
    have e: "(0xFF :: int) = mask 8" "(0x0F :: int) = mask 4" by (simp_all add: mask_eq_exp_minus_1)
    show "bit (0xFF :: int) i \<longleftrightarrow> i < 8" "bit (0x0F :: int) i \<longleftrightarrow> i < 4"
      unfolding e by (simp_all only: bit_mask_iff possible_bit_def) simp_all
  qed
  have n4: "((ucast (x OR 0xE0) :: u8) AND 0x0F) = ucast x AND 0x0F" for x :: u32
  proof (rule bit_word_eqI)
    have e: "(0xE0 :: int) = push_bit 5 7" by simp
    have "\<not> bit (0xE0 :: int) i" if "i < 4" for i
      unfolding e using that by (simp only: bit_push_bit_iff) simp
    then show "bit ((ucast (x OR 0xE0) :: u8) AND 0x0F) i = bit (ucast x AND 0x0F :: u8) i" for i
      by (auto simp: bit_simps m)
  qed
  show ?thesis
  proof (rule bit_word_eqI)
    fix n assume "n < LENGTH(32)"
    then consider "n < 8" | "8 \<le> n" "n < 16" | "16 \<le> n" "n < 24" | "24 \<le> n" "n < 28" | "28 \<le> n" "n < 32"
      by fastforce
    then show "bit (ucast (ucast (ucast (lba AND 0xff) :: u16) :: u8)
     OR push_bit 8 (ucast (ucast (ucast (drop_bit 8 lba) :: u16) :: u8))
     OR push_bit 16 (ucast (ucast (ucast (drop_bit 16 lba) :: u16) :: u8))
     OR push_bit 24 (ucast ((ucast (drop_bit 24 lba OR 0xE0) :: u8) AND 0x0F)) :: u32) n = bit lba n"
      unfolding n4 by cases (auto simp: bit_simps m hi)
  qed
qed

lemma ata_issue_phase:
  assumes "unat lba < 2 ^ 28"
  shows "\<exists>h. ata_issue s lba 1 = s\<lparr>io_log := h\<rparr> \<and> ata_phase h = Some (lba, False, 0)"
proof -
  have "ata_phase (io_log (ata_issue s lba 1)) = Some (lba, False, 0)"
    by (simp add: ata_issue_def outb_def lba_registers_def lba_bytes [OF assms, simplified] Let_def)
  moreover have "ata_issue s lba 1 = s\<lparr>io_log := io_log (ata_issue s lba 1)\<rparr>"
    by (simp add: ata_issue_def outb_def Let_def)
  ultimately show ?thesis by blast
qed

lemma ata_lba_read_sector_serves:
  assumes "ata_serves (device s) img sectors" and "unat lba < sectors" and "unat lba < 2 ^ 28"
  shows "\<exists>h. ata_lba_read_sector s lba 1 p = Some (s\<lparr>io_log := h,
      mem := \<lambda>x. if within p 512 x then img (lba * 512 + (x - p)) else mem s x\<rparr>)"
proof -
  obtain h1 where h1: "ata_issue s lba 1 = s\<lparr>io_log := h1\<rparr>" "ata_phase h1 = Some (lba, False, 0)"
    using ata_issue_phase [OF assms(3)] by blast
  have "\<exists>h. ata_wait (s\<lparr>io_log := h1\<rparr>) = Some (s\<lparr>io_log := h1\<rparr>\<lparr>io_log := h\<rparr>)
      \<and> ata_phase h = Some (lba, True, 0)"
    by (rule ata_wait_serves [OF _ _ assms(2), of _ img]) (use assms(1) h1(2) in simp_all)
  then obtain h2 where h2: "ata_wait (s\<lparr>io_log := h1\<rparr>) = Some (s\<lparr>io_log := h2\<rparr>)"
    "ata_phase h2 = Some (lba, True, 0)" by auto
  have "\<exists>h. ata_read_words 256 p (s\<lparr>io_log := h2\<rparr>) = (p + of_nat (2 * 256), s\<lparr>io_log := h2\<rparr>\<lparr>io_log := h,
      mem := \<lambda>x. if within p (of_nat (2 * 256)) x then img (lba * 512 + of_nat (2 * 0) + (x - p))
                 else mem (s\<lparr>io_log := h2\<rparr>) x\<rparr>) \<and> ata_phase h = Some (lba, True, 0 + 256)"
    by (rule ata_read_words_serves [OF _ _ assms(2)]) (use assms(1) h2(2) in simp_all)
  then obtain h3 where h3: "ata_read_words 256 p (s\<lparr>io_log := h2\<rparr>) = (p + 512, s\<lparr>io_log := h3,
      mem := \<lambda>x. if within p 512 x then img (lba * 512 + (x - p)) else mem s x\<rparr>)"
    by (auto cong del: if_weak_cong)
  have "ata_lba_read_sector s lba 1 p = Some (s\<lparr>io_log := h3,
      mem := \<lambda>x. if within p 512 x then img (lba * 512 + (x - p)) else mem s x\<rparr>)"
    by (simp add: ata_lba_read_sector_def h1(1) ata_sector_loop.simps [of 0]
        ata_sector_loop.simps [of 1] h2(1) h3 Let_def)
  then show ?thesis by blast
qed

section \<open>Reading a stream\<close>

lemma copy_loop_memcpy:
  "i \<le> n \<Longrightarrow> copy_loop m src b i n = memcpy m b (src + i) (n - i)"
proof (induction m src b i n rule: copy_loop.induct)
  case (1 m src b i n)
  show ?case
  proof (cases "i < n")
    case False
    then show ?thesis using 1(2) by (subst copy_loop.simps, subst memcpy.simps) simp
  next
    case True
    then have "i + 1 \<le> n" using unat_Suc_less [OF True] by (simp add: word_le_nat_alt word_less_nat_alt)
    then have ih: "copy_loop (m(b := m (src + i))) src (b + 1) (i + 1) n
        = memcpy (m(b := m (src + i))) (b + 1) (src + (i + 1)) (n - (i + 1))"
      by (rule 1(1) [OF True])
    have "memcpy m b (src + i) (n - i)
        = memcpy (m(b := m (src + i))) (b + 1) (src + i + 1) (n - i - 1)"
      using True by (subst memcpy.simps) auto
    then show ?thesis using True ih
      by (subst copy_loop.simps) (simp only: if_True add.assoc diff_diff_add)
  qed
qed

text \<open>Copying between ranges that do not meet.\<close>

lemma memcpy_apart:
  assumes "apart tgt n src n"
  shows "memcpy m tgt src n = (\<lambda>x. if within tgt n x then m (src + (x - tgt)) else m x)"
proof (rule memcpy_eq, rule ccontr)
  assume "\<not> (tgt = src \<or> n \<le> tgt - src)"
  then have "within src n tgt" "within tgt n tgt"
    by (auto simp: within_def not_le word_gt_0)
  then show False using assms by (auto simp: apart_def)
qed

lemma apart_mono:
  assumes "apart a n b k" and "\<And>x. within a' n' x \<Longrightarrow> within a n x" and "\<And>x. within b' k' x \<Longrightarrow> within b k x"
  shows "apart a' n' b' k'"
  using assms by (auto simp: apart_def)

text \<open>What a stream needs of its buffers: the bytes read, the sector buffer and the position do not
  overlap.\<close>

definition stream_ok :: "'a mach_scheme \<Rightarrow> u32 \<Rightarrow> u32 \<Rightarrow> u32 \<Rightarrow> bool" where
  "stream_ok s streamer buf n \<longleftrightarrow> apart buf n (local_addr s Temp_buffer) 512
     \<and> apart buf n streamer 4 \<and> apart (local_addr s Temp_buffer) 512 streamer 4"

lemma pos_split:
  fixes p :: u32
  shows "p div 512 * 512 + p mod 512 = p" and "p mod 512 < 512"
    and "unat (p div 512) = unat p div 512" and "unat (p mod 512) = unat p mod 512"
  by (simp_all add: unat_div_distrib unat_mod_distrib word_mod_less_divisor word_mod_div_equality)

text \<open>One round: the part of the range that lies in the current sector.\<close>

lemma stream_round:
  assumes "ata_serves (device s) img sectors" and "unat (streamer_pos (mem s) st) div 512 < sectors"
    and "sectors \<le> 2 ^ 23" and "stream_ok s st buf b"
    and "unat (streamer_pos (mem s) st) mod 512 + unat b \<le> 512"
  defines "pos \<equiv> streamer_pos (mem s) st" and "tb \<equiv> local_addr s Temp_buffer"
  shows "\<exists>s1 m h. ata_lba_read_sector s (pos div 512) 1 tb = Some s1
    \<and> set_streamer_pos st (streamer_pos (copy_loop (mem s1) (tb + pos mod 512) buf 0 b) st + b)
        (s1\<lparr>mem := copy_loop (mem s1) (tb + pos mod 512) buf 0 b\<rparr>) = s\<lparr>mem := m, io_log := h\<rparr>
    \<and> (\<forall>x. within buf b x \<longrightarrow> m x = img (pos + (x - buf))) \<and> streamer_pos m st = pos + b
    \<and> (\<forall>x. \<not> within buf b x \<and> \<not> within tb 512 x \<and> \<not> within st 4 x \<longrightarrow> m x = mem s x)"
proof -
  have a1: "apart buf b tb 512" and a2: "apart buf b st 4" and a3: "apart tb 512 st 4"
    using assms(4) by (simp_all add: stream_ok_def tb_def)
  have off: "unat (pos mod 512) + unat b \<le> 512" using assms(5) by (simp add: pos_def pos_split)
  have "unat (pos div 512) < sectors" "unat (pos div 512) < 2 ^ 28"
    using assms(2,3) by (simp_all add: pos_def pos_split)
  from ata_lba_read_sector_serves [OF assms(1) this, of tb] obtain h where
    rd: "ata_lba_read_sector s (pos div 512) 1 tb = Some (s\<lparr>io_log := h,
      mem := \<lambda>x. if within tb 512 x then img (pos div 512 * 512 + (x - tb)) else mem s x\<rparr>)" by blast
  let ?m1 = "\<lambda>x. if within tb 512 x then img (pos div 512 * 512 + (x - tb)) else mem s x"
  have src: "within tb 512 (tb + pos mod 512 + d) \<and>
      img (pos div 512 * 512 + (tb + pos mod 512 + d - tb)) = img (pos + d)" if "d < b" for d
  proof -
    have "unat (pos mod 512 + d) = unat (pos mod 512) + unat d"
      using that off by (intro unat_add_lem [THEN iffD1]) (simp add: word_less_nat_alt)
    then have "unat (pos mod 512 + d) < 512" using that off by (simp add: word_less_nat_alt)
    moreover have t: "tb + pos mod 512 + d - tb = pos mod 512 + d" by simp
    moreover have p: "pos div 512 * 512 + (pos mod 512 + d) = pos + d"
      using pos_split(1) [of pos] by (simp only: add.assoc [symmetric])
    ultimately show ?thesis unfolding within_def t p by (simp add: word_less_nat_alt)
  qed
  have "apart buf b (tb + pos mod 512) b"
  proof (rule apart_mono [OF a1])
    fix x assume "within (tb + pos mod 512) b x"
    then show "within tb 512 x" using src [of "x - (tb + pos mod 512)"] by (simp add: within_def)
  qed
  then have cp: "copy_loop ?m1 (tb + pos mod 512) buf 0 b =
      (\<lambda>x. if within buf b x then ?m1 (tb + pos mod 512 + (x - buf)) else ?m1 x)"
    by (simp add: copy_loop_memcpy memcpy_apart)
  let ?m2 = "\<lambda>x. if within buf b x then ?m1 (tb + pos mod 512 + (x - buf)) else ?m1 x"
  have p2: "streamer_pos ?m2 st = pos"
    unfolding streamer_pos_def pos_def
    by (rule load32_cong) (use apartD' [OF a2] apartD' [OF a3] in simp)
  let ?m3 = "store32 ?m2 st (pos + b)"
  have m3: "?m3 x = ?m2 x" if "\<not> within st 4 x" for x using that by (rule store32_other)
  have "?m3 x = img (pos + (x - buf))" if "within buf b x" for x
    using m3 [OF apartD [OF a2 that]] that src [of "x - buf"] by (simp add: within_def)
  moreover have "?m3 x = mem s x" if "\<not> within buf b x" "\<not> within tb 512 x" "\<not> within st 4 x" for x
    using m3 [OF that(3)] that by simp
  moreover have "streamer_pos ?m3 st = pos + b" by (simp add: streamer_pos_def)
  moreover have "set_streamer_pos st (streamer_pos ?m2 st + b)
      (s\<lparr>io_log := h, mem := ?m1\<rparr>\<lparr>mem := ?m2\<rparr>) = s\<lparr>mem := ?m3, io_log := h\<rparr>"
    unfolding p2 by (simp add: set_streamer_pos_def)
  ultimately show ?thesis
    using rd cp by (intro exI [of _ "s\<lparr>io_log := h, mem := ?m1\<rparr>"] exI [of _ ?m3] exI [of _ h]) simp
qed

lemma device_upd [simp]: "device (s\<lparr>mem := m, io_log := h\<rparr>) = device s"
  and local_addr_upd [simp]: "local_addr (s\<lparr>mem := m, io_log := h\<rparr>) = local_addr s"
  by simp_all

lemma disk_stream_read_step:
  fixes n buf :: u32
  assumes "ata_lba_read_sector s (streamer_pos (mem s) st div 512) 1 (local_addr s Temp_buffer) = Some s1"
  defines "off \<equiv> streamer_pos (mem s) st mod 512"
  defines "b \<equiv> if 512 \<le> off + n then n - (off + n - 512) else n"
  defines "m \<equiv> copy_loop (mem s1) (local_addr s Temp_buffer + off) buf 0 b"
  defines "s2 \<equiv> set_streamer_pos st (streamer_pos m st + b) (s1\<lparr>mem := m\<rparr>)"
  shows "disk_stream_read s st buf n =
    (if 512 \<le> off + n then disk_stream_read s2 st (buf + b) (n - b) else Some s2)"
  using assms(1) by (subst disk_stream_read.simps) (simp add: off_def b_def m_def s2_def Let_def)

lemma disk_stream_read_flat:
  assumes "ata_serves (device s) img sectors"
    and "(unat (streamer_pos (mem s) st) + unat n) div 512 < sectors" and "sectors \<le> 2 ^ 23"
    and "stream_ok s st buf n"
  shows "\<exists>m h. disk_stream_read s st buf n = Some (s\<lparr>mem := m, io_log := h\<rparr>)
    \<and> (\<forall>x. within buf n x \<longrightarrow> m x = img (streamer_pos (mem s) st + (x - buf)))
    \<and> streamer_pos m st = streamer_pos (mem s) st + n
    \<and> (\<forall>x. \<not> within buf n x \<and> \<not> within (local_addr s Temp_buffer) 512 x \<and> \<not> within st 4 x
         \<longrightarrow> m x = mem s x)"
  using assms
proof (induction "unat n" arbitrary: s buf n rule: less_induct)
  case less
  define pos where "pos = streamer_pos (mem s) st"
  define off where "off = pos mod 512"
  define b where "b = (if 512 \<le> off + n then n - (off + n - 512) else n)"
  let ?tb = "local_addr s Temp_buffer"
  have sum: "unat pos + unat n < 2 ^ 32" and sec: "unat pos div 512 < sectors"
    using less.prems(2,3) by (simp_all add: pos_def div_less_iff_less_mult)
  have uo: "unat off = unat pos mod 512" by (simp add: off_def pos_split)
  have "unat off \<le> unat pos" unfolding uo by (rule mod_less_eq_dividend)
  then have on: "unat (off + n) = unat off + unat n"
    using sum by (intro unat_add_lem [THEN iffD1]) simp
  have over: "512 \<le> off + n \<longleftrightarrow> 512 \<le> unat off + unat n"
    by (simp add: word_le_nat_alt on)
  have off512: "unat off < 512" unfolding uo by simp
  have ub: "unat b = (if 512 \<le> off + n then 512 - unat off else unat n)"
  proof (cases "512 \<le> off + n")
    case True
    then have "b = 512 - off" by (simp add: b_def)
    then show ?thesis using True off512 by (simp add: unat_sub word_le_nat_alt)
  qed (simp add: b_def)
  have bn: "b \<le> n" using ub over off512 by (simp add: word_le_nat_alt split: if_splits)
  have fit: "unat off + unat b \<le> 512" using ub over off512 by auto
  have okb: "stream_ok s st buf b"
    using less.prems(4) within_head [OF bn] by (auto simp: stream_ok_def apart_def)
  have fit': "unat (streamer_pos (mem s) st) mod 512 + unat b \<le> 512"
    using fit by (simp only: uo pos_def)
  from stream_round [OF less.prems(1) sec [unfolded pos_def] less.prems(3) okb fit']
  obtain s1 m h where r: "ata_lba_read_sector s (pos div 512) 1 ?tb = Some s1"
    "set_streamer_pos st (streamer_pos (copy_loop (mem s1) (?tb + off) buf 0 b) st + b)
        (s1\<lparr>mem := copy_loop (mem s1) (?tb + off) buf 0 b\<rparr>) = s\<lparr>mem := m, io_log := h\<rparr>"
    "\<And>x. within buf b x \<Longrightarrow> m x = img (pos + (x - buf))" "streamer_pos m st = pos + b"
    "\<And>x. \<not> within buf b x \<Longrightarrow> \<not> within ?tb 512 x \<Longrightarrow> \<not> within st 4 x \<Longrightarrow> m x = mem s x"
    unfolding pos_def off_def by blast
  have step: "disk_stream_read s st buf n = (if 512 \<le> off + n
      then disk_stream_read (s\<lparr>mem := m, io_log := h\<rparr>) st (buf + b) (n - b)
      else Some (s\<lparr>mem := m, io_log := h\<rparr>))"
    using disk_stream_read_step [OF r(1) [unfolded pos_def], of buf n] r(2)
    by (simp only: pos_def [symmetric] off_def [symmetric] b_def [symmetric])
  show ?case
  proof (cases "512 \<le> off + n")
    case False
    then have "b = n" by (simp add: b_def)
    then show ?thesis unfolding step pos_def [symmetric] using False r(3,4,5)
      by (intro exI [of _ m] exI [of _ h]) simp
  next
    case True
    let ?s = "s\<lparr>mem := m, io_log := h\<rparr>"
    have nb: "unat (n - b) = unat n - unat b" by (rule unat_sub [OF bn])
    have less: "unat (n - b) < unat n"
      using True ub over off512 nb by simp
    have ok': "stream_ok ?s st (buf + b) (n - b)"
      using less.prems(4) within_tail [OF bn] by (auto simp: stream_ok_def apart_def)
    have pos': "streamer_pos (mem ?s) st = pos + b" by (simp add: r(4))
    have up: "unat (pos + b) = unat pos + unat b"
      using sum bn by (intro unat_add_lem [THEN iffD1]) (simp add: word_le_nat_alt)
    have "(unat (streamer_pos (mem ?s) st) + unat (n - b)) div 512 < sectors"
      unfolding pos' up nb using less.prems(2) bn by (simp add: pos_def word_le_nat_alt)
    from less.hyps [OF less _ this less.prems(3) ok'] less.prems(1)
    obtain m' h' where i: "disk_stream_read ?s st (buf + b) (n - b) = Some (s\<lparr>mem := m', io_log := h'\<rparr>)"
      "\<And>x. within (buf + b) (n - b) x \<Longrightarrow> m' x = img (pos + b + (x - (buf + b)))"
      "streamer_pos m' st = pos + b + (n - b)"
      "\<And>x. \<not> within (buf + b) (n - b) x \<Longrightarrow> \<not> within ?tb 512 x \<Longrightarrow> \<not> within st 4 x \<Longrightarrow> m' x = m x"
      unfolding pos' by auto
    have img: "m' x = img (pos + (x - buf))" if w: "within buf n x" for x
    proof (cases "within (buf + b) (n - b) x")
      case True
      have "pos + b + (x - (buf + b)) = pos + (x - buf)" by simp
      then show ?thesis using i(2) [OF True] by (simp only:)
    next
      case False
      then have wb: "within buf b x" using w within_split [OF bn] by blast
      have "\<not> within ?tb 512 x" "\<not> within st 4 x"
        using less.prems(4) w by (auto simp: stream_ok_def apart_def)
      then show ?thesis using i(4) [OF False] r(3) [OF wb] by simp
    qed
    have fr: "m' x = mem s x" if "\<not> within buf n x" "\<not> within ?tb 512 x" "\<not> within st 4 x" for x
      using i(4) [OF _ that(2,3)] r(5) [OF _ that(2,3)] that(1) within_split [OF bn, of buf x] by simp
    show ?thesis unfolding step pos_def [symmetric]
      using True i(1,3) img fr by (intro exI [of _ m'] exI [of _ h']) simp
  qed
qed

section \<open>Properties\<close>

text \<open>A drive that is ready at once and holds the contents \<open>img\<close>.\<close>

definition ready_drive :: "(u32 \<Rightarrow> u8) \<Rightarrow> io_event list \<Rightarrow> u16 \<Rightarrow> u32" where
  "ready_drive img h port =
     (if port = 0x1F7 then 8
      else case ata_phase h of
        Some (lba, _, k) \<Rightarrow> ucast (img (lba * 512 + of_nat (2 * k)))
          OR push_bit 8 (ucast (img (lba * 512 + of_nat (2 * k) + 1)))
      | None \<Rightarrow> 0)"

lemma ready_drive_serves: "ata_serves (ready_drive img) img sectors"
proof -
  have w: "(ucast (ucast x OR push_bit 8 (ucast y) :: u32) :: u16) = ucast x OR push_bit 8 (ucast y)"
    for x y :: u8 by (rule bit_word_eqI) (auto simp: bit_simps)
  show ?thesis
    unfolding ata_serves_def by (auto simp: ready_drive_def w intro!: exI [of _ 0])
qed

text \<open>C30: the driver waits for the drive without a bound. After the read command is issued, reading a
  sector returns exactly when some poll of the status port shows the data request bit; against a drive
  that never raises it the kernel does not return.\<close>

theorem ata_read_returns_iff_requested:
  "(\<exists>s'. ata_lba_read_sector s lba 1 buf = Some s') \<longleftrightarrow> (\<exists>n. drive_requests (ata_issue s lba 1) n)"
proof -
  have "(\<exists>s'. ata_lba_read_sector s lba 1 buf = Some s') \<longleftrightarrow> (\<exists>t. ata_wait (ata_issue s lba 1) = Some t)"
    by (auto simp: ata_lba_read_sector_def ata_sector_loop.simps [of 0] ata_sector_loop.simps [of 1]
        Let_def split: option.splits prod.splits)
  then show ?thesis using ata_wait_returns ata_wait_requested by blast
qed

text \<open>C14: \<open>disk_stream_read\<close> is a flat read. On a drive with contents \<open>img\<close> it terminates, the
  buffer receives the bytes from the position of the stream on, across sector boundaries, the
  position moves by the length, and nothing else in memory changes but the sector buffer. The
  block after the last byte must exist even when the range ends at a sector boundary: it is read.\<close>

theorem disk_stream_read_is_flat_read:
  assumes "ata_serves (device s) img sectors"
    and "(unat (streamer_pos (mem s) st) + unat n) div 512 < sectors" and "sectors \<le> 2 ^ 23"
    and "stream_ok s st buf n"
  shows "\<exists>s'. disk_stream_read s st buf n = Some s'
    \<and> s' = s\<lparr>mem := mem s', io_log := io_log s'\<rparr>
    \<and> (\<forall>x. if within buf n x then mem s' x = img (streamer_pos (mem s) st + (x - buf))
           else within (local_addr s Temp_buffer) 512 x \<or> within st 4 x \<or> mem s' x = mem s x)
    \<and> streamer_pos (mem s') st = streamer_pos (mem s) st + n"
proof -
  from disk_stream_read_flat [OF assms] obtain m h where
    r: "disk_stream_read s st buf n = Some (s\<lparr>mem := m, io_log := h\<rparr>)"
    "\<And>x. within buf n x \<Longrightarrow> m x = img (streamer_pos (mem s) st + (x - buf))"
    "streamer_pos m st = streamer_pos (mem s) st + n"
    "\<And>x. \<not> within buf n x \<Longrightarrow> \<not> within (local_addr s Temp_buffer) 512 x \<Longrightarrow> \<not> within st 4 x
      \<Longrightarrow> m x = mem s x" by blast
  show ?thesis by (intro exI [of _ "s\<lparr>mem := m, io_log := h\<rparr>"]) (use r in auto)
qed

definition demo_disk :: mach where
  "demo_disk = demo_mach\<lparr>device := ready_drive (\<lambda>a. ucast (drop_bit 8 a))\<rparr>"

lemma apart_below:
  assumes "unat a + unat n \<le> unat b" and "unat b + unat k \<le> 2 ^ 32"
  shows "apart a n b k"
  unfolding apart_def
proof (intro allI impI notI)
  fix x assume "within a n x" and w: "within b k x"
  then have xa: "unat (x - a) < unat n" and xb: "unat (x - b) < unat k"
    by (simp_all add: within_def word_less_nat_alt)
  have "unat x = unat a + unat (x - a)"
    using unat_word_ariths(1) [of a "x - a"] xa assms by simp
  moreover have "unat x = unat b + unat (x - b)"
    using unat_word_ariths(1) [of b "x - b"] xb assms by simp
  ultimately show False using xa assms by simp
qed

theorem disk_stream_read_is_flat_read_witness:
  "\<exists>s'. disk_stream_read (set_streamer_pos 0x3000 510 demo_disk) 0x3000 0x5000 4 = Some s'
    \<and> mem s' 0x5001 = 1 \<and> mem s' 0x5002 = 2 \<and> streamer_pos (mem s') 0x3000 = 514"
proof -
  let ?s = "set_streamer_pos 0x3000 510 demo_disk"
  have p: "streamer_pos (mem ?s) 0x3000 = 510" by (simp add: set_streamer_pos_def streamer_pos_def)
  have "ata_serves (device ?s) (\<lambda>a. ucast (drop_bit 8 a)) 10"
    by (simp add: set_streamer_pos_def demo_disk_def demo_mach_def ready_drive_serves)
  moreover have "(unat (streamer_pos (mem ?s) 0x3000) + unat (4 :: u32)) div 512 < 10" by (simp add: p)
  moreover have "stream_ok ?s 0x3000 0x5000 4"
    using apart_below [of "0x5000" 4 "0x1FF000" 512] apart_below [of "0x3000" 4 "0x5000" 4]
      apart_below [of "0x3000" 4 "0x1FF000" 512]
    by (simp add: stream_ok_def set_streamer_pos_def demo_disk_def demo_mach_def apart_sym)
  ultimately obtain s' where s': "disk_stream_read ?s 0x3000 0x5000 4 = Some s'"
    "\<And>x. if within 0x5000 4 x then mem s' x = ucast (drop_bit 8 (510 + (x - 0x5000)))
       else within (local_addr ?s Temp_buffer) 512 x \<or> within 0x3000 4 x \<or> mem s' x = mem ?s x"
    "streamer_pos (mem s') 0x3000 = 514"
    using disk_stream_read_is_flat_read [of ?s "\<lambda>a. ucast (drop_bit 8 a)" 10 "0x3000" 4 "0x5000"]
    unfolding p by auto
  have "mem s' 0x5001 = 1" "mem s' 0x5002 = 2"
    using s'(2) [of "0x5001"] s'(2) [of "0x5002"] by (simp_all add: within_def)
  then show ?thesis using s'(1,3) by blast
qed

end
