(* ===== verification/Parser.thy ===== *)
theory Parser
  imports KHeap Str "HOL-Library.Monad_Syntax"
begin

text \<open>
  The path parser of \<^verbatim>\<open>fs/parser/parser.c\<close>. A path such as \<open>A:/usrspc/gshell/main.o\<close>
  becomes a \<open>struct path\<close> in kernel memory: a drive letter (offset 0) and a list of
  \<open>struct path_unit\<close> (offset 4), each a string pointer (offset 0) and a link (offset 4).
  \<open>path_get_current_unit_and_advance\<close> consumes the working copy of the path in place.
\<close>

section \<open>Operations\<close>

definition path_drive_id :: "memory \<Rightarrow> u32 \<Rightarrow> u8" where "path_drive_id m p = m p"
definition path_units :: "memory \<Rightarrow> u32 \<Rightarrow> u32" where "path_units m p = load32 m (p + 4)"
definition unit_str :: "memory \<Rightarrow> u32 \<Rightarrow> u32" where "unit_str m u = load32 m u"
definition next_unit :: "memory \<Rightarrow> u32 \<Rightarrow> u32" where "next_unit m u = load32 m (u + 4)"

definition set32 :: "u32 \<Rightarrow> u32 \<Rightarrow> 'a kst_scheme \<Rightarrow> 'a kst_scheme" where
  "set32 a v s = s\<lparr>mem := store32 (mem s) a v\<rparr>"

definition set8 :: "u32 \<Rightarrow> u8 \<Rightarrow> 'a kst_scheme \<Rightarrow> 'a kst_scheme" where
  "set8 a v s = s\<lparr>mem := (mem s)(a := v)\<rparr>"

text \<open>\<open>&&\<close> calls \<open>strlen\<close> only for a drive letter. The error is a negative \<open>char\<close>.\<close>

definition parse_drive :: "memory \<Rightarrow> u32 \<Rightarrow> u8 option" where
  "parse_drive m path =
     (if 65 \<le> sint (m path) \<and> sint (m path) \<le> 90
      then do { len \<leftarrow> strlen m path;
                Some (if 3 \<le> len then m path else word_of_int (- errno ERR_INVPATH)) }
      else Some (word_of_int (- errno ERR_INVPATH)))"

partial_function (option) copy_unit_loop :: "memory \<Rightarrow> u32 \<Rightarrow> u32 \<Rightarrow> u32 \<Rightarrow> (memory \<times> u32) option" where
  "copy_unit_loop m current_unit_str ptr temp_path =
     (if m temp_path \<noteq> 0x2F \<and> m temp_path \<noteq> 0
      then copy_unit_loop (m(current_unit_str + ptr := m temp_path)) current_unit_str (ptr + 1)
             (temp_path + 1)
      else Some (m, temp_path))"

definition path_get_current_unit_and_advance ::
    "'a kst_scheme \<Rightarrow> u32 \<Rightarrow> (u32 \<times> 'a kst_scheme) option" where
  "path_get_current_unit_and_advance s path =
     do { (current_unit_str, s) \<leftarrow> kzalloc s FS_MAX_PATH_UNIT_LENGTH;
          len \<leftarrow> strlen (mem s) path;
          if len = 0 then Some (0, s)
          else do {
            (temp_path, s) \<leftarrow> kzalloc s len;
            m \<leftarrow> strcpy (mem s) temp_path path;
            (m, temp_path) \<leftarrow> copy_unit_loop m current_unit_str 0 temp_path;
            unit_len \<leftarrow> strlen m current_unit_str;
            if FS_MAX_PATH_UNIT_LENGTH < unit_len then None
            else do {
              let temp_path = (if m temp_path = 0x2F then temp_path + 1 else temp_path);
              m \<leftarrow> strcpy m path temp_path;
              Some (current_unit_str, kfree (s\<lparr>mem := m\<rparr>) temp_path) } } }"

partial_function (option) parse_units_loop ::
    "'a kst_scheme \<Rightarrow> u32 \<Rightarrow> u32 \<Rightarrow> 'a kst_scheme option" where
  "parse_units_loop s path path_unit_ptr =
     do { (current_unit, s) \<leftarrow> path_get_current_unit_and_advance s path;
          if current_unit = 0 then Some s
          else do {
            (path_current_unit, s) \<leftarrow> kzalloc s 8;
            parse_units_loop
              (set32 (path_unit_ptr + 4) path_current_unit
                (set32 (path_current_unit + 4) 0 (set32 path_current_unit current_unit s)))
              path path_current_unit } }"

definition parse_path :: "'a kst_scheme \<Rightarrow> u32 \<Rightarrow> (u32 \<times> 'a kst_scheme) option" where
  "parse_path s path0 =
     do { len \<leftarrow> strlen (mem s) path0;
          if FS_MAX_PATH_LENGTH < len then None
          else do {
            (parsed_path, s) \<leftarrow> kzalloc s 8;
            len \<leftarrow> strlen (mem s) path0;
            (path, s) \<leftarrow> kzalloc s len;
            m \<leftarrow> strcpy (mem s) path path0;
            let s = s\<lparr>mem := m\<rparr>;
            drive \<leftarrow> parse_drive (mem s) path;
            if sint drive < 0 then Some (0, s)
            else do {
              let path = path + 3;
              let s = set8 parsed_path drive s;
              (unit_head, s) \<leftarrow> kzalloc s 8;
              (first_unit, s) \<leftarrow> path_get_current_unit_and_advance s path;
              let s = set32 (unit_head + 4) 0 (set32 unit_head first_unit s);
              s \<leftarrow> parse_units_loop s path unit_head;
              Some (parsed_path, set32 (parsed_path + 4) unit_head s) } } }"

end
