(* ===== verification/Fat16.thy ===== *)
theory Fat16
  imports Disk Parser
begin

text \<open>
  The FAT16 file system of \<^verbatim>\<open>fs/fat16/fat16.c\<close>. Its structures are in kernel memory with
  the layout the compiler gives them (the on-disk ones are packed); the accessors below name their
  fields by offset. All disk access goes through the streams. A null pointer that the code follows is
  address 0, which the identity mapping backs: the model reads and writes there as the machine does.
\<close>

section \<open>Layout\<close>

definition disk_sector_size :: "memory \<Rightarrow> u32 \<Rightarrow> u32" where "disk_sector_size m d = load32 m (d + 4)"
definition disk_fs :: "memory \<Rightarrow> u32 \<Rightarrow> u32" where "disk_fs m d = load32 m (d + 8)"
definition disk_private :: "memory \<Rightarrow> u32 \<Rightarrow> u32" where "disk_private m d = load32 m (d + 12)"

definition bpb_sectors_per_cluster :: "memory \<Rightarrow> u32 \<Rightarrow> u32" where
  "bpb_sectors_per_cluster m p = ucast (m (p + 13))"
definition bpb_reserved_sectors :: "memory \<Rightarrow> u32 \<Rightarrow> u32" where
  "bpb_reserved_sectors m p = ucast (load16 m (p + 14))"
definition bpb_fat_copies :: "memory \<Rightarrow> u32 \<Rightarrow> u32" where "bpb_fat_copies m p = ucast (m (p + 16))"
definition bpb_root_dir_entries :: "memory \<Rightarrow> u32 \<Rightarrow> u32" where
  "bpb_root_dir_entries m p = ucast (load16 m (p + 17))"
definition bpb_sectors_per_fat :: "memory \<Rightarrow> u32 \<Rightarrow> u32" where
  "bpb_sectors_per_fat m p = ucast (load16 m (p + 22))"
definition ebpb_signature :: "memory \<Rightarrow> u32 \<Rightarrow> u8" where "ebpb_signature m p = m (p + 38)"

text \<open>\<open>struct fat16_private_data\<close>: the header of 62 bytes, the root directory, three streams.\<close>

abbreviation (input) header_size :: u32 where "header_size \<equiv> 62"
abbreviation (input) private_size :: u32 where "private_size \<equiv> 92"
definition private_root :: "u32 \<Rightarrow> u32" where "private_root p = p + 64"
definition cluster_streamer :: "memory \<Rightarrow> u32 \<Rightarrow> u32" where "cluster_streamer m p = load32 m (p + 80)"
definition fat_streamer :: "memory \<Rightarrow> u32 \<Rightarrow> u32" where "fat_streamer m p = load32 m (p + 84)"
definition directory_streamer :: "memory \<Rightarrow> u32 \<Rightarrow> u32" where
  "directory_streamer m p = load32 m (p + 88)"

definition dir_files :: "memory \<Rightarrow> u32 \<Rightarrow> u32" where "dir_files m d = load32 m d"
definition dir_total_files :: "memory \<Rightarrow> u32 \<Rightarrow> u32" where "dir_total_files m d = load32 m (d + 4)"
definition dir_first_sector :: "memory \<Rightarrow> u32 \<Rightarrow> u32" where "dir_first_sector m d = load32 m (d + 8)"
definition dir_last_sector :: "memory \<Rightarrow> u32 \<Rightarrow> u32" where "dir_last_sector m d = load32 m (d + 12)"

abbreviation (input) file_size_of :: u32 where "file_size_of \<equiv> 32"
definition file_attributes :: "memory \<Rightarrow> u32 \<Rightarrow> u8" where "file_attributes m f = m (f + 11)"
definition file_size :: "memory \<Rightarrow> u32 \<Rightarrow> u32" where "file_size m f = load32 m (f + 28)"

text \<open>The two halves of the cluster number are joined without a shift.\<close>

definition file_first_cluster :: "memory \<Rightarrow> u32 \<Rightarrow> u32" where
  "file_first_cluster m f = ucast (load16 m (f + 26)) OR ucast (load16 m (f + 20))"

definition unit_object :: "memory \<Rightarrow> u32 \<Rightarrow> u32" where "unit_object m u = load32 m u"
definition unit_type :: "memory \<Rightarrow> u32 \<Rightarrow> u8" where "unit_type m u = m (u + 4)"
definition fd_unit :: "memory \<Rightarrow> u32 \<Rightarrow> u32" where "fd_unit m fd = load32 m fd"
definition fd_position :: "memory \<Rightarrow> u32 \<Rightarrow> u32" where "fd_position m fd = load32 m (fd + 4)"

abbreviation (input) FAT16_DIRECTORY :: u8 where "FAT16_DIRECTORY \<equiv> 0"
abbreviation (input) FAT16_FILE :: u8 where "FAT16_FILE \<equiv> 1"
abbreviation (input) FAT16_FILE_SUBDIRECTORY :: u8 where "FAT16_FILE_SUBDIRECTORY \<equiv> 0x10"
abbreviation (input) READ_MODE :: u8 where "READ_MODE \<equiv> 0x72"

section \<open>Directories\<close>

partial_function (option) count_files_loop ::
    "'a mach_scheme \<Rightarrow> u32 \<Rightarrow> u32 \<Rightarrow> (u32 \<times> 'a mach_scheme) option" where
  "count_files_loop s streamer total_files =
     do { s \<leftarrow> disk_stream_read s streamer (local_addr s Temp_file) 32;
          if mem s (local_addr s Temp_file) = 0x00 then Some (total_files, s)
          else if mem s (local_addr s Temp_file) = 0xE5 then count_files_loop s streamer total_files
          else count_files_loop s streamer (total_files + 1) }"

definition fat16_total_files_in_directory ::
    "'a mach_scheme \<Rightarrow> u32 \<Rightarrow> u32 \<Rightarrow> u32 \<Rightarrow> (u32 \<times> 'a mach_scheme) option" where
  "fat16_total_files_in_directory s disk priv dir =
     (let s = disk_stream_seek s (directory_streamer (mem s) priv)
                (dir_first_sector (mem s) dir * disk_sector_size (mem s) disk);
          s = s\<lparr>mem := memset (mem s) (local_addr s Temp_file) 0 32\<rparr>
      in count_files_loop s (directory_streamer (mem s) priv) 0)"

definition fat16_get_root ::
    "'a mach_scheme \<Rightarrow> u32 \<Rightarrow> u32 \<Rightarrow> u32 \<Rightarrow> (int \<times> 'a mach_scheme) option" where
  "fat16_get_root s disk priv root =
     (let m = mem s;
          root_sector = bpb_fat_copies m priv * bpb_sectors_per_fat m priv + bpb_reserved_sectors m priv;
          root_size = bpb_root_dir_entries m priv * 32;
          sector_size = disk_sector_size m disk
      in if sector_size = 0 then None
         else do {
           let sectors_occupied = root_size div sector_size
                 + (if root_size mod sector_size \<noteq> 0 then 1 else 0);
           (root_file, s) \<leftarrow> kzalloc s root_size;
           (root_streamer, s) \<leftarrow> disk_stream_new s;
           if root_file = 0 then Some (- errno ERR_MALLOC_FAIL, s)
           else do {
             let s = disk_stream_seek s root_streamer (root_sector * disk_sector_size (mem s) disk);
             s \<leftarrow> disk_stream_read s root_streamer root_file root_size;
             let s = set32 root root_file s;
             let s = set32 (root + 8) root_sector s;
             let s = set32 (root + 12) (root_sector + sectors_occupied - 1) s;
             (total_files, s) \<leftarrow> fat16_total_files_in_directory s disk priv root;
             let s = set32 (root + 4) total_files s;
             Some (errno SUCCESS, disk_stream_close s root_streamer) } })"

definition fat16_destroy_directory :: "'a mach_scheme \<Rightarrow> u32 \<Rightarrow> 'a mach_scheme" where
  "fat16_destroy_directory s dir =
     (if dir = 0 then s
      else let s = (if dir_files (mem s) dir \<noteq> 0 then kfree s (dir_files (mem s) dir) else s)
           in kfree s dir)"

definition fat16_destroy_unit :: "'a mach_scheme \<Rightarrow> u32 \<Rightarrow> 'a mach_scheme" where
  "fat16_destroy_unit s fu =
     (let s = (if unit_type (mem s) fu = FAT16_DIRECTORY
               then fat16_destroy_directory s (unit_object (mem s) fu)
               else kfree s (unit_object (mem s) fu))
      in kfree s fu)"

definition fat16_destroy_fd :: "'a mach_scheme \<Rightarrow> u32 \<Rightarrow> 'a mach_scheme" where
  "fat16_destroy_fd s fd = (let s = fat16_destroy_unit s (fd_unit (mem s) fd) in kfree s fd)"

section \<open>Clusters\<close>

definition fat16_get_entry :: "'a mach_scheme \<Rightarrow> u32 \<Rightarrow> u32 \<Rightarrow> (u16 \<times> 'a mach_scheme) option" where
  "fat16_get_entry s disk cluster =
     (let priv = disk_private (mem s) disk;
          table_position = bpb_reserved_sectors (mem s) priv * disk_sector_size (mem s) disk;
          streamer = fat_streamer (mem s) priv;
          s = disk_stream_seek s streamer (table_position * cluster * 2);
          s = s\<lparr>mem := store16 (mem s) (local_addr s Fat16_entry) 0\<rparr>
      in do { s \<leftarrow> disk_stream_read s streamer (local_addr s Fat16_entry) 2;
              Some (load16 (mem s) (local_addr s Fat16_entry), s) })"

text \<open>The negative answer \<open>-ERR_INVARG\<close> is converted to \<open>uint32_t\<close> by the caller.\<close>

function cluster_walk ::
    "'a mach_scheme \<Rightarrow> u32 \<Rightarrow> u32 \<Rightarrow> u32 \<Rightarrow> u32 \<Rightarrow> (u32 \<times> 'a mach_scheme) option" where
  "cluster_walk s disk current_cluster cluster_index additional_clusters =
     (if cluster_index < additional_clusters then
        case fat16_get_entry s disk current_cluster of
          None \<Rightarrow> None
        | Some (entry16, s) \<Rightarrow>
            let fat16_entry = ucast entry16 :: u32
            in if fat16_entry = 0xFF8 \<or> fat16_entry = 0xFFF then Some (- 1, s)
               else if fat16_entry = 0xFF7 then Some (- 1, s)
               else if fat16_entry = 0xFF0 \<or> fat16_entry = 0xFF6 then Some (- 1, s)
               else if fat16_entry = 0x00 then Some (- 1, s)
               else cluster_walk s disk fat16_entry (cluster_index + 1) additional_clusters
      else Some (current_cluster, s))"
  by pat_completeness auto
termination
  by (relation "measure (\<lambda>(s, d, c, i, n). unat n - unat i)") (auto simp: unat_loop_dec)

declare cluster_walk.simps [simp del, loop_simps]

definition fat16_get_cluster_from_offset ::
    "'a mach_scheme \<Rightarrow> u32 \<Rightarrow> u32 \<Rightarrow> u32 \<Rightarrow> (u32 \<times> 'a mach_scheme) option" where
  "fat16_get_cluster_from_offset s disk cluster offset =
     (let cluster_size = bpb_sectors_per_cluster (mem s) (disk_private (mem s) disk)
                           * disk_sector_size (mem s) disk
      in if cluster_size = 0 then None
         else cluster_walk s disk cluster 0 (offset div cluster_size))"

definition fat16_cluster_to_sector :: "memory \<Rightarrow> u32 \<Rightarrow> u32 \<Rightarrow> u32" where
  "fat16_cluster_to_sector m priv cluster =
     dir_last_sector m (private_root priv) + (cluster - 2) * bpb_sectors_per_cluster m priv + 1"

text \<open>The guard \<open>current_cluster < 0\<close> compares an unsigned value and is never true; it has no
  branch here. The result of the recursive call is ignored.\<close>

partial_function (option) fat16_read_from_disk ::
    "'a mach_scheme \<Rightarrow> u32 \<Rightarrow> u32 \<Rightarrow> u32 \<Rightarrow> u32 \<Rightarrow> u32 \<Rightarrow> (int \<times> 'a mach_scheme) option" where
  "fat16_read_from_disk s disk first_cluster offset sz out =
     (let priv = disk_private (mem s) disk;
          streamer = cluster_streamer (mem s) priv;
          total_cluster_size = bpb_sectors_per_cluster (mem s) priv * disk_sector_size (mem s) disk
      in do {
        (current_cluster, s) \<leftarrow> fat16_get_cluster_from_offset s disk first_cluster offset;
        let first_sector = fat16_cluster_to_sector (mem s) priv current_cluster;
        let position_in_sector = first_sector * disk_sector_size (mem s) disk + offset;
        let size_readable = (if total_cluster_size < sz then total_cluster_size else sz);
        let s = disk_stream_seek s streamer position_in_sector;
        s \<leftarrow> disk_stream_read s streamer out size_readable;
        if 0 < sz - size_readable
        then do { (_, s) \<leftarrow> fat16_read_from_disk s disk first_cluster (offset + size_readable)
                    (sz - size_readable) (out + size_readable);
                  Some (errno SUCCESS, s) }
        else Some (errno SUCCESS, s) })"

section \<open>Names\<close>

text \<open>The counter, an \<open>int\<close> from 0, stays at most the size.\<close>

function proper_string_loop :: "memory \<Rightarrow> u32 \<Rightarrow> u32 \<Rightarrow> nat \<Rightarrow> nat \<Rightarrow> memory \<times> u32" where
  "proper_string_loop m out inp counter sz =
     (if m inp \<noteq> 0x00 \<and> m inp \<noteq> 0x20 then
        let m = m(out := m inp); out = out + 1; inp = inp + 1; counter = counter + 1
        in if sz \<le> counter then (m(out := 0), out)
           else proper_string_loop m out inp counter sz
      else if m inp = 0x20 then (m(out := 0), out)
      else (m, out))"
  by pat_completeness auto
termination
  by (relation "measure (\<lambda>(m, out, inp, counter, sz). sz - counter)") auto

declare proper_string_loop.simps [simp del, loop_simps]

definition fat16_to_proper_string :: "memory \<Rightarrow> u32 \<Rightarrow> u32 \<Rightarrow> nat \<Rightarrow> memory \<times> u32" where
  "fat16_to_proper_string m out inp sz = proper_string_loop m out inp 0 sz"

definition fat16_get_full_relative_name :: "memory \<Rightarrow> u32 \<Rightarrow> u32 \<Rightarrow> u32 \<Rightarrow> memory" where
  "fat16_get_full_relative_name m file out len =
     (let m = memset m out 0 len;
          (m, temp_out) = fat16_to_proper_string m out file 8
      in if m (file + 8) \<noteq> 0x00 \<and> m (file + 8) \<noteq> 0x20
         then let m = m(temp_out := 0x2E) in fst (fat16_to_proper_string m (temp_out + 1) (file + 8) 3)
         else m)"

section \<open>Loading directories and finding units\<close>

definition fat16_load_directory :: "'a mach_scheme \<Rightarrow> u32 \<Rightarrow> u32 \<Rightarrow> (u32 \<times> 'a mach_scheme) option" where
  "fat16_load_directory s disk file =
     do { (dir, s) \<leftarrow> kzalloc s 16;
          let priv = disk_private (mem s) disk;
          if dir = 0 then Some (0, s)
          else if file_attributes (mem s) file AND FAT16_FILE_SUBDIRECTORY = 0 then Some (0, kfree s dir)
          else do {
            let first_cluster = file_first_cluster (mem s) file;
            let first_sector = fat16_cluster_to_sector (mem s) priv first_cluster;
            let s = set32 (dir + 8) first_sector s;
            (total_files, s) \<leftarrow> fat16_total_files_in_directory s disk priv dir;
            let s = set32 (dir + 4) total_files s;
            let directory_size = total_files * 32;
            (files, s) \<leftarrow> kzalloc s directory_size;
            let s = set32 dir files s;
            if files = 0 then Some (0, s)
            else do {
              (res, s) \<leftarrow> fat16_read_from_disk s disk first_cluster 0 directory_size files;
              if res < 0 then Some (0, kfree s files) else Some (dir, s) } } }"

definition fat16_clone_file :: "'a mach_scheme \<Rightarrow> u32 \<Rightarrow> u32 \<Rightarrow> (u32 \<times> 'a mach_scheme) option" where
  "fat16_clone_file s file sz =
     do { (file_copy, s) \<leftarrow> kzalloc s 32;
          if file_copy = 0 then Some (0, s)
          else if sz < 32 then Some (0, kfree s file_copy)
          else Some (file_copy, s\<lparr>mem := memcpy (mem s) file_copy file sz\<rparr>) }"

definition fat16_new_fat_unit_for_directory_unit ::
    "'a mach_scheme \<Rightarrow> u32 \<Rightarrow> u32 \<Rightarrow> (u32 \<times> 'a mach_scheme) option" where
  "fat16_new_fat_unit_for_directory_unit s disk file =
     do { (unit, s) \<leftarrow> kzalloc s 8;
          if unit = 0 then Some (0, s)
          else if file_attributes (mem s) file AND FAT16_FILE_SUBDIRECTORY \<noteq> 0
          then do { (dir, s) \<leftarrow> fat16_load_directory s disk file;
                    Some (unit, set8 (unit + 4) FAT16_DIRECTORY (set32 unit dir s)) }
          else do { (copy, s) \<leftarrow> fat16_clone_file s file 32;
                    Some (unit, set8 (unit + 4) FAT16_FILE (set32 unit copy s)) } }"

text \<open>The loop runs to the end: the last matching entry is the answer.\<close>

text \<open>\<open>dir->total_files\<close> is read again in every round.\<close>

partial_function (option) find_unit_loop ::
    "'a mach_scheme \<Rightarrow> u32 \<Rightarrow> u32 \<Rightarrow> u32 \<Rightarrow> u32 \<Rightarrow> u32 \<Rightarrow> (u32 \<times> 'a mach_scheme) option" where
  "find_unit_loop s disk dir name dir_unit unit =
     (if dir_unit < dir_total_files (mem s) dir then
        let temp_name = local_addr s Temp_name;
            s = s\<lparr>mem := fat16_get_full_relative_name (mem s) (dir_files (mem s) dir + 32 * dir_unit)
                    temp_name FS_MAX_PATH_UNIT_LENGTH\<rparr>
        in if strncmp (mem s) temp_name name FS_MAX_PATH_UNIT_LENGTH = 0
           then do { (unit, s) \<leftarrow> fat16_new_fat_unit_for_directory_unit s disk
                       (dir_files (mem s) dir + 32 * dir_unit);
                     find_unit_loop s disk dir name (dir_unit + 1) unit }
           else find_unit_loop s disk dir name (dir_unit + 1) unit
      else Some (unit, s))"

definition fat16_find_unit_in_directory ::
    "'a mach_scheme \<Rightarrow> u32 \<Rightarrow> u32 \<Rightarrow> u32 \<Rightarrow> (u32 \<times> 'a mach_scheme) option" where
  "fat16_find_unit_in_directory s disk dir name =
     (let s = s\<lparr>mem := memset (mem s) (local_addr s Temp_name) 0 FS_MAX_PATH_UNIT_LENGTH\<rparr>
      in find_unit_loop s disk dir name 0 0)"

text \<open>A component that is not found leaves \<open>current_unit\<close> null; the next round reads through it.\<close>

partial_function (option) get_unit_loop ::
    "'a mach_scheme \<Rightarrow> u32 \<Rightarrow> u32 \<Rightarrow> u32 \<Rightarrow> (u32 \<times> 'a mach_scheme) option" where
  "get_unit_loop s disk current_unit next_path_unit =
     (if next_path_unit \<noteq> 0 then
        if unit_type (mem s) current_unit = FAT16_DIRECTORY then
          do { (temp_unit, s) \<leftarrow> fat16_find_unit_in_directory s disk (unit_object (mem s) current_unit)
                 (unit_str (mem s) next_path_unit);
               get_unit_loop s disk temp_unit (next_unit (mem s) next_path_unit) }
        else Some (0, s)
      else Some (current_unit, s))"

definition fat16_get_unit :: "'a mach_scheme \<Rightarrow> u32 \<Rightarrow> u32 \<Rightarrow> (u32 \<times> 'a mach_scheme) option" where
  "fat16_get_unit s disk path =
     do { let priv = disk_private (mem s) disk;
          (root, s) \<leftarrow> fat16_find_unit_in_directory s disk (private_root priv) (unit_str (mem s) path);
          if root = 0 then Some (0, s)
          else get_unit_loop s disk root (next_unit (mem s) path) }"

section \<open>The operations of the file system\<close>

definition fat16_resolve :: "'a mach_scheme \<Rightarrow> u32 \<Rightarrow> (int \<times> 'a mach_scheme) option" where
  "fat16_resolve s disk =
     do { (priv, s) \<leftarrow> kzalloc s private_size;
          (cs, s) \<leftarrow> disk_stream_new s;
          let s = set32 (priv + 80) cs s;
          (ds, s) \<leftarrow> disk_stream_new s;
          let s = set32 (priv + 88) ds s;
          (fs, s) \<leftarrow> disk_stream_new s;
          let s = set32 (priv + 84) fs s;
          (streamer, s) \<leftarrow> disk_stream_new s;
          s \<leftarrow> disk_stream_read s streamer priv header_size;
          if ebpb_signature (mem s) priv \<noteq> 0x29
          then Some (- errno ERR_FS_INV_SIGN, set32 (disk + 12) 0 (kfree (disk_stream_close s streamer) priv))
          else do {
            let s = set32 (disk + 12) priv s;
            (res, s) \<leftarrow> fat16_get_root s disk priv (private_root priv);
            if res \<noteq> errno SUCCESS
            then Some (- errno ERR_FS_ROOT_NOT_FOUND,
                       set32 (disk + 12) 0 (kfree (disk_stream_close s streamer) priv))
            else Some (errno SUCCESS, disk_stream_close s streamer) } }"

definition fat16_open :: "'a mach_scheme \<Rightarrow> u32 \<Rightarrow> u32 \<Rightarrow> u8 \<Rightarrow> (u32 \<times> 'a mach_scheme) option" where
  "fat16_open s disk path mode =
     (if mode \<noteq> READ_MODE then Some (0, s)
      else do {
        (fd, s) \<leftarrow> kzalloc s 8;
        let s = set32 (fd + 4) 0 s;
        (unit, s) \<leftarrow> fat16_get_unit s disk (path_units (mem s) path);
        let s = set32 fd unit s;
        if unit = 0 then Some (0, kfree s fd) else Some (fd, s) })"

function read_members_loop ::
    "'a mach_scheme \<Rightarrow> u32 \<Rightarrow> u32 \<Rightarrow> u32 \<Rightarrow> u32 \<Rightarrow> u32 \<Rightarrow> nat \<Rightarrow> nat \<Rightarrow> (int \<times> 'a mach_scheme) option" where
  "read_members_loop s disk fd offset sz out member nmemb =
     (if member < nmemb then
        case fat16_read_from_disk s disk (file_first_cluster (mem s) (unit_object (mem s) (fd_unit (mem s) fd)))
               offset sz out of
          None \<Rightarrow> None
        | Some (res, s) \<Rightarrow>
            if res < 0 then Some (int member, s)
            else read_members_loop s disk fd (offset + sz) sz (out + sz) (member + 1) nmemb
      else Some (int member, s))"
  by pat_completeness auto
termination
  by (relation "measure (\<lambda>(s, d, fd, off, sz, out, i, n). n - i)") auto

declare read_members_loop.simps [simp del, loop_simps]

definition fat16_read ::
    "'a mach_scheme \<Rightarrow> u32 \<Rightarrow> u32 \<Rightarrow> u32 \<Rightarrow> u32 \<Rightarrow> u32 \<Rightarrow> (int \<times> 'a mach_scheme) option" where
  "fat16_read s disk fd sz nmemb out =
     (if unit_type (mem s) (fd_unit (mem s) fd) = FAT16_DIRECTORY then Some (- errno ERR_INVARG, s)
      else read_members_loop s disk fd (fd_position (mem s) fd) sz out 0 (unat nmemb))"

definition fat16_close :: "'a mach_scheme \<Rightarrow> u32 \<Rightarrow> int \<times> 'a mach_scheme" where
  "fat16_close s fd = (errno SUCCESS, fat16_destroy_fd s fd)"

text \<open>\<open>struct file_stat\<close> has the size at offset 0 and the flags at offset 8.\<close>

definition fat16_stat :: "'a mach_scheme \<Rightarrow> u32 \<Rightarrow> u32 \<Rightarrow> int \<times> 'a mach_scheme" where
  "fat16_stat s fd stat =
     (let fu = fd_unit (mem s) fd
      in if unit_type (mem s) fu = FAT16_DIRECTORY then (- errno ERR_INVARG, s)
         else let file = unit_object (mem s) fu;
                  s = set32 stat (file_size (mem s) file) s;
                  s = set32 (stat + 8) 0 s;
                  s = set32 (stat + 8) (load32 (mem s) (stat + 8) OR ucast (file_attributes (mem s) file)) s
              in (errno SUCCESS, s))"

definition fat16_seek :: "'a mach_scheme \<Rightarrow> u32 \<Rightarrow> u32 \<Rightarrow> u8 \<Rightarrow> int \<times> 'a mach_scheme" where
  "fat16_seek s fd offset seek_mode =
     (if unit_type (mem s) (fd_unit (mem s) fd) = FAT16_DIRECTORY then (- errno ERR_INVARG, s)
      else if file_size (mem s) (unit_object (mem s) (fd_unit (mem s) fd)) \<le> offset
      then (- errno ERR_INVARG, s)
      else if seek_mode = 0 then (0, set32 (fd + 4) offset s)
      else if seek_mode = 1 then (0, set32 (fd + 4) (fd_position (mem s) fd + offset) s)
      else if seek_mode = 2 then (-1, s)
      else (- errno ERR_INVARG, s))"

section \<open>Frames\<close>

lemma set_rest [simp]:
  "rest (set32 a v s) = rest s" "rest (set8 a c s) = rest s"
  by (simp_all add: set32_def set8_def)

lemma path_unit_rest [rest_rules]:
  fixes s :: "'a mach_scheme"
  assumes "path_get_current_unit_and_advance s p = Some (u, s')"
  shows "rest s' = rest s"
  using assms unfolding path_get_current_unit_and_advance_def
  by (auto elim!: option_bindE dest!: kzalloc_rest simp: Let_def split: if_splits prod.splits)

lemma parse_units_loop_rest [rest_rules]:
  fixes s :: "'a mach_scheme"
  assumes "parse_units_loop s p u = Some s'"
  shows "rest s' = rest s"
  by (rule parse_units_loop.raw_induct [OF _ assms])
    (fastforce elim!: option_bindE dest!: kzalloc_rest path_unit_rest split: if_splits prod.splits)

lemma parse_path_rest [rest_rules]:
  fixes s :: "'a mach_scheme"
  assumes "parse_path s p = Some (r, s')"
  shows "rest s' = rest s"
  using assms unfolding parse_path_def
  by (auto elim!: option_bindE dest!: rest_rules simp: Let_def split: if_splits prod.splits)

lemma count_files_loop_rest [rest_rules]:
  assumes "count_files_loop s a n = Some r"
  shows "rest (snd r) = rest s"
  by (rule count_files_loop.raw_induct [OF _ assms])
    (fastforce elim!: option_bindE dest!: disk_stream_read_rest split: if_splits)

lemma total_files_rest [rest_rules]:
  "fat16_total_files_in_directory s d p dir = Some (n, s') \<Longrightarrow> rest s' = rest s"
  by (auto simp: fat16_total_files_in_directory_def Let_def dest: count_files_loop_rest)

lemma fat16_get_root_rest [rest_rules]:
  assumes "fat16_get_root s d p r = Some (n, s')"
  shows "rest s' = rest s"
  using assms unfolding fat16_get_root_def
  by - (erule letE, erule letE, erule letE, erule letE, erule if_SomeE, simp,
      (erule option_bindE let_restE letE if_SomeE
        | clarsimp simp: kzalloc_rest disk_stream_new_rest disk_stream_read_rest total_files_rest
            split: prod.splits)+)

lemma destroy_directory_rest [simp]: "rest (fat16_destroy_directory s a) = rest s"
  by (simp add: fat16_destroy_directory_def Let_def)

lemma destroy_unit_rest [simp]: "rest (fat16_destroy_unit s a) = rest s"
  by (simp add: fat16_destroy_unit_def Let_def)

lemma destroy_fd_rest [simp]: "rest (fat16_destroy_fd s a) = rest s"
  by (simp add: fat16_destroy_fd_def Let_def)

lemma fat16_close_rest [simp]: "rest (snd (fat16_close s a)) = rest s"
  by (simp add: fat16_close_def)

lemma fat16_get_entry_rest [rest_rules]: "fat16_get_entry s d c = Some (e, s') \<Longrightarrow> rest s' = rest s"
  by (auto simp: fat16_get_entry_def Let_def elim!: option_bindE dest!: disk_stream_read_rest)

text \<open>One round of the walk: the chain ends, fails, or goes on from the next cluster.\<close>

lemma cluster_walk_cases:
  assumes "cluster_walk s d c i n = Some (r, s')"
  obtains (stop) "n \<le> i" and "r = c" and "s' = s"
  | (fail) e where "i < n" and "fat16_get_entry s d c = Some (e, s')" and "r = - 1"
  | (next_cluster) e t where "i < n" and "fat16_get_entry s d c = Some (e, t)"
      and "cluster_walk t d (ucast e) (i + 1) n = Some (r, s')"
  using assms by (subst (asm) cluster_walk.simps) (auto simp: Let_def split: option.splits if_split_asm)

lemma cluster_walk_rest [rest_rules]: "cluster_walk s d c i n = Some (r, s') \<Longrightarrow> rest s' = rest s"
proof (induction "unat n - unat i" arbitrary: s c i rule: less_induct)
  case less
  from less.prems show ?case
  proof (cases rule: cluster_walk_cases)
    case (next_cluster e t)
    from less.hyps [OF unat_loop_dec next_cluster(3)] next_cluster(1)
    show ?thesis using fat16_get_entry_rest [OF next_cluster(2)] by simp
  qed (simp_all add: fat16_get_entry_rest)
qed

lemma cluster_from_offset_rest [rest_rules]:
  "fat16_get_cluster_from_offset s d c off = Some (e, s') \<Longrightarrow> rest s' = rest s"
  by (auto simp: fat16_get_cluster_from_offset_def Let_def dest: cluster_walk_rest split: if_splits)

lemma read_from_disk_rest [rest_rules]:
  assumes "fat16_read_from_disk s d c off n out = Some r"
  shows "rest (snd r) = rest s"
  by (rule fat16_read_from_disk.raw_induct [OF _ assms])
    (fastforce simp: Let_def elim!: option_bindE dest!: disk_stream_read_rest cluster_from_offset_rest
      split: if_splits prod.splits)

lemma load_directory_rest [rest_rules]: "fat16_load_directory s d f = Some (r, s') \<Longrightarrow> rest s' = rest s"
  by (auto simp: fat16_load_directory_def Let_def elim!: option_bindE dest!: rest_rules split: if_splits prod.splits)

lemma clone_file_rest [rest_rules]: "fat16_clone_file s f n = Some (r, s') \<Longrightarrow> rest s' = rest s"
  by (auto simp: fat16_clone_file_def elim!: option_bindE dest!: rest_rules split: if_splits prod.splits)

lemma new_unit_rest [rest_rules]:
  "fat16_new_fat_unit_for_directory_unit s d f = Some (r, s') \<Longrightarrow> rest s' = rest s"
  by (auto simp: fat16_new_fat_unit_for_directory_unit_def elim!: option_bindE dest!: rest_rules
      split: if_splits prod.splits)

lemma find_unit_loop_rest [rest_rules]:
  assumes "find_unit_loop s d dir nm i u = Some r"
  shows "rest (snd r) = rest s"
  by (rule find_unit_loop.raw_induct [OF _ assms])
    (fastforce simp: Let_def elim!: option_bindE dest!: new_unit_rest split: if_splits prod.splits)

lemma find_unit_rest [rest_rules]:
  "fat16_find_unit_in_directory s d dir nm = Some (r, s') \<Longrightarrow> rest s' = rest s"
  by (auto simp: fat16_find_unit_in_directory_def Let_def dest: find_unit_loop_rest)

lemma get_unit_loop_rest [rest_rules]:
  assumes "get_unit_loop s d u p = Some r"
  shows "rest (snd r) = rest s"
  by (rule get_unit_loop.raw_induct [OF _ assms])
    (fastforce elim!: option_bindE dest!: find_unit_rest split: if_splits prod.splits)

lemma get_unit_rest [rest_rules]: "fat16_get_unit s d p = Some (r, s') \<Longrightarrow> rest s' = rest s"
  by (auto simp: fat16_get_unit_def Let_def elim!: option_bindE dest!: find_unit_rest get_unit_loop_rest
      split: if_splits prod.splits)

lemma fat16_resolve_rest [rest_rules]: "fat16_resolve s d = Some (r, s') \<Longrightarrow> rest s' = rest s"
  by (auto simp: fat16_resolve_def Let_def elim!: option_bindE dest!: rest_rules split: if_splits prod.splits)

lemma fat16_open_rest [rest_rules]: "fat16_open s d p mode = Some (r, s') \<Longrightarrow> rest s' = rest s"
  by (auto simp: fat16_open_def Let_def elim!: option_bindE dest!: rest_rules split: if_splits prod.splits)

lemma read_members_loop_rest [rest_rules]:
  "read_members_loop s d fd off n out i k = Some (r, s') \<Longrightarrow> rest s' = rest s"
proof (induction s d fd off n out i k rule: read_members_loop.induct)
  case (1 s d fd off n out i k)
  let ?read = "fat16_read_from_disk s d (file_first_cluster (mem s) (unit_object (mem s) (fd_unit (mem s) fd)))
    off n out"
  show ?case
  proof (cases "i < k")
    case True
    then obtain v t where t: "?read = Some (v, t)"
      using 1(2) by (subst (asm) read_members_loop.simps) (auto split: option.splits)
    have "\<not> v < 0 \<Longrightarrow> read_members_loop t d fd (off + n) n (out + n) (i + 1) k = Some (r, s')"
      using 1(2) True t by (subst (asm) read_members_loop.simps) simp
    then have "v < 0 \<or> rest s' = rest t"
      using 1(1) [OF True t refl] by auto
    then show ?thesis
      using 1(2) True t read_from_disk_rest [OF t]
      by (subst (asm) read_members_loop.simps) (auto split: if_splits)
  qed (use 1(2) in \<open>simp add: read_members_loop.simps [of s d fd off n out i k]\<close>)
qed

lemma fat16_read_rest [rest_rules]: "fat16_read s d fd n k out = Some (r, s') \<Longrightarrow> rest s' = rest s"
  by (auto simp: fat16_read_def dest: read_members_loop_rest split: if_splits)

lemma fat16_stat_rest [simp]: "rest (snd (fat16_stat s fd st)) = rest s"
  by (simp add: fat16_stat_def Let_def)

lemma fat16_seek_rest [simp]: "rest (snd (fat16_seek s fd off w)) = rest s"
  by (simp add: fat16_seek_def)

end
