(* ===== verification/Vfs.thy ===== *)
theory Vfs
  imports Fat16
begin

text \<open>
  The virtual file system of \<^verbatim>\<open>fs/vfs/vfs.c\<close>, its C interface \<^verbatim>\<open>fs/file.c\<close>,
  and the table of disks of \<^verbatim>\<open>drivers/disk/disk.c\<close>, which the two layers share. The tables
  are global arrays of pointers. A call through a \<open>struct filesystem\<close> goes to the FAT16 driver
  when the pointer is the address of its static object; any other pointer is a jump to no code of the
  kernel, and has no successor state.
\<close>

section \<open>State\<close>

record fsst = mach +
  fs_list :: "u32 list"
  fd_list :: "u32 list"
  disks :: "u32 list"
  disks_already_initialised :: u8
  fat16_object :: u32

definition fsst_ok :: "'a fsst_scheme \<Rightarrow> bool" where
  "fsst_ok s \<longleftrightarrow> length (fs_list s) = FS_TOTAL_FILESYSTEMS
     \<and> length (fd_list s) = FS_TOTAL_FILE_DESCRIPTORS \<and> length (disks s) = MAX_NUMBER_OF_DISKS"

text \<open>\<open>struct file_descriptor\<close>: index, file system, its own descriptor, disk.\<close>

definition fd_index :: "memory \<Rightarrow> u32 \<Rightarrow> u32" where "fd_index m fd = load32 m fd"
definition fd_fs :: "memory \<Rightarrow> u32 \<Rightarrow> u32" where "fd_fs m fd = load32 m (fd + 4)"
definition fd_private :: "memory \<Rightarrow> u32 \<Rightarrow> u32" where "fd_private m fd = load32 m (fd + 8)"
definition fd_disk :: "memory \<Rightarrow> u32 \<Rightarrow> u32" where "fd_disk m fd = load32 m (fd + 12)"

section \<open>Calls through the operation table\<close>

definition call_resolve :: "'a fsst_scheme \<Rightarrow> u32 \<Rightarrow> u32 \<Rightarrow> (int \<times> 'a fsst_scheme) option" where
  "call_resolve s fs disk = (if fs = fat16_object s then fat16_resolve s disk else None)"

definition call_open ::
    "'a fsst_scheme \<Rightarrow> u32 \<Rightarrow> u32 \<Rightarrow> u32 \<Rightarrow> u8 \<Rightarrow> (u32 \<times> 'a fsst_scheme) option" where
  "call_open s fs disk path mode = (if fs = fat16_object s then fat16_open s disk path mode else None)"

definition call_read ::
    "'a fsst_scheme \<Rightarrow> u32 \<Rightarrow> u32 \<Rightarrow> u32 \<Rightarrow> u32 \<Rightarrow> u32 \<Rightarrow> u32 \<Rightarrow> (int \<times> 'a fsst_scheme) option" where
  "call_read s fs disk fd sz nmemb dest =
     (if fs = fat16_object s then fat16_read s disk fd sz nmemb dest else None)"

definition call_seek ::
    "'a fsst_scheme \<Rightarrow> u32 \<Rightarrow> u32 \<Rightarrow> u32 \<Rightarrow> u8 \<Rightarrow> (int \<times> 'a fsst_scheme) option" where
  "call_seek s fs fd offset whence =
     (if fs = fat16_object s then Some (fat16_seek s fd offset whence) else None)"

definition call_close :: "'a fsst_scheme \<Rightarrow> u32 \<Rightarrow> u32 \<Rightarrow> (int \<times> 'a fsst_scheme) option" where
  "call_close s fs fd = (if fs = fat16_object s then Some (fat16_close s fd) else None)"

definition call_stat :: "'a fsst_scheme \<Rightarrow> u32 \<Rightarrow> u32 \<Rightarrow> u32 \<Rightarrow> (int \<times> 'a fsst_scheme) option" where
  "call_stat s fs fd stat = (if fs = fat16_object s then Some (fat16_stat s fd stat) else None)"

text \<open>\<open>fat16_init\<close> writes the name into the static object.\<close>

definition fat16_init :: "'a fsst_scheme \<Rightarrow> u32 \<times> 'a fsst_scheme" where
  "fat16_init s =
     (let a = fat16_object s;
          m = (mem s)(a := 0x66, a + 1 := 0x61, a + 2 := 0x74, a + 3 := 0x31, a + 4 := 0x36, a + 5 := 0)
      in (a, s\<lparr>mem := m\<rparr>))"

section \<open>The tables\<close>

definition vfs_init :: "'a fsst_scheme \<Rightarrow> 'a fsst_scheme" where
  "vfs_init s = s\<lparr>fs_list := replicate FS_TOTAL_FILESYSTEMS 0,
     fd_list := replicate FS_TOTAL_FILE_DESCRIPTORS 0\<rparr>"

definition vfs_get_file_descriptor :: "'a fsst_scheme \<Rightarrow> u32 \<Rightarrow> u32" where
  "vfs_get_file_descriptor s fd =
     (if unat fd < FS_TOTAL_FILE_DESCRIPTORS then fd_list s ! unat fd else 0)"

text \<open>The index of the first null entry of a table, the scan of \<open>vfs_new_file_descriptor\<close> and of
  \<open>vfs_get_free_fs\<close>.\<close>

fun first_null :: "nat \<Rightarrow> u32 list \<Rightarrow> nat option" where
  "first_null i [] = None"
| "first_null i (p # ps) = (if p = 0 then Some i else first_null (Suc i) ps)"

definition vfs_new_file_descriptor :: "'a fsst_scheme \<Rightarrow> (u32 \<times> 'a fsst_scheme) option" where
  "vfs_new_file_descriptor s =
     (case first_null 0 (fd_list s) of
        None \<Rightarrow> Some (0, s)
      | Some index \<Rightarrow> do {
          (new_fd, s) \<leftarrow> kzalloc s 16;
          let s = set32 new_fd (of_nat index) s;
          let s = s\<lparr>fd_list := (fd_list s)[index := new_fd]\<rparr>;
          Some (fd_list s ! index, s) })"

definition vfs_get_free_fs :: "'a fsst_scheme \<Rightarrow> nat option" where
  "vfs_get_free_fs s = first_null 0 (fs_list s)"

definition vfs_attach :: "'a fsst_scheme \<Rightarrow> u32 \<Rightarrow> int \<times> 'a fsst_scheme" where
  "vfs_attach s fs =
     (case vfs_get_free_fs s of
        None \<Rightarrow> (- errno ERR_FS_FAIL, s)
      | Some index \<Rightarrow> (errno SUCCESS, s\<lparr>fs_list := (fs_list s)[index := fs]\<rparr>))"

function vfs_resolve_loop :: "'a fsst_scheme \<Rightarrow> u32 \<Rightarrow> nat \<Rightarrow> (u32 \<times> 'a fsst_scheme) option" where
  "vfs_resolve_loop s disk index =
     (if index < FS_TOTAL_FILESYSTEMS then
        if fs_list s ! index \<noteq> 0 then
          case call_resolve s (fs_list s ! index) disk of
            None \<Rightarrow> None
          | Some (res, s) \<Rightarrow>
              if res = errno SUCCESS then Some (fs_list s ! index, s)
              else vfs_resolve_loop s disk (index + 1)
        else vfs_resolve_loop s disk (index + 1)
      else Some (0, s))"
  by pat_completeness auto
termination
  by (relation "measure (\<lambda>(s, d, i). FS_TOTAL_FILESYSTEMS - i)") auto

declare vfs_resolve_loop.simps [simp del, loop_simps]

definition vfs_resolve :: "'a fsst_scheme \<Rightarrow> u32 \<Rightarrow> (u32 \<times> 'a fsst_scheme) option" where
  "vfs_resolve s disk = vfs_resolve_loop s disk 0"

section \<open>Disks\<close>

fun alloc_disks :: "nat \<Rightarrow> 'a fsst_scheme \<Rightarrow> 'a fsst_scheme option" where
  "alloc_disks 0 s = Some s"
| "alloc_disks (Suc n) s =
     do { (d, s) \<leftarrow> kzalloc s 16;
          alloc_disks n (s\<lparr>disks := (disks s)[MAX_NUMBER_OF_DISKS - Suc n := d]\<rparr>) }"

definition disk_index :: "u8 \<Rightarrow> nat" where "disk_index disk_id = nat (sint disk_id - 65)"

definition disk_init :: "'a fsst_scheme \<Rightarrow> u8 \<Rightarrow> (u32 \<times> 'a fsst_scheme) option" where
  "disk_init s disk_id =
     do { s \<leftarrow> (if disks_already_initialised s = 0
               then do { s \<leftarrow> alloc_disks MAX_NUMBER_OF_DISKS s; Some (s\<lparr>disks_already_initialised := 1\<rparr>) }
               else Some s);
          if sint disk_id < 65 \<or> 65 + int MAX_NUMBER_OF_DISKS \<le> sint disk_id then Some (0, s)
          else do {
            let d = disks s ! disk_index disk_id;
            let s = set8 d disk_id s;
            let s = set32 (d + 4) 512 s;
            (fs, s) \<leftarrow> vfs_resolve s d;
            Some (d, set32 (d + 8) fs s) } }"

text \<open>\<open>disk_get\<close> has no bounds check; outside the table there is no value.\<close>

definition disk_get :: "'a fsst_scheme \<Rightarrow> u8 \<Rightarrow> u32 option" where
  "disk_get s disk_id =
     (if 65 \<le> sint disk_id \<and> sint disk_id < 65 + int MAX_NUMBER_OF_DISKS
      then Some (disks s ! disk_index disk_id) else None)"

section \<open>Files\<close>

abbreviation (input) INVALID_MODE :: u8 where "INVALID_MODE \<equiv> 0x62"

definition vfs_fopen :: "'a fsst_scheme \<Rightarrow> u32 \<Rightarrow> u8 \<Rightarrow> (int \<times> 'a fsst_scheme) option" where
  "vfs_fopen s filename mode =
     (if mode = INVALID_MODE then Some (- errno ERR_FS_INV_FILE_MODE, s)
      else do {
        (file_path, s) \<leftarrow> parse_path s filename;
        let drive_id = path_drive_id (mem s) file_path;
        if sint drive_id < 65 \<or> 90 < sint drive_id then Some (- errno ERR_FS_FOPEN_FAILED, s)
        else do {
          disk \<leftarrow> disk_get s drive_id;
          (file_data, s) \<leftarrow> call_open s (disk_fs (mem s) disk) disk file_path mode;
          if file_data = 0 then Some (- errno ERR_FS_FOPEN_FAILED, s)
          else do {
            (fd, s) \<leftarrow> vfs_new_file_descriptor s;
            if fd = 0 then Some (- errno ERR_FS_FOPEN_FAILED, s)
            else do {
              let s = set32 (fd + 12) disk s;
              let s = set32 (fd + 4) (disk_fs (mem s) disk) s;
              let s = set32 (fd + 8) file_data s;
              Some (sint (fd_index (mem s) fd), s) } } } })"

definition vfs_fread ::
    "'a fsst_scheme \<Rightarrow> u32 \<Rightarrow> u32 \<Rightarrow> u32 \<Rightarrow> int \<Rightarrow> (int \<times> 'a fsst_scheme) option" where
  "vfs_fread s dest sz nmemb fd =
     (if fd < 0 \<or> int FS_TOTAL_FILE_DESCRIPTORS \<le> fd then Some (- errno ERR_INVARG, s)
      else let d = vfs_get_file_descriptor s (word_of_int fd)
           in if d = 0 then Some (- errno ERR_FD_NOT_FOUND, s)
              else do {
                (_, s) \<leftarrow> call_read s (fd_fs (mem s) d) (fd_disk (mem s) d) (fd_private (mem s) d) sz nmemb dest;
                Some (errno SUCCESS, s) })"

definition vfs_fseek :: "'a fsst_scheme \<Rightarrow> int \<Rightarrow> u32 \<Rightarrow> u8 \<Rightarrow> (int \<times> 'a fsst_scheme) option" where
  "vfs_fseek s fd offset whence =
     (let d = vfs_get_file_descriptor s (word_of_int fd)
      in if d = 0 then Some (- errno ERR_FD_NOT_FOUND, s)
         else do { (_, s) \<leftarrow> call_seek s (fd_fs (mem s) d) (fd_private (mem s) d) offset whence;
                   Some (errno SUCCESS, s) })"

definition vfs_fclose :: "'a fsst_scheme \<Rightarrow> int \<Rightarrow> (int \<times> 'a fsst_scheme) option" where
  "vfs_fclose s fd =
     (let d = vfs_get_file_descriptor s (word_of_int fd)
      in if d = 0 then Some (- errno ERR_FD_NOT_FOUND, s)
         else do {
           let s = s\<lparr>fd_list := (fd_list s)[unat (fd_index (mem s) d) := 0]\<rparr>;
           (_, s) \<leftarrow> call_close s (fd_fs (mem s) d) (fd_private (mem s) d);
           Some (errno SUCCESS, s) })"

definition vfs_fstat :: "'a fsst_scheme \<Rightarrow> int \<Rightarrow> u32 \<Rightarrow> (int \<times> 'a fsst_scheme) option" where
  "vfs_fstat s fd stat =
     (let d = vfs_get_file_descriptor s (word_of_int fd)
      in if d = 0 then Some (- errno ERR_FD_NOT_FOUND, s)
         else do { (_, s) \<leftarrow> call_stat s (fd_fs (mem s) d) (fd_private (mem s) d) stat;
                   Some (errno SUCCESS, s) })"

definition file_init :: "'a fsst_scheme \<Rightarrow> 'a fsst_scheme" where
  "file_init s = vfs_init s"

definition fopen :: "'a fsst_scheme \<Rightarrow> u32 \<Rightarrow> u8 \<Rightarrow> (int \<times> 'a fsst_scheme) option" where
  "fopen s filename mode = vfs_fopen s filename mode"

definition fread :: "'a fsst_scheme \<Rightarrow> u32 \<Rightarrow> u32 \<Rightarrow> u32 \<Rightarrow> int \<Rightarrow> (int \<times> 'a fsst_scheme) option" where
  "fread s dest sz nmemb fd = vfs_fread s dest sz nmemb fd"

definition fseek :: "'a fsst_scheme \<Rightarrow> int \<Rightarrow> u32 \<Rightarrow> u8 \<Rightarrow> (int \<times> 'a fsst_scheme) option" where
  "fseek s fd offset whence = vfs_fseek s fd offset whence"

definition fclose :: "'a fsst_scheme \<Rightarrow> int \<Rightarrow> (int \<times> 'a fsst_scheme) option" where
  "fclose s fd = vfs_fclose s fd"

definition fstat :: "'a fsst_scheme \<Rightarrow> int \<Rightarrow> u32 \<Rightarrow> (int \<times> 'a fsst_scheme) option" where
  "fstat s fd stat = vfs_fstat s fd stat"

section \<open>What the file calls keep\<close>

text \<open>Besides memory, the blocks of the heap and the history of the ports, a file call changes entries of
  the table of descriptors.\<close>

definition file_kept :: "'a fsst_scheme \<Rightarrow> 'a fsst_scheme \<Rightarrow> bool" where
  "file_kept s s' \<longleftrightarrow> rest s' = (rest s)\<lparr>fd_list := fd_list s'\<rparr> \<and> length (fd_list s') = length (fd_list s)"

lemma rest_fd_list [simp]:
  fixes s :: "'a fsst_scheme"
  shows "rest (s\<lparr>fd_list := l\<rparr>) = (rest s)\<lparr>fd_list := l\<rparr>" and "fd_list (rest s) = fd_list s"
  by (simp_all add: rest_def)

lemma rest_fsst:
  fixes s s' :: "'a fsst_scheme"
  assumes "rest s' = rest s"
  shows "fd_list s' = fd_list s" and "file_kept s s'"
proof -
  show fd: "fd_list s' = fd_list s" using arg_cong [OF assms, of fd_list] by simp
  have "rest s = (rest s)\<lparr>fd_list := fd_list (rest s)\<rparr>" by simp
  then show "file_kept s s'" using assms fd by (simp add: file_kept_def)
qed

lemma file_kept_ok: "file_kept s s' \<Longrightarrow> fsst_ok s \<Longrightarrow> fsst_ok s'"
proof -
  assume k: "file_kept s s'" and ok: "fsst_ok s"
  have f: "fs_list (rest u) = fs_list u" "disks (rest u) = disks u" for u :: "'a fsst_scheme"
    by (simp_all add: rest_def)
  have e: "rest s' = (rest s)\<lparr>fd_list := fd_list s'\<rparr>" and l: "length (fd_list s') = length (fd_list s)"
    using k by (simp_all add: file_kept_def)
  have "fs_list s' = fs_list s" "disks s' = disks s"
    using f [of s'] f [of s] unfolding e by simp_all
  then show ?thesis using ok l by (simp add: fsst_ok_def)
qed

lemma call_rest [rest_rules]:
  "call_open s fs d path mode = Some (v, s') \<Longrightarrow> rest s' = rest s"
  "call_read s fs d fd sz n dest = Some (r, s') \<Longrightarrow> rest s' = rest s"
  "call_seek s fs fd off w = Some (r, s') \<Longrightarrow> rest s' = rest s"
  "call_close s fs fd = Some (r, s') \<Longrightarrow> rest s' = rest s"
  "call_stat s fs fd st = Some (r, s') \<Longrightarrow> rest s' = rest s"
proof -
  have "fat16_seek s fd off w = (r, s') \<Longrightarrow> rest s' = rest s" "fat16_close s fd = (r, s') \<Longrightarrow> rest s' = rest s"
    "fat16_stat s fd st = (r, s') \<Longrightarrow> rest s' = rest s"
    using fat16_seek_rest [of s fd off w] fat16_close_rest [of s fd] fat16_stat_rest [of s fd st] by simp_all
  then show "call_open s fs d path mode = Some (v, s') \<Longrightarrow> rest s' = rest s"
    "call_read s fs d fd sz n dest = Some (r, s') \<Longrightarrow> rest s' = rest s"
    "call_seek s fs fd off w = Some (r, s') \<Longrightarrow> rest s' = rest s"
    "call_close s fs fd = Some (r, s') \<Longrightarrow> rest s' = rest s"
    "call_stat s fs fd st = Some (r, s') \<Longrightarrow> rest s' = rest s"
    by (auto simp: call_open_def call_read_def call_seek_def call_close_def call_stat_def
      dest: fat16_open_rest fat16_read_rest split: if_splits)
qed

lemma first_null_Some:
  "first_null i ps = Some k \<Longrightarrow> i \<le> k \<and> k - i < length ps \<and> ps ! (k - i) = 0 \<and> (\<forall>j<k - i. ps ! j \<noteq> 0)"
proof (induction ps arbitrary: i)
  case (Cons p ps)
  show ?case
  proof (cases "p = 0")
    case False
    then have "first_null (Suc i) ps = Some k" using Cons.prems by simp
    note ih = Cons.IH [OF this]
    then have "k - i = Suc (k - Suc i)" by arith
    then show ?thesis using ih False by (auto simp: less_Suc_eq_0_disj)
  qed (use Cons.prems in simp)
qed simp

lemma first_null_None: "first_null i ps = None \<longleftrightarrow> 0 \<notin> set ps"
  by (induction ps arbitrary: i) auto

lemma vfs_fread_kept:
  assumes "vfs_fread s dest sz n fd = Some (r, s')"
  shows "rest s' = rest s" and "r \<in> {errno SUCCESS, - errno ERR_INVARG, - errno ERR_FD_NOT_FOUND}"
  using assms by (auto simp: vfs_fread_def Let_def elim!: option_bindE dest: call_rest split: if_splits)

lemma vfs_fseek_kept:
  assumes "vfs_fseek s fd off w = Some (r, s')"
  shows "rest s' = rest s" and "r \<in> {errno SUCCESS, - errno ERR_FD_NOT_FOUND}"
  using assms by (auto simp: vfs_fseek_def Let_def elim!: option_bindE dest: call_rest split: if_splits)

lemma vfs_fstat_kept:
  assumes "vfs_fstat s fd st = Some (r, s')"
  shows "rest s' = rest s" and "r \<in> {errno SUCCESS, - errno ERR_FD_NOT_FOUND}"
  using assms by (auto simp: vfs_fstat_def Let_def elim!: option_bindE dest: call_rest split: if_splits)

text \<open>\<open>fclose\<close> clears the entry that the descriptor names, and only that one.\<close>

lemma vfs_fclose_kept:
  assumes "vfs_fclose s fd = Some (r, s')"
  shows "file_kept s s'"
    and "r = - errno ERR_FD_NOT_FOUND \<and> s' = s \<or> r = errno SUCCESS \<and> fd_list s'
      = (fd_list s)[unat (fd_index (mem s) (vfs_get_file_descriptor s (word_of_int fd))) := 0]"
proof -
  let ?d = "vfs_get_file_descriptor s (word_of_int fd)"
  let ?t = "s\<lparr>fd_list := (fd_list s)[unat (fd_index (mem s) ?d) := 0]\<rparr>"
  show "r = - errno ERR_FD_NOT_FOUND \<and> s' = s \<or> r = errno SUCCESS \<and> fd_list s'
      = (fd_list s)[unat (fd_index (mem s) ?d) := 0]" and "file_kept s s'"
  proof -
    have "?d = 0 \<and> r = - errno ERR_FD_NOT_FOUND \<and> s' = s
      \<or> r = errno SUCCESS \<and> (\<exists>v. call_close ?t (fd_fs (mem s) ?d) (fd_private (mem s) ?d) = Some (v, s'))"
      using assms by (auto simp: vfs_fclose_def Let_def elim!: option_bindE split: if_splits)
    then consider "r = - errno ERR_FD_NOT_FOUND" "s' = s" | "r = errno SUCCESS" "rest s' = rest ?t"
      using call_rest(4) by blast
    then have "(r = - errno ERR_FD_NOT_FOUND \<and> s' = s \<or> r = errno SUCCESS \<and> fd_list s'
      = (fd_list s)[unat (fd_index (mem s) ?d) := 0]) \<and> file_kept s s'"
    proof cases
      case 1
      then show ?thesis using rest_fsst(2) [of s s] by simp
    next
      case 2
      then show ?thesis using rest_fsst(1) [OF 2(2)] by (simp add: file_kept_def)
    qed
    then show "r = - errno ERR_FD_NOT_FOUND \<and> s' = s \<or> r = errno SUCCESS \<and> fd_list s'
      = (fd_list s)[unat (fd_index (mem s) ?d) := 0]" and "file_kept s s'" by blast+
  qed
qed

text \<open>A new descriptor goes into the first free entry.\<close>

lemma vfs_new_fd_spec:
  assumes "vfs_new_file_descriptor s = Some (d, s')" and "d \<noteq> 0"
  obtains i where "i < length (fd_list s)" and "fd_list s ! i = 0" and "\<forall>j<i. fd_list s ! j \<noteq> 0"
    and "rest s' = (rest s)\<lparr>fd_list := (fd_list s)[i := d]\<rparr>" and "load32 (mem s') d = of_nat i"
proof -
  obtain i where i: "first_null 0 (fd_list s) = Some i"
    using assms by (cases "first_null 0 (fd_list s)") (auto simp: vfs_new_file_descriptor_def)
  obtain a t where k: "kzalloc s 16 = Some (a, t)"
    using assms(1) i by (auto simp: vfs_new_file_descriptor_def elim!: option_bindE)
  note f = first_null_Some [OF i] and r = kzalloc_rest [OF k]
  have l: "fd_list t = fd_list s" by (rule rest_fsst(1) [OF r])
  have e: "d = a" "s' = (set32 a (of_nat i) t)\<lparr>fd_list := (fd_list s)[i := a]\<rparr>"
    using assms(1) i k f l by (auto simp: vfs_new_file_descriptor_def set32_def)
  show ?thesis
    by (rule that [of i]) (use f e r in \<open>simp_all add: set32_def\<close>)
qed

lemma vfs_new_fd_null:
  assumes "vfs_new_file_descriptor s = Some (0, s')"
  shows "rest s' = rest s"
proof (cases "first_null 0 (fd_list s)")
  case None
  then show ?thesis using assms by (simp add: vfs_new_file_descriptor_def)
next
  case (Some i)
  then obtain a t where k: "kzalloc s 16 = Some (a, t)"
    using assms(1) by (auto simp: vfs_new_file_descriptor_def elim!: option_bindE)
  note f = first_null_Some [OF Some] and r = kzalloc_rest [OF k]
  have l: "fd_list t = fd_list s" by (rule rest_fsst(1) [OF r])
  have "a = 0" "s' = (set32 a (of_nat i) t)\<lparr>fd_list := (fd_list s)[i := a]\<rparr>"
    using assms(1) Some k f l by (auto simp: vfs_new_file_descriptor_def set32_def)
  moreover have "(fd_list s)[i := 0] = fd_list s" using f by (metis diff_zero list_update_id)
  moreover have "(rest s)\<lparr>fd_list := fd_list (rest s)\<rparr> = rest s" by simp
  ultimately show ?thesis using r by simp
qed

text \<open>The branches of \<open>vfs_fopen\<close>.\<close>

lemma vfs_fopen_cases:
  assumes "vfs_fopen s name mode = Some (r, s')"
  obtains (mode) "r = - errno ERR_FS_INV_FILE_MODE" and "s' = s"
  | (fail) "r = - errno ERR_FS_FOPEN_FAILED" and "rest s' = rest s"
  | (ok) disk v t d u where "rest t = rest s" and "vfs_new_file_descriptor t = Some (d, u)" and "d \<noteq> 0"
      and "s' = set32 (d + 8) v (set32 (d + 4) (disk_fs (mem (set32 (d + 12) disk u)) disk) (set32 (d + 12) disk u))"
      and "r = sint (fd_index (mem s') d)"
proof (cases "mode = INVALID_MODE")
  case True
  then show ?thesis using assms that(1) by (simp add: vfs_fopen_def)
next
  case False
  obtain p t1 where p: "parse_path s name = Some (p, t1)"
    using assms False by (auto simp: vfs_fopen_def elim!: option_bindE)
  note r1 = parse_path_rest [OF p]
  show ?thesis
  proof (cases "sint (path_drive_id (mem t1) p) < 65 \<or> 90 < sint (path_drive_id (mem t1) p)")
    case True
    then show ?thesis using assms False p r1 that(2) by (simp add: vfs_fopen_def Let_def)
  next
    case drive: False
    obtain disk v t where o: "disk_get t1 (path_drive_id (mem t1) p) = Some disk"
      "call_open t1 (disk_fs (mem t1) disk) disk p mode = Some (v, t)"
      using assms False p drive by (auto simp: vfs_fopen_def Let_def elim!: option_bindE)
    have r2: "rest t = rest s" using call_rest(1) [OF o(2)] r1 by simp
    show ?thesis
    proof (cases "v = 0")
      case True
      then show ?thesis using assms False p drive o r2 that(2) by (simp add: vfs_fopen_def Let_def)
    next
      case v: False
      obtain d u where n: "vfs_new_file_descriptor t = Some (d, u)"
        using assms False p drive o v by (auto simp: vfs_fopen_def Let_def elim!: option_bindE)
      show ?thesis
      proof (cases "d = 0")
        case True
        then show ?thesis
          using assms False p drive o v n r2 vfs_new_fd_null [of t u] that(2) by (simp add: vfs_fopen_def Let_def)
      next
        case d: False
        show ?thesis
          by (rule that(3) [OF r2 n d]) (use assms False p drive o v n d in \<open>auto simp: vfs_fopen_def Let_def\<close>)
      qed
    qed
  qed
qed

lemma vfs_fopen_spec:
  assumes "vfs_fopen s name mode = Some (r, s')" and "length (fd_list s) = FS_TOTAL_FILE_DESCRIPTORS"
  shows "(r = - errno ERR_FS_INV_FILE_MODE \<or> r = - errno ERR_FS_FOPEN_FAILED) \<and> rest s' = rest s
    \<or> (\<exists>i d. r = int i \<and> i < FS_TOTAL_FILE_DESCRIPTORS \<and> d \<noteq> 0 \<and> fd_list s ! i = 0 \<and> (\<forall>j<i. fd_list s ! j \<noteq> 0)
         \<and> rest s' = (rest s)\<lparr>fd_list := (fd_list s)[i := d]\<rparr> \<and> fd_index (mem s') d = of_nat i)"
  using assms(1)
proof (cases rule: vfs_fopen_cases)
  case (ok disk v t d u)
  have l: "fd_list t = fd_list s" by (rule rest_fsst(1) [OF ok(1)])
  obtain i where n: "i < length (fd_list t)" "fd_list t ! i = 0" "\<forall>j<i. fd_list t ! j \<noteq> 0"
    "rest u = (rest t)\<lparr>fd_list := (fd_list t)[i := d]\<rparr>" "load32 (mem u) d = of_nat i"
    by (rule vfs_new_fd_spec [OF ok(2,3)]) (rule that)
  have ix: "fd_index (mem s') d = of_nat i"
    using n(5) by (simp add: ok(4) fd_index_def set32_def apart4_def)
  have i: "i < 1024" using n(1) assms(2) by (simp add: l)
  have "sint (of_nat i :: u32) = int i"
  proof -
    have "signed_take_bit 31 (int i) = int i" using i by (intro signed_take_bit_int_eq_self) simp_all
    then show ?thesis using sint_sbintrunc' [of "int i", where ?'a = 32] by simp
  qed
  then have "r = int i" using ok(5) by (simp add: ix)
  moreover have "rest s' = (rest s)\<lparr>fd_list := (fd_list s)[i := d]\<rparr>"
    using n(4) ok(1) l by (simp add: ok(4))
  ultimately have "r = int i \<and> i < FS_TOTAL_FILE_DESCRIPTORS \<and> d \<noteq> 0 \<and> fd_list s ! i = 0 \<and> (\<forall>j<i. fd_list s ! j \<noteq> 0)
         \<and> rest s' = (rest s)\<lparr>fd_list := (fd_list s)[i := d]\<rparr> \<and> fd_index (mem s') d = of_nat i"
    using i n(2,3) ix ok(3) unfolding l by (intro conjI)
  then show ?thesis by blast
qed simp_all

lemma vfs_fopen_kept:
  assumes "vfs_fopen s name mode = Some (r, s')" and "length (fd_list s) = FS_TOTAL_FILE_DESCRIPTORS"
  shows "file_kept s s'"
  using vfs_fopen_spec [OF assms]
proof (elim disjE exE conjE)
  fix i d assume "rest s' = (rest s)\<lparr>fd_list := (fd_list s)[i := d]\<rparr>"
  moreover from arg_cong [OF this, of fd_list] have "fd_list s' = (fd_list s)[i := d]" by simp
  ultimately show ?thesis by (simp add: file_kept_def)
qed (simp_all add: rest_fsst(2))

text \<open>A descriptor \<open>r\<close> has been opened: the lowest free number, in whose entry there is now a
  structure that knows it.\<close>

definition opened :: "'a fsst_scheme \<Rightarrow> int \<Rightarrow> 'a fsst_scheme \<Rightarrow> bool" where
  "opened s r s' \<longleftrightarrow> 0 \<le> r \<and> nat r < FS_TOTAL_FILE_DESCRIPTORS \<and> fd_list s ! nat r = 0
     \<and> 0 \<notin> set (take (nat r) (fd_list s)) \<and> fd_list s' ! nat r \<noteq> 0
     \<and> fd_list s' = (fd_list s)[nat r := fd_list s' ! nat r]
     \<and> fd_index (mem s') (fd_list s' ! nat r) = word_of_int r"

text \<open>Each of the calls on a state whose tables have their lengths.\<close>

lemma not_in_take: "\<forall>j<i. xs ! j \<noteq> x \<Longrightarrow> x \<notin> set (take i xs)"
  by (auto simp: in_set_conv_nth)

lemma fopen_typed:
  assumes "fsst_ok s" and "fopen s name mode = Some (r, s')"
  shows "fsst_ok s'" and "file_kept s s'"
    and "r \<in> {- errno ERR_FS_INV_FILE_MODE, - errno ERR_FS_FOPEN_FAILED} \<and> fd_list s' = fd_list s
       \<or> opened s r s'"
proof -
  have len: "length (fd_list s) = FS_TOTAL_FILE_DESCRIPTORS" using assms(1) by (simp add: fsst_ok_def)
  have f: "vfs_fopen s name mode = Some (r, s')" using assms(2) by (simp only: fopen_def)
  show k: "file_kept s s'" by (rule vfs_fopen_kept [OF f len])
  show "fsst_ok s'" by (rule file_kept_ok [OF k assms(1)])
  from vfs_fopen_spec [OF f len]
  show "r \<in> {- errno ERR_FS_INV_FILE_MODE, - errno ERR_FS_FOPEN_FAILED} \<and> fd_list s' = fd_list s
       \<or> opened s r s'"
  proof (elim disjE exE conjE)
    fix i d assume a: "r = int i" "i < 1024" "d \<noteq> 0" "fd_list s ! i = 0" "\<forall>j<i. fd_list s ! j \<noteq> 0"
      "rest s' = (rest s)\<lparr>fd_list := (fd_list s)[i := d]\<rparr>" "fd_index (mem s') d = of_nat i"
    from arg_cong [OF a(6), of fd_list] have "fd_list s' = (fd_list s)[i := d]" by simp
    then have "opened s r s'"
      using a(1-4,7) not_in_take [OF a(5)] len by (simp add: opened_def)
    then show ?thesis ..
  qed (use rest_fsst(1) in blast)+
qed

lemma rest_typed:
  assumes "fsst_ok s" and "rest s' = rest s"
  shows "fsst_ok s' \<and> file_kept s s' \<and> fd_list s' = fd_list s"
  using rest_fsst [OF assms(2)] file_kept_ok [OF rest_fsst(2) [OF assms(2)] assms(1)] by simp

lemma fclose_typed:
  assumes "fsst_ok s" and "fclose s fd = Some (r, s')"
  shows "fsst_ok s' \<and> file_kept s s'
      \<and> (r = - errno ERR_FD_NOT_FOUND \<and> s' = s \<or> r = errno SUCCESS \<and> fd_list s'
          = (fd_list s)[unat (fd_index (mem s) (vfs_get_file_descriptor s (word_of_int fd))) := 0])"
  using vfs_fclose_kept [OF assms(2) [unfolded fclose_def]] file_kept_ok assms(1) by blast

section \<open>Properties\<close>

text \<open>C20: the file calls, whenever they return, keep the lengths of the three tables and change nothing
  but memory, the blocks of the heap, the history of the ports and entries of the table of descriptors;
  \<open>fread\<close>, \<open>fseek\<close> and \<open>fstat\<close> change none of these entries, \<open>fclose\<close> clears the entry
  the descriptor names. \<open>fopen\<close> answers one of its two errors with the table unchanged, or the lowest
  number that was free, where it puts a descriptor that knows this number. \<open>fread\<close> has no answer for
  a read that fails.\<close>

theorem file_calls_keep_tables:
  assumes "fsst_ok s"
  shows "(fopen s name mode = Some (r, s') \<longrightarrow> fsst_ok s' \<and> file_kept s s'
      \<and> (r \<in> {- errno ERR_FS_INV_FILE_MODE, - errno ERR_FS_FOPEN_FAILED} \<and> fd_list s' = fd_list s
         \<or> opened s r s'))
    \<and> (fread s dest sz n fd = Some (r, s') \<longrightarrow> fsst_ok s' \<and> file_kept s s' \<and> fd_list s' = fd_list s
      \<and> r \<in> {errno SUCCESS, - errno ERR_INVARG, - errno ERR_FD_NOT_FOUND})
    \<and> (fseek s fd off w = Some (r, s') \<longrightarrow> fsst_ok s' \<and> file_kept s s' \<and> fd_list s' = fd_list s
      \<and> r \<in> {errno SUCCESS, - errno ERR_FD_NOT_FOUND})
    \<and> (fstat s fd st = Some (r, s') \<longrightarrow> fsst_ok s' \<and> file_kept s s' \<and> fd_list s' = fd_list s
      \<and> r \<in> {errno SUCCESS, - errno ERR_FD_NOT_FOUND})
    \<and> (fclose s fd = Some (r, s') \<longrightarrow> fsst_ok s' \<and> file_kept s s'
      \<and> (r = - errno ERR_FD_NOT_FOUND \<and> s' = s \<or> r = errno SUCCESS \<and> fd_list s'
          = (fd_list s)[unat (fd_index (mem s) (vfs_get_file_descriptor s (word_of_int fd))) := 0]))"
proof (intro conjI impI)
  assume "fread s dest sz n fd = Some (r, s')"
  note v = vfs_fread_kept [OF this [unfolded fread_def]] and t = rest_typed [OF assms v(1)]
  from t v(2) show "fsst_ok s'" "file_kept s s'" "fd_list s' = fd_list s"
    "r \<in> {errno SUCCESS, - errno ERR_INVARG, - errno ERR_FD_NOT_FOUND}" by blast+
next
  assume "fseek s fd off w = Some (r, s')"
  note v = vfs_fseek_kept [OF this [unfolded fseek_def]] and t = rest_typed [OF assms v(1)]
  from t v(2) show "fsst_ok s'" "file_kept s s'" "fd_list s' = fd_list s"
    "r \<in> {errno SUCCESS, - errno ERR_FD_NOT_FOUND}" by blast+
next
  assume "fstat s fd st = Some (r, s')"
  note v = vfs_fstat_kept [OF this [unfolded fstat_def]] and t = rest_typed [OF assms v(1)]
  from t v(2) show "fsst_ok s'" "file_kept s s'" "fd_list s' = fd_list s"
    "r \<in> {errno SUCCESS, - errno ERR_FD_NOT_FOUND}" by blast+
next
  assume "fopen s name mode = Some (r, s')"
  note v = fopen_typed [OF assms this]
  show "fsst_ok s'" "file_kept s s'" by (fact v)+
  show "r \<in> {- errno ERR_FS_INV_FILE_MODE, - errno ERR_FS_FOPEN_FAILED} \<and> fd_list s' = fd_list s
         \<or> opened s r s'" by (fact v)
next
  assume "fclose s fd = Some (r, s')"
  note v = fclose_typed [OF assms this]
  show "fsst_ok s'" "file_kept s s'" using v by blast+
  show "r = - errno ERR_FD_NOT_FOUND \<and> s' = s \<or> r = errno SUCCESS \<and> fd_list s'
          = (fd_list s)[unat (fd_index (mem s) (vfs_get_file_descriptor s (word_of_int fd))) := 0]"
    using v by blast
qed

definition demo_fs :: fsst where
  "demo_fs = \<lparr>mem = store32 (\<lambda>_. 0) 0x6004 0x9000, kheap = demo_empty, VGA_BASE = 0xB8000,
     cursor_x = 0, cursor_y = 0, device = (\<lambda>h p. 0), io_log = [], cr3 = 0, data_segment = 0x10,
     current_page_directory = 0, kernel_space = 0, local_addr = (\<lambda>l. 0x1FE000),
     fs_list = 0x9000 # replicate 15 0, fd_list = 0x6000 # replicate 1023 0, disks = replicate 26 0,
     disks_already_initialised = 1, fat16_object = 0x9000\<rparr>"

theorem file_calls_keep_tables_witness:
  "\<exists>s'. fclose demo_fs 0 = Some (0, s') \<and> fsst_ok s' \<and> fd_list s' ! 0 = 0 \<and> length (fd_list s') = 1024"
proof -
  have ok: "fsst_ok demo_fs" by (simp add: fsst_ok_def demo_fs_def)
  have d: "vfs_get_file_descriptor demo_fs (word_of_int 0) = 0x6000"
    by (simp add: vfs_get_file_descriptor_def demo_fs_def)
  have f: "fd_fs (mem demo_fs) 0x6000 = 0x9000" "fat16_object demo_fs = 0x9000"
    by (simp_all add: demo_fs_def fd_fs_def)
  have "fd_index (mem demo_fs) 0x6000 = 0" by (simp add: demo_fs_def fd_index_def load32_def store32_def)
  moreover obtain s' where s': "fclose demo_fs 0 = Some (0, s')"
    using d f by (simp add: fclose_def vfs_fclose_def call_close_def fat16_close_def)
  moreover have "fclose demo_fs 0 = Some (0, s') \<longrightarrow> fsst_ok s' \<and> file_kept demo_fs s'
      \<and> (0 = - errno ERR_FD_NOT_FOUND \<and> s' = demo_fs \<or> 0 = errno SUCCESS \<and> fd_list s'
          = (fd_list demo_fs)[unat (fd_index (mem demo_fs) (vfs_get_file_descriptor demo_fs (word_of_int 0))) := 0])"
    using file_calls_keep_tables [OF ok, where r = 0 and fd = 0 and s' = s'] by blast
  ultimately have "fsst_ok s'" "fd_list s' = (fd_list demo_fs)[0 := 0]" using d by simp_all
  then show ?thesis using s' by (intro exI [of _ s']) (simp add: demo_fs_def)
qed

end
