(* ===== verification/Elf.thy ===== *)
theory Elf
  imports Vfs
begin

text \<open>
  ELF files (\<^verbatim>\<open>g-loader/elf/elf.c\<close>) and the loader (\<^verbatim>\<open>g-loader/g-loader.c\<close>).
  The file is read into one block of kernel memory; headers are read from there by offset. An
  \<open>ELF_FILE\<close> keeps the name (offset 0), the size (512), the data (516) and the four addresses of
  the last loadable segment (520 to 532).
\<close>

section \<open>Layout\<close>

definition elf_data :: "memory \<Rightarrow> u32 \<Rightarrow> u32" where "elf_data m f = load32 m (f + 516)"
definition e_type :: "memory \<Rightarrow> u32 \<Rightarrow> u16" where "e_type m h = load16 m (h + 16)"
definition e_entry :: "memory \<Rightarrow> u32 \<Rightarrow> u32" where "e_entry m h = load32 m (h + 24)"
definition e_phoff :: "memory \<Rightarrow> u32 \<Rightarrow> u32" where "e_phoff m h = load32 m (h + 28)"
definition e_shoff :: "memory \<Rightarrow> u32 \<Rightarrow> u32" where "e_shoff m h = load32 m (h + 32)"
definition e_phnum :: "memory \<Rightarrow> u32 \<Rightarrow> u16" where "e_phnum m h = load16 m (h + 44)"
definition e_shstrndx :: "memory \<Rightarrow> u32 \<Rightarrow> u16" where "e_shstrndx m h = load16 m (h + 50)"
definition p_type :: "memory \<Rightarrow> u32 \<Rightarrow> u32" where "p_type m p = load32 m p"
definition p_offset :: "memory \<Rightarrow> u32 \<Rightarrow> u32" where "p_offset m p = load32 m (p + 4)"
definition p_vaddr :: "memory \<Rightarrow> u32 \<Rightarrow> u32" where "p_vaddr m p = load32 m (p + 8)"
definition p_filesz :: "memory \<Rightarrow> u32 \<Rightarrow> u32" where "p_filesz m p = load32 m (p + 16)"
definition p_memsz :: "memory \<Rightarrow> u32 \<Rightarrow> u32" where "p_memsz m p = load32 m (p + 20)"
definition p_flags :: "memory \<Rightarrow> u32 \<Rightarrow> u32" where "p_flags m p = load32 m (p + 24)"
definition sh_offset :: "memory \<Rightarrow> u32 \<Rightarrow> u32" where "sh_offset m p = load32 m (p + 16)"

text \<open>The four addresses of an \<open>ELF_FILE\<close>.\<close>

definition elf_vbase :: "memory \<Rightarrow> u32 \<Rightarrow> u32" where "elf_vbase m f = load32 m (f + 520)"
definition elf_vend :: "memory \<Rightarrow> u32 \<Rightarrow> u32" where "elf_vend m f = load32 m (f + 524)"
definition elf_pbase :: "memory \<Rightarrow> u32 \<Rightarrow> u32" where "elf_pbase m f = load32 m (f + 528)"
definition elf_pend :: "memory \<Rightarrow> u32 \<Rightarrow> u32" where "elf_pend m f = load32 m (f + 532)"

text \<open>The packed headers as records: what the code reads as one field at a time, read as a whole.\<close>

record Elf32_Phdr =
  ph_type :: u32
  ph_offset :: u32
  ph_vaddr :: u32
  ph_paddr :: u32
  ph_filesz :: u32
  ph_memsz :: u32
  ph_flags :: u32
  ph_align :: u32

definition phdr_at :: "memory \<Rightarrow> u32 \<Rightarrow> Elf32_Phdr" where
  "phdr_at m p = \<lparr>ph_type = p_type m p, ph_offset = p_offset m p, ph_vaddr = p_vaddr m p,
     ph_paddr = load32 m (p + 12), ph_filesz = p_filesz m p, ph_memsz = p_memsz m p,
     ph_flags = p_flags m p, ph_align = load32 m (p + 28)\<rparr>"

record Elf32_Ehdr =
  eh_ident :: "u8 list"
  eh_type :: u16
  eh_machine :: u16
  eh_version :: u32
  eh_entry :: u32
  eh_phoff :: u32
  eh_shoff :: u32
  eh_flags :: u32
  eh_ehsize :: u16
  eh_phentsize :: u16
  eh_phnum :: u16
  eh_shentsize :: u16
  eh_shnum :: u16
  eh_shstrndx :: u16

definition ehdr_at :: "memory \<Rightarrow> u32 \<Rightarrow> Elf32_Ehdr" where
  "ehdr_at m h = \<lparr>eh_ident = bytes_at m h 16, eh_type = e_type m h, eh_machine = load16 m (h + 18),
     eh_version = load32 m (h + 20), eh_entry = e_entry m h, eh_phoff = e_phoff m h, eh_shoff = e_shoff m h,
     eh_flags = load32 m (h + 36), eh_ehsize = load16 m (h + 40), eh_phentsize = load16 m (h + 42),
     eh_phnum = e_phnum m h, eh_shentsize = load16 m (h + 46), eh_shnum = load16 m (h + 48),
     eh_shstrndx = e_shstrndx m h\<rparr>"

section \<open>Validation\<close>

text \<open>\<open>memcmp\<close> against a constant array: it stops, and answers 0, when the pointer is null.\<close>

fun memcmp_const :: "memory \<Rightarrow> u32 \<Rightarrow> u8 list \<Rightarrow> u8" where
  "memcmp_const m b [] = 0"
| "memcmp_const m b (c # cs) = (if b = 0 then 0 else if m b \<noteq> c then 1 else memcmp_const m (b + 1) cs)"

definition ELF_validate_signature :: "memory \<Rightarrow> u32 \<Rightarrow> bool" where
  "ELF_validate_signature m data \<longleftrightarrow> memcmp_const m data [0x7F, 0x45, 0x4C, 0x46] = 0"

definition ELF_validate_class32 :: "memory \<Rightarrow> u32 \<Rightarrow> bool" where
  "ELF_validate_class32 m hdr \<longleftrightarrow> m (hdr + 4) = 1"

definition ELF_validate_little_endian :: "memory \<Rightarrow> u32 \<Rightarrow> bool" where
  "ELF_validate_little_endian m hdr \<longleftrightarrow> m (hdr + 5) = 1"

definition ELF_validate_executable :: "memory \<Rightarrow> u32 \<Rightarrow> bool" where
  "ELF_validate_executable m hdr \<longleftrightarrow> e_type m hdr = 2 \<and> TASK_DEFAULT_START \<le> e_entry m hdr"

definition ELF_validate_Phdr :: "memory \<Rightarrow> u32 \<Rightarrow> bool" where
  "ELF_validate_Phdr m hdr \<longleftrightarrow> e_phoff m hdr \<noteq> 0"

definition ELF_validate_Shdr :: "memory \<Rightarrow> u32 \<Rightarrow> bool" where
  "ELF_validate_Shdr m hdr \<longleftrightarrow> e_shoff m hdr \<noteq> 0"

definition ELF_get_Ehdr :: "memory \<Rightarrow> u32 \<Rightarrow> u32" where
  "ELF_get_Ehdr m file = elf_data m file"

definition ELF_get_Phdr :: "memory \<Rightarrow> u32 \<Rightarrow> u32 \<Rightarrow> u32" where
  "ELF_get_Phdr m file index = ELF_get_Ehdr m file + e_phoff m (ELF_get_Ehdr m file) + 32 * index"

definition ELF_get_Shdr :: "memory \<Rightarrow> u32 \<Rightarrow> u32 \<Rightarrow> u32" where
  "ELF_get_Shdr m file index = ELF_get_Ehdr m file + e_shoff m (ELF_get_Ehdr m file) + 40 * index"

definition ELF_get_string_table :: "memory \<Rightarrow> u32 \<Rightarrow> u32" where
  "ELF_get_string_table m file =
     (let ehdr = ELF_get_Ehdr m file;
          shdr = ELF_get_Shdr m file (ucast (e_shstrndx m ehdr))
      in ehdr + sh_offset m shdr)"

definition elf_checks :: "memory \<Rightarrow> u32 \<Rightarrow> bool" where
  "elf_checks m file \<longleftrightarrow> ELF_validate_signature m (elf_data m file)
     \<and> ELF_validate_class32 m (ELF_get_Ehdr m file) \<and> ELF_validate_executable m (ELF_get_Ehdr m file)
     \<and> ELF_validate_little_endian m (ELF_get_Ehdr m file) \<and> ELF_validate_Phdr m (ELF_get_Ehdr m file)
     \<and> ELF_validate_Shdr m (ELF_get_Ehdr m file)"

text \<open>The conditional expression is a statement whose value is dropped; 0 is returned.\<close>

definition ELF_validate_elf_file :: "memory \<Rightarrow> u32 \<Rightarrow> u8" where
  "ELF_validate_elf_file m file =
     (let _ = (if elf_checks m file then errno SUCCESS else - errno ERR_INVALID_ELF_FILE) in 0)"

section \<open>Loading\<close>

definition gloader_process_program_header_PTLOAD :: "memory \<Rightarrow> u32 \<Rightarrow> u32 \<Rightarrow> memory" where
  "gloader_process_program_header_PTLOAD m elf_file phdr =
     (let m = store32 m (elf_file + 520) (p_vaddr m phdr);
          m = store32 m (elf_file + 524) (p_vaddr m phdr + p_filesz m phdr);
          m = store32 m (elf_file + 528) (elf_data m elf_file + p_offset m phdr)
      in store32 m (elf_file + 532) (elf_data m elf_file + p_offset m phdr + p_filesz m phdr))"

text \<open>The bound \<open>e_phnum\<close>, 16 bits wide, is read again in every round.\<close>

lemma unat_u16_less: "n < unat (w :: u16) \<Longrightarrow> n < 65536"
  using unsigned_less [of w, where ?'a = nat] by simp

function program_headers_loop :: "memory \<Rightarrow> u32 \<Rightarrow> u32 \<Rightarrow> nat \<Rightarrow> memory" where
  "program_headers_loop m elf_file ehdr nphdr =
     (if nphdr < unat (e_phnum m ehdr)
      then let phdr = ELF_get_Phdr m elf_file (of_nat nphdr)
           in program_headers_loop
                (if p_type m phdr = 1 then gloader_process_program_header_PTLOAD m elf_file phdr else m)
                elf_file ehdr (nphdr + 1)
      else m)"
  by pat_completeness auto
termination
  by (relation "measure (\<lambda>(m, f, e, i). 65536 - i)") (auto dest: unat_u16_less)

declare program_headers_loop.simps [simp del, loop_simps]

definition gloader_process_program_headers :: "memory \<Rightarrow> u32 \<Rightarrow> int \<times> memory" where
  "gloader_process_program_headers m elf_file =
     (let ehdr = elf_data m elf_file
      in (errno SUCCESS, program_headers_loop m elf_file ehdr 0))"

text \<open>The second component of the result is what is stored through \<open>elf_file_out\<close>, on success.\<close>

definition gloader_load_elf :: "'a fsst_scheme \<Rightarrow> u32 \<Rightarrow> (int \<times> u32 option \<times> 'a fsst_scheme) option" where
  "gloader_load_elf s filename =
     do { (fd, s) \<leftarrow> fopen s filename 0x72;
          if fd < 0 then Some (- errno ERR_FS_FOPEN_FAILED, None, s)
          else do {
            (elf_file, s) \<leftarrow> kzalloc s 536;
            if elf_file = 0
            then do { (_, s) \<leftarrow> fclose s fd; Some (- errno ERR_MALLOC_FAIL, None, s) }
            else do {
              len \<leftarrow> strlen (mem s) filename;
              let s = s\<lparr>mem := fst (strncpy (mem s) elf_file filename len)\<rparr>;
              let stat = local_addr s Elf_stat;
              (_, s) \<leftarrow> fstat s fd stat;
              (data, s) \<leftarrow> kzalloc s (load32 (mem s) stat);
              if data = 0
              then do { (_, s) \<leftarrow> fclose (kfree s elf_file) fd; Some (- errno ERR_MALLOC_FAIL, None, s) }
              else do {
                (res, s) \<leftarrow> fread s data (load32 (mem s) stat) 1 fd;
                if res < 0
                then do { (_, s) \<leftarrow> fclose (kfree (kfree s elf_file) data) fd;
                          Some (- errno ERR_FS_FREAD_FAILED, None, s) }
                else do {
                  let s = set32 (elf_file + 516) data s;
                  if uint (ELF_validate_elf_file (mem s) elf_file) < 0
                  then do { (_, s) \<leftarrow> fclose (kfree (kfree s elf_file) data) fd;
                            Some (- errno ERR_INVALID_ELF_FILE, None, s) }
                  else do {
                    let (res, m) = gloader_process_program_headers (mem s) elf_file;
                    let s = s\<lparr>mem := m\<rparr>;
                    if res < 0
                    then do { (_, s) \<leftarrow> fclose (kfree (kfree s elf_file) data) fd;
                              Some (- errno ERR_ELF_PHDR_FAIL, None, s) }
                    else Some (errno SUCCESS, Some elf_file, s) } } } } } }"

definition gloader_close_elf :: "'a kst_scheme \<Rightarrow> u32 \<Rightarrow> int \<times> 'a kst_scheme" where
  "gloader_close_elf s elf_file =
     (let s = kfree s (elf_data (mem s) elf_file) in (errno SUCCESS, kfree s elf_file))"

section \<open>What the checks look at\<close>

definition loadable :: "Elf32_Ehdr \<Rightarrow> bool" where
  "loadable h \<longleftrightarrow> take 6 (eh_ident h) = [0x7F, 0x45, 0x4C, 0x46, 1, 1] \<and> eh_type h = 2
     \<and> TASK_DEFAULT_START \<le> eh_entry h \<and> eh_phoff h \<noteq> 0 \<and> eh_shoff h \<noteq> 0"

lemma elf_checks_loadable:
  assumes "unat (elf_data m f) + 6 \<le> 2 ^ 32" and "elf_data m f \<noteq> 0"
  shows "elf_checks m f \<longleftrightarrow> loadable (ehdr_at m (elf_data m f))"
proof -
  let ?d = "elf_data m f"
  have "?d + of_nat k \<noteq> 0" if "k < 6" for k
  proof
    assume "?d + of_nat k = 0"
    then have "unat (?d + of_nat k) = 0" by simp
    moreover have "unat (of_nat k :: u32) = k" using that by (intro unat_of_nat_less) simp
    ultimately show False
      using that assms unat_word_ariths(1) [of ?d "of_nat k"] unat_gt_0 [of ?d] by simp
  qed
  from this [of 1] this [of 2] this [of 3]
  have nz: "?d + 1 \<noteq> 0" "?d + 2 \<noteq> 0" "?d + 3 \<noteq> 0" by simp_all
  have six: "take 6 (bytes_at m ?d 16) = [m ?d, m (?d + 1), m (?d + 2), m (?d + 3), m (?d + 4), m (?d + 5)]"
    by (simp add: bytes_at_def upt_rec)
  show ?thesis
    using nz assms(2)
    by (auto simp: elf_checks_def loadable_def ehdr_at_def six ELF_get_Ehdr_def ELF_validate_signature_def
        ELF_validate_class32_def ELF_validate_little_endian_def ELF_validate_executable_def
        ELF_validate_Phdr_def ELF_validate_Shdr_def add.assoc split: if_splits)
qed

section \<open>The table of program headers\<close>

text \<open>The headers of the file, and the bytes that reading them looks at.\<close>

definition segments :: "memory \<Rightarrow> u32 \<Rightarrow> Elf32_Phdr list" where
  "segments m f = map (\<lambda>i. phdr_at m (ELF_get_Phdr m f (of_nat i))) [0..<unat (e_phnum m (elf_data m f))]"

definition header_byte :: "memory \<Rightarrow> u32 \<Rightarrow> u32 \<Rightarrow> bool" where
  "header_byte m f x \<longleftrightarrow> within (f + 516) 4 x \<or> within (elf_data m f) 52 x
     \<or> within (ELF_get_Phdr m f 0) (32 * ucast (e_phnum m (elf_data m f))) x"

lemma load16_cong:
  assumes "\<And>x. within a 2 x \<Longrightarrow> m' x = m x"
  shows "load16 m' a = load16 m a"
  by (simp add: load16_def assms within_def)

lemma ELF_get_Phdr_offset: "ELF_get_Phdr m f (of_nat i) = ELF_get_Phdr m f 0 + of_nat (32 * i)"
  by (simp add: ELF_get_Phdr_def)

lemma headers_cong:
  assumes same: "\<And>x. header_byte m f x \<Longrightarrow> m' x = m x"
  shows "elf_data m' f = elf_data m f" and "e_phnum m' (elf_data m f) = e_phnum m (elf_data m f)"
    and "ELF_get_Phdr m' f i = ELF_get_Phdr m f i"
    and "segments m' f = segments m f" and "header_byte m' f = header_byte m f"
proof -
  let ?d = "elf_data m f" and ?n = "unat (e_phnum m (elf_data m f))"
  show d: "elf_data m' f = ?d"
    unfolding elf_data_def by (rule load32_cong, rule same) (simp add: header_byte_def)
  have hd: "m' x = m x" if "within (?d + of_nat k) (of_nat w) x" "k + w \<le> 52" for k w x
    using within_offset [OF that(1), of 52] that(2) by (intro same) (simp add: header_byte_def)
  show n: "e_phnum m' ?d = e_phnum m ?d"
    unfolding e_phnum_def by (rule load16_cong) (use hd [of 44 2] in simp)
  have "e_phoff m' ?d = e_phoff m ?d"
    unfolding e_phoff_def by (rule load32_cong) (use hd [of 28 4] in simp)
  then show g: "ELF_get_Phdr m' f i = ELF_get_Phdr m f i" for i
    by (simp add: ELF_get_Phdr_def ELF_get_Ehdr_def d)
  have cnt: "(32 * ucast (e_phnum m ?d) :: u32) = of_nat (32 * ?n)" by simp
  have ph: "m' x = m x" if "within (ELF_get_Phdr m f (of_nat i) + of_nat k) (of_nat w) x" "k + w \<le> 32" "i < ?n"
    for i k w x
  proof (rule same)
    have wi: "within (ELF_get_Phdr m f 0 + of_nat (32 * i + k)) (of_nat w) x"
      using that(1) by (simp add: ELF_get_Phdr_offset [of m f i] algebra_simps)
    have "32 * ?n < 2 ^ 32"
      using unsigned_less [of "e_phnum m ?d", where ?'a = nat] by simp
    from within_offset [OF wi _ this] have "within (ELF_get_Phdr m f 0) (of_nat (32 * ?n)) x"
      using that(2,3) by simp
    then show "header_byte m f x" unfolding header_byte_def cnt by blast
  qed
  have ld: "load32 m' (ELF_get_Phdr m f (of_nat i) + of_nat k) = load32 m (ELF_get_Phdr m f (of_nat i) + of_nat k)"
    if "k \<le> 28" "i < ?n" for i k
    by (rule load32_cong) (use ph [of i k 4] that in simp)
  have "phdr_at m' (ELF_get_Phdr m f (of_nat i)) = phdr_at m (ELF_get_Phdr m f (of_nat i))" if "i < ?n" for i
    using ld [of 0 i] ld [of 4 i] ld [of 8 i] ld [of 12 i] ld [of 16 i] ld [of 20 i] ld [of 24 i] ld [of 28 i] that
    by (simp add: phdr_at_def p_type_def p_offset_def p_vaddr_def p_filesz_def p_memsz_def p_flags_def)
  then show "segments m' f = segments m f" by (simp add: segments_def d n g)
  show "header_byte m' f = header_byte m f" by (simp add: header_byte_def fun_eq_iff d n g)
qed

text \<open>The bounds of a loaded file are those of the last loadable segment.\<close>

definition elf_bounds :: "memory \<Rightarrow> u32 \<Rightarrow> u32 \<times> u32 \<times> u32 \<times> u32" where
  "elf_bounds m f = (elf_vbase m f, elf_vend m f, elf_pbase m f, elf_pend m f)"

definition segment_bounds :: "u32 \<Rightarrow> Elf32_Phdr \<Rightarrow> u32 \<times> u32 \<times> u32 \<times> u32" where
  "segment_bounds data h =
     (ph_vaddr h, ph_vaddr h + ph_filesz h, data + ph_offset h, data + ph_offset h + ph_filesz h)"

lemma bounds_cells:
  "apart4 (f + 520) (f + 524)" "apart4 (f + 520) (f + 528)" "apart4 (f + 520) (f + 532)"
  "apart4 (f + 524) (f + 528)" "apart4 (f + 524) (f + 532)" "apart4 (f + 528) (f + 532)"
  "apart4 (f + 524) (f + 520)" "apart4 (f + 528) (f + 520)" "apart4 (f + 532) (f + 520)"
  "apart4 (f + 528) (f + 524)" "apart4 (f + 532) (f + 524)" "apart4 (f + 532) (f + 528)"
  by (simp_all add: apart4_def)

lemma bounds_outside:
  assumes "\<not> within (f + 520) 16 x"
  shows "\<not> within (f + 520) 4 x" "\<not> within (f + 524) 4 x" "\<not> within (f + 528) 4 x" "\<not> within (f + 532) 4 x"
  using assms within_offset [of "f + 520" 0 4 x 16] within_offset [of "f + 520" 4 4 x 16]
    within_offset [of "f + 520" 8 4 x 16] within_offset [of "f + 520" 12 4 x 16]
  by (auto simp: add.assoc)

lemma PTLOAD_outside:
  "\<not> within (f + 520) 16 x \<Longrightarrow> gloader_process_program_header_PTLOAD m f a x = m x"
  by (simp add: gloader_process_program_header_PTLOAD_def Let_def store32_other bounds_outside)

lemma PTLOAD_bounds:
  assumes "\<forall>x. within a 32 x \<or> within (f + 516) 4 x \<longrightarrow> \<not> within (f + 520) 16 x"
  shows "elf_bounds (gloader_process_program_header_PTLOAD m f a) f = segment_bounds (elf_data m f) (phdr_at m a)"
proof -
  have g: "load32 (store32 m' (f + c) v) (a + of_nat k) = load32 m' (a + of_nat k)"
    if "c \<in> {520, 524, 528, 532}" "k \<le> 28" for m' c v k
  proof (rule load32_cong)
    fix x assume "within (a + of_nat k) 4 x"
    then have "\<not> within (f + 520) 16 x" using within_offset [of a k 4 x 32] that(2) assms by simp
    then show "store32 m' (f + c) v x = m' x" using that(1) bounds_outside [of f x] by (auto simp: store32_other)
  qed
  have e: "elf_data (store32 m' (f + c) v) f = elf_data m' f" if "c \<in> {520, 524, 528, 532}" for m' c v
    unfolding elf_data_def
    by (rule load32_cong) (use assms bounds_outside [of f] that in \<open>auto simp: store32_other\<close>)
  note r = g [of _ 4] g [of _ 8] g [of _ 16]
  show ?thesis
    using r by (simp add: gloader_process_program_header_PTLOAD_def Let_def elf_bounds_def segment_bounds_def phdr_at_def
        elf_vbase_def elf_vend_def elf_pbase_def elf_pend_def p_vaddr_def p_offset_def p_filesz_def e bounds_cells)
qed

lemma header_byte_phdr:
  assumes "i < unat (e_phnum m (elf_data m f))" and "within (ELF_get_Phdr m f (of_nat i)) 32 x"
  shows "header_byte m f x"
proof -
  let ?n = "unat (e_phnum m (elf_data m f))"
  have wi: "within (ELF_get_Phdr m f 0 + of_nat (32 * i)) (of_nat 32) x"
    using assms(2) by (simp add: ELF_get_Phdr_offset)
  have "32 * ?n < 2 ^ 32"
    using unsigned_less [of "e_phnum m (elf_data m f)", where ?'a = nat] by simp
  from within_offset [OF wi _ this] show ?thesis
    using assms(1) by (simp add: header_byte_def)
qed

lemma program_headers_loop_spec:
  assumes "d = elf_data m f" and "\<forall>x. header_byte m f x \<longrightarrow> \<not> within (f + 520) 16 x"
  shows "(\<forall>x. within (f + 520) 16 x \<or> program_headers_loop m f d i x = m x)
    \<and> elf_bounds (program_headers_loop m f d i) f =
        (case rev (filter (\<lambda>h. ph_type h = 1) (drop i (segments m f))) of
           [] \<Rightarrow> elf_bounds m f | h # _ \<Rightarrow> segment_bounds d h)"
  using assms
proof (induction m f d i rule: program_headers_loop.induct)
  case (1 m f d i)
  show ?case
  proof (cases "i < unat (e_phnum m d)")
    case False
    then show ?thesis
      using 1(2) by (subst (1 2) program_headers_loop.simps) (simp add: segments_def)
  next
    case True
    let ?a = "ELF_get_Phdr m f (of_nat i)" and ?h = "segments m f ! i"
    let ?m1 = "if p_type m ?a = 1 then gloader_process_program_header_PTLOAD m f ?a else m"
    have step: "program_headers_loop m f d i = program_headers_loop ?m1 f d (i + 1)"
      using True by (subst program_headers_loop.simps) (simp add: Let_def)
    have out: "?m1 x = m x" if "\<not> within (f + 520) 16 x" for x using that by (simp add: PTLOAD_outside)
    then have "\<And>x. header_byte m f x \<Longrightarrow> ?m1 x = m x" using 1(3) by blast
    note hc = headers_cong [OF this]
    have ih: "(\<forall>x. within (f + 520) 16 x \<or> program_headers_loop ?m1 f d (i + 1) x = ?m1 x)
      \<and> elf_bounds (program_headers_loop ?m1 f d (i + 1)) f =
        (case rev (filter (\<lambda>h. ph_type h = 1) (drop (i + 1) (segments m f))) of
           [] \<Rightarrow> elf_bounds ?m1 f | h # _ \<Rightarrow> segment_bounds d h)"
      using "1.IH" [OF True refl] 1(2,3) hc by simp
    have h: "?h = phdr_at m ?a" and len: "i < length (segments m f)"
      using True 1(2) by (simp_all add: segments_def)
    have "\<forall>x. within ?a 32 x \<or> within (f + 516) 4 x \<longrightarrow> \<not> within (f + 520) 16 x"
      using 1(2,3) header_byte_phdr [of i m f] True by (auto simp: header_byte_def)
    note b = PTLOAD_bounds [OF this]
    have "elf_bounds ?m1 f = (if ph_type ?h = 1 then segment_bounds d ?h else elf_bounds m f)"
      using b 1(2) by (simp add: h phdr_at_def)
    moreover have "drop i (segments m f) = ?h # drop (i + 1) (segments m f)"
      using Cons_nth_drop_Suc [OF len] by simp
    moreover have "\<forall>x. within (f + 520) 16 x \<or> program_headers_loop ?m1 f d (i + 1) x = m x"
      using ih out by metis
    ultimately show ?thesis using ih unfolding step by (auto split: list.splits if_splits)
  qed
qed

section \<open>Properties\<close>

text \<open>The loader never rejects a file: whatever the header of a file holds, the validation answers
  0, which means success, and no call of \<open>gloader_load_elf\<close> ends with \<open>ERR_INVALID_ELF_FILE\<close>
  or \<open>ERR_ELF_PHDR_FAIL\<close>; a file of the task's choice that fails every check of the
  format is loaded as an ELF file.\<close>

theorem loader_accepts_every_file:
  "ELF_validate_elf_file m file = 0
    \<and> gloader_load_elf s filename \<noteq> Some (- errno ERR_INVALID_ELF_FILE, out, s')
    \<and> gloader_load_elf s filename \<noteq> Some (- errno ERR_ELF_PHDR_FAIL, out, s')"
  by (auto simp: ELF_validate_elf_file_def gloader_load_elf_def gloader_process_program_headers_def Let_def
      elim!: option_bindE split: if_splits prod.splits)

text \<open>C39: the loader takes the bounds of a file from its last loadable segment: it leaves in the
  \<open>ELF_FILE\<close> the virtual and the physical extent of the last program header of type
  \<open>PT_LOAD\<close>, or what was there when there is none, and writes nothing else.\<close>

theorem program_headers_last_load:
  assumes "\<forall>x. header_byte m f x \<longrightarrow> \<not> within (f + 520) 16 x"
  shows "\<exists>m'. gloader_process_program_headers m f = (0, m')
    \<and> (\<forall>x. within (f + 520) 16 x \<or> m' x = m x)
    \<and> elf_bounds m' f = (let loads = filter (\<lambda>h. ph_type h = 1) (segments m f)
        in if loads = [] then elf_bounds m f else segment_bounds (elf_data m f) (last loads))"
proof -
  define loads where "loads = filter (\<lambda>h. ph_type h = 1) (segments m f)"
  have l: "(case rev loads of [] \<Rightarrow> b | h # _ \<Rightarrow> g h) = (if loads = [] then b else g (last loads))" for b and g :: "_ \<Rightarrow> 'z"
    by (cases loads rule: rev_cases) simp_all
  show ?thesis
    using program_headers_loop_spec [OF refl assms, of 0, unfolded drop_0]
    unfolding loads_def [symmetric] l Let_def by (auto simp: gloader_process_program_headers_def)
qed

text \<open>A file at \<open>0x2000\<close> with one loadable segment, followed by a header of type \<open>PT_NULL\<close>.\<close>

definition demo_elf :: memory where
  "demo_elf = fold (\<lambda>(a, v) m. store32 m a v)
     [(0x1204, 0x2000), (0x201C, 52), (0x202C, 2), (0x2034, 1), (0x2038, 0x1000), (0x203C, 0x400000),
      (0x2044, 0x20), (0x2048, 0x20), (0x204C, 5)] (\<lambda>_. 0)"

lemma demo_elf:
  "elf_data demo_elf 0x1000 = 0x2000" "e_phnum demo_elf 0x2000 = 2" "ELF_get_Phdr demo_elf 0x1000 0 = 0x2034"
  "segments demo_elf 0x1000 =
     [\<lparr>ph_type = 1, ph_offset = 0x1000, ph_vaddr = 0x400000, ph_paddr = 0, ph_filesz = 0x20, ph_memsz = 0x20,
       ph_flags = 5, ph_align = 0\<rparr>,
      \<lparr>ph_type = 0, ph_offset = 0, ph_vaddr = 0, ph_paddr = 0, ph_filesz = 0, ph_memsz = 0,
       ph_flags = 0, ph_align = 0\<rparr>]"
  by code_simp+

theorem program_headers_last_load_witness:
  "\<exists>m'. gloader_process_program_headers demo_elf 0x1000 = (0, m')
    \<and> elf_bounds m' 0x1000 = (0x400000, 0x400020, 0x3000, 0x3020)"
proof -
  have "apart 0x1204 4 0x1208 16" "apart 0x1208 16 0x2000 52" "apart 0x1208 16 0x2034 64"
    by (simp_all add: apart_below)
  then have "\<forall>x. header_byte demo_elf 0x1000 x \<longrightarrow> \<not> within (0x1000 + 520) 16 x"
    by (auto simp: header_byte_def demo_elf apart_def)
  from program_headers_last_load [OF this] show ?thesis
    by (auto simp: demo_elf segment_bounds_def)
qed

end
