(* ===== verification/Paging.thy ===== *)
theory Paging
  imports Machine
begin

text \<open>
  The address spaces of \<^verbatim>\<open>mm/paging/paging.c\<close>. All tables are in physical memory: a
  \<open>struct vaddr_space\<close> is a pointer to a \<open>struct page_directory\<close>, which is a pointer to the
  1024 words of the directory; each of them points to a table of 1024 words. \<open>mmu\<close> is the address
  translation of the processor over these tables.
\<close>

section \<open>Operations\<close>

abbreviation (input) PAGE_PRESENT :: u32 where "PAGE_PRESENT \<equiv> 1"
abbreviation (input) PAGE_WRITE_ACCESS :: u32 where "PAGE_WRITE_ACCESS \<equiv> 2"
abbreviation (input) PAGE_USER_ACCESS :: u32 where "PAGE_USER_ACCESS \<equiv> 4"
abbreviation (input) PAGE_DIR_ENTRIES :: nat where "PAGE_DIR_ENTRIES \<equiv> 1024"
abbreviation (input) PAGE_TABLE_ENTRIES :: nat where "PAGE_TABLE_ENTRIES \<equiv> 1024"
abbreviation (input) PAGE_SIZE :: u32 where "PAGE_SIZE \<equiv> 4096"

definition page_directory_entries :: "memory \<Rightarrow> u32 \<Rightarrow> u32" where
  "page_directory_entries m pd = load32 m pd"

definition vspace_pd :: "memory \<Rightarrow> u32 \<Rightarrow> u32" where
  "vspace_pd m vspace = load32 m vspace"

definition load_page_directory :: "'a mach_scheme \<Rightarrow> u32 \<Rightarrow> 'a mach_scheme" where
  "load_page_directory s pd =
     (load_pd_to_cr3 s (page_directory_entries (mem s) pd))\<lparr>current_page_directory := pd\<rparr>"

definition address_page_aligned :: "u32 \<Rightarrow> bool" where
  "address_page_aligned vaddr \<longleftrightarrow> vaddr mod PAGE_SIZE = 0"

definition paging_align_to_page_upper :: "u32 \<Rightarrow> u32" where
  "paging_align_to_page_upper address =
     (if address mod PAGE_SIZE \<noteq> 0 then address - address mod PAGE_SIZE + PAGE_SIZE else address)"

definition paging_align_to_page_lower :: "u32 \<Rightarrow> u32" where
  "paging_align_to_page_lower address =
     (if address mod PAGE_SIZE \<noteq> 0 then address - address mod PAGE_SIZE else address)"

text \<open>The two output parameters are written only on success.\<close>

definition get_page_indices :: "u32 \<Rightarrow> int \<times> (u32 \<times> u32) option" where
  "get_page_indices vaddr =
     (if \<not> address_page_aligned vaddr then (- errno ERR_INVARG, None)
      else (errno SUCCESS, Some (vaddr div (PAGE_SIZE * 1024), vaddr mod (1024 * PAGE_SIZE) div PAGE_SIZE)))"

definition map_vaddr_to_val :: "memory \<Rightarrow> u32 \<Rightarrow> u32 \<Rightarrow> u32 \<Rightarrow> int \<times> memory" where
  "map_vaddr_to_val m pd vaddr val =
     (if \<not> address_page_aligned vaddr then (- errno ERR_INVARG, m)
      else case get_page_indices vaddr of
        (_, Some (pd_index, pt_index)) \<Rightarrow>
          let pt = load32 m (page_directory_entries m pd + 4 * pd_index) AND 0xfffff000
          in (errno SUCCESS, store32 m (pt + 4 * pt_index) val)
      | (_, None) \<Rightarrow> (- errno ERR_INVARG, m))"

text \<open>The result of \<open>map_vaddr_to_val\<close> is not looked at.\<close>

function map_range_loop ::
    "memory \<Rightarrow> u32 \<Rightarrow> u32 \<Rightarrow> u32 \<Rightarrow> u32 \<Rightarrow> u32 \<Rightarrow> u32 \<Rightarrow> memory" where
  "map_range_loop m vspace vaddr paddr flags page total_pages =
     (if page < total_pages
      then map_range_loop (snd (map_vaddr_to_val m (vspace_pd m vspace) vaddr (paddr OR flags)))
             vspace (vaddr + PAGE_SIZE) (paddr + PAGE_SIZE) flags (page + 1) total_pages
      else m)"
  by pat_completeness auto
termination
  by (relation "measure (\<lambda>(m, v, va, pa, f, i, n). unat n - unat i)") (auto simp: unat_loop_dec)

declare map_range_loop.simps [simp del, loop_simps]

definition paging_map_range ::
    "memory \<Rightarrow> u32 \<Rightarrow> u32 \<Rightarrow> u32 \<Rightarrow> u32 \<Rightarrow> u32 \<Rightarrow> int \<times> memory" where
  "paging_map_range m vspace vaddr paddr endaddr flags =
     (if \<not> address_page_aligned vaddr \<or> \<not> address_page_aligned paddr \<or> \<not> address_page_aligned endaddr
      then (- errno ERR_PROCESS_MAPPING_FAILED, m)
      else if endaddr < paddr then (- errno ERR_PROCESS_MAPPING_FAILED, m)
      else let total_pages = (endaddr - paddr) div PAGE_SIZE
           in (errno SUCCESS, map_range_loop m vspace vaddr paddr flags 0 total_pages))"

text \<open>The loops of \<open>new_page_directory\<close>; their 16-bit counters stay below 1024.\<close>

function page_table_loop :: "memory \<Rightarrow> u32 \<Rightarrow> u32 \<Rightarrow> u8 \<Rightarrow> nat \<Rightarrow> memory" where
  "page_table_loop m pt pd_entry_offset flags pt_entry =
     (if pt_entry < PAGE_TABLE_ENTRIES
      then page_table_loop
             (store32 m (pt + 4 * of_nat pt_entry)
                ((pd_entry_offset + of_nat pt_entry * PAGE_SIZE) OR ucast flags))
             pt pd_entry_offset flags (pt_entry + 1)
      else m)"
  by pat_completeness auto
termination by (relation "measure (\<lambda>(m, pt, off, f, i). 1024 - i)") auto

declare page_table_loop.simps [simp del, loop_simps]

function page_dir_loop ::
    "'a mach_scheme \<Rightarrow> u32 \<Rightarrow> u32 \<Rightarrow> u8 \<Rightarrow> nat \<Rightarrow> 'a mach_scheme option" where
  "page_dir_loop s dir pd_entry_offset flags pd_entry =
     (if pd_entry < PAGE_DIR_ENTRIES then
        case kzalloc s (4 * 1024) of
          None \<Rightarrow> None
        | Some (pt, s) \<Rightarrow>
            let s = s\<lparr>mem := page_table_loop (mem s) pt pd_entry_offset flags 0\<rparr>;
                s = s\<lparr>mem := store32 (mem s) (dir + 4 * of_nat pd_entry)
                        (pt OR ucast flags OR PAGE_WRITE_ACCESS)\<rparr>
            in page_dir_loop s dir (pd_entry_offset + 1024 * PAGE_SIZE) flags (pd_entry + 1)
      else Some s)"
  by pat_completeness auto
termination by (relation "measure (\<lambda>(s, d, off, f, i). 1024 - i)") auto

declare page_dir_loop.simps [simp del, loop_simps]

definition new_page_directory :: "'a mach_scheme \<Rightarrow> u8 \<Rightarrow> (u32 \<times> 'a mach_scheme) option" where
  "new_page_directory s page_entry_flags =
     (case kzalloc s (4 * 1024) of
        None \<Rightarrow> None
      | Some (dir, s) \<Rightarrow>
          case page_dir_loop s dir 0 page_entry_flags 0 of
            None \<Rightarrow> None
          | Some s \<Rightarrow>
              case kzalloc s 4 of
                None \<Rightarrow> None
              | Some (pd, s) \<Rightarrow> Some (pd, s\<lparr>mem := store32 (mem s) pd dir\<rparr>))"

definition create_virtual_address_space :: "'a mach_scheme \<Rightarrow> u8 \<Rightarrow> (u32 \<times> 'a mach_scheme) option" where
  "create_virtual_address_space s flags =
     (case kzalloc s 4 of
        None \<Rightarrow> None
      | Some (vspace, s) \<Rightarrow>
          case new_page_directory s flags of
            None \<Rightarrow> None
          | Some (pd, s) \<Rightarrow> Some (vspace, s\<lparr>mem := store32 (mem s) vspace pd\<rparr>))"

function destroy_loop :: "'a mach_scheme \<Rightarrow> u32 \<Rightarrow> nat \<Rightarrow> 'a mach_scheme" where
  "destroy_loop s space pd_entry =
     (if pd_entry < PAGE_DIR_ENTRIES
      then let entry = load32 (mem s) (page_directory_entries (mem s) (vspace_pd (mem s) space)
                         + 4 * of_nat pd_entry)
           in destroy_loop (kfree s (entry AND 0xfffff000)) space (pd_entry + 1)
      else s)"
  by pat_completeness auto
termination by (relation "measure (\<lambda>(s, sp, i). 1024 - i)") auto

declare destroy_loop.simps [simp del, loop_simps]

definition destroy_virtual_address_space :: "'a mach_scheme \<Rightarrow> u32 \<Rightarrow> 'a mach_scheme" where
  "destroy_virtual_address_space s space =
     (let s = destroy_loop s space 0; s = kfree s (vspace_pd (mem s) space) in kfree s space)"

text \<open>The status of \<open>get_page_indices\<close> is ignored: for an address inside a page the indices are
  uninitialised, and the result is \<open>None\<close>.\<close>

definition paging_virt_to_phy :: "memory \<Rightarrow> u32 \<Rightarrow> u32 \<Rightarrow> u32 option" where
  "paging_virt_to_phy m vspace vaddr =
     (case get_page_indices vaddr of
        (_, None) \<Rightarrow> None
      | (_, Some (pd_index, pt_index)) \<Rightarrow>
          let pt_entry = load32 m (page_directory_entries m (vspace_pd m vspace) + 4 * pd_index)
          in Some (load32 m ((pt_entry AND 0xfffff000) + 4 * pt_index)))"

definition change_to_kernel_page_directory :: "'a mach_scheme \<Rightarrow> 'a mach_scheme" where
  "change_to_kernel_page_directory s =
     (let s = set_all_segments_to_kernel_data_segment s
      in load_page_directory s (vspace_pd (mem s) (kernel_space s)))"

section \<open>Translation by the processor\<close>

text \<open>A supervisor access: the present bits count, the write and user bits do not.\<close>

definition mmu :: "memory \<Rightarrow> u32 \<Rightarrow> u32 \<Rightarrow> u32 option" where
  "mmu m dir va =
     (let pde = load32 m ((dir AND 0xfffff000) + 4 * (va div 0x400000));
          pte = load32 m ((pde AND 0xfffff000) + 4 * (va div 4096 mod 1024))
      in if pde AND PAGE_PRESENT = 0 \<or> pte AND PAGE_PRESENT = 0 then None
         else Some ((pte AND 0xfffff000) OR (va AND 0xfff)))"

text \<open>A user access: the bits in \<open>need\<close>, present and user, and write for a store, are required of
  both entries.\<close>

abbreviation (input) USER_READ :: u32 where "USER_READ \<equiv> 5"
abbreviation (input) USER_WRITE :: u32 where "USER_WRITE \<equiv> 7"

definition user_addr :: "memory \<Rightarrow> u32 \<Rightarrow> u32 \<Rightarrow> u32 \<Rightarrow> u32 option" where
  "user_addr m dir need va =
     (let pde = load32 m ((dir AND 0xfffff000) + 4 * (va div 0x400000));
          pte = load32 m ((pde AND 0xfffff000) + 4 * (va div 4096 mod 1024))
      in if pde AND need = need \<and> pte AND need = need
         then Some ((pte AND 0xfffff000) OR (va AND 0xfff)) else None)"

section \<open>Pages\<close>

lemma page_masks: "(0xfffff000 :: u32) = NOT (mask 12)" "(0xfff :: u32) = mask 12"
  by (simp_all add: mask_eq_exp_minus_1)

lemma page_base_shift: "x AND 0xfffff000 = push_bit 12 (drop_bit 12 x)" for x :: u32
  unfolding page_masks by (rule bit_word_eqI) (auto simp: bit_simps)

lemma unat_page_base: "unat (x AND 0xfffff000) = unat x div 4096 * 4096" for x :: u32
proof -
  have u: "unat (drop_bit 12 x) = unat x div 4096" by (simp add: drop_bit_eq_div unat_div_4096)
  have "unat x div 4096 * 4096 < 2 ^ 32"
    using unsigned_less [of x, where ?'a = nat] by (intro le_less_trans [OF div_times_less_eq_dividend]) simp
  then have "unat (drop_bit 12 x * 4096) = unat x div 4096 * 4096"
    using unat_word_ariths(2) [of "drop_bit 12 x" 4096] by (simp add: u)
  then show ?thesis by (simp add: page_base_shift push_bit_eq_mult)
qed

lemma page_base_iff: "x AND 0xfffff000 = p \<longleftrightarrow> unat x div 4096 * 4096 = unat p" for x p :: u32
  by (metis unat_page_base word_unat_eq_iff)

lemma aligned_page_base: "p mod 4096 = 0 \<Longrightarrow> p AND 0xfffff000 = p" for p :: u32
proof -
  assume "p mod 4096 = 0"
  then have "unat p mod 4096 = 0" using unat_mod_4096 [of p] by simp
  then have "unat p div 4096 * 4096 = unat p" using div_mult_mod_eq [of "unat p" 4096] by linarith
  then show ?thesis by (simp only: page_base_iff)
qed

lemma page_base_aligned [simp]: "(x AND 0xfffff000) mod 4096 = 0" for x :: u32
proof -
  have "unat ((x AND 0xfffff000) mod 4096) = 0"
    unfolding unat_mod_4096 unat_page_base by simp
  then show ?thesis by (simp only: unat_eq_0)
qed

lemma page_offset:
  fixes p d :: u32
  assumes "p mod 4096 = 0" and "d < 4096"
  shows "unat (p + d) = unat p + unat d" and "(p + d) AND 0xfffff000 = p" and "(p + d) mod 4096 = d"
proof -
  obtain q where q: "unat p = 4096 * q"
    using arg_cong [OF assms(1), of unat] unat_mod_4096 [of p] by auto
  have d: "unat d < 4096" using assms(2) by (simp add: word_less_nat_alt)
  have "unat p < 2 ^ 32" using unsigned_less [of p, where ?'a = nat] by simp
  then have "q < 2 ^ 20" by (simp add: q)
  then have "unat p + unat d < 2 ^ 32" using d by (simp add: q)
  then show u: "unat (p + d) = unat p + unat d" by (intro unat_add_lem [THEN iffD1]) simp
  show "(p + d) AND 0xfffff000 = p"
    unfolding page_base_iff u using d by (simp add: q)
  have "unat ((p + d) mod 4096) = unat d" unfolding unat_mod_4096 u using d by (simp add: q)
  then show "(p + d) mod 4096 = d" by (simp only: word_unat_eq_iff)
qed

lemma page_base_split: "(va AND 0xfffff000) + va mod 4096 = va" for va :: u32
proof (rule word_unat_eq_iff [THEN iffD2])
  have "va mod 4096 < 4096" by (rule word_mod_less_divisor) simp
  from page_offset(1) [OF page_base_aligned this]
  show "unat ((va AND 0xfffff000) + va mod 4096) = unat va"
    by (simp add: unat_page_base unat_mod_4096)
qed

text \<open>A byte of a page is named by its page and its offset.\<close>

lemma within_page: "p mod 4096 = 0 \<Longrightarrow> within p 4096 x \<longleftrightarrow> x AND 0xfffff000 = p" for p :: u32
proof
  assume p: "p mod 4096 = 0" and "within p 4096 x"
  then have "(p + (x - p)) AND 0xfffff000 = p" by (intro page_offset(2)) (simp_all add: within_def)
  then show "x AND 0xfffff000 = p" by simp
next
  assume "x AND 0xfffff000 = p"
  then have "x - p = x mod 4096" using page_base_split [of x] by (simp add: algebra_simps)
  then show "within p 4096 x" by (simp add: within_def word_mod_less_divisor)
qed

section \<open>Word slots of a page\<close>

lemma unat_slot4: "i < 1024 \<Longrightarrow> unat (of_nat (4 * i) :: u32) = 4 * i"
  by (intro unat_of_nat_less) simp

lemma within_slot4:
  assumes "p mod 4096 = 0" and "i < 1024"
  shows "within (p + 4 * of_nat i) 4 x \<longleftrightarrow> x AND 0xfffff000 = p \<and> unat (x mod 4096) div 4 = i"
proof -
  define o4 where "o4 = (of_nat (4 * i) :: u32)"
  have u: "unat o4 = 4 * i" unfolding o4_def by (rule unat_slot4 [OF assms(2)])
  have e: "p + 4 * of_nat i = p + o4" by (simp add: o4_def)
  show ?thesis unfolding e
  proof
    assume w: "within (p + o4) 4 x"
    define d where "d = x - (p + o4)"
    have d: "unat d < 4" using w by (simp add: within_def d_def word_less_nat_alt)
    have x: "x = p + (o4 + d)" by (simp add: d_def)
    have s: "unat (o4 + d) = 4 * i + unat d"
      using assms(2) u d by (subst unat_add_lem [THEN iffD1]) simp_all
    then have "o4 + d < 4096" using assms(2) d by (simp add: word_less_nat_alt)
    from page_offset(2,3) [OF assms(1) this] show "x AND 0xfffff000 = p \<and> unat (x mod 4096) div 4 = i"
      unfolding x using s d by simp
  next
    assume a: "x AND 0xfffff000 = p \<and> unat (x mod 4096) div 4 = i"
    have x: "x - (p + o4) = x mod 4096 - o4"
      using a page_base_split [of x] by (simp add: algebra_simps)
    have "unat (x mod 4096 - o4) = unat (x mod 4096) - 4 * i"
      using a u by (subst unat_sub) (auto simp: word_le_nat_alt)
    moreover have "unat (x mod 4096) - 4 * i < 4" using a by auto
    ultimately show "within (p + o4) 4 x" by (simp add: within_def x word_less_nat_alt)
  qed
qed

lemma apart4_slots:
  assumes "p mod 4096 = 0" and "q mod 4096 = 0" and "i < 1024" and "j < 1024" and "p \<noteq> q \<or> i \<noteq> j"
  shows "apart4 (p + 4 * of_nat i) (q + 4 * of_nat j)"
proof -
  have n: "\<not> within (p + 4 * of_nat i) 4 x" if "within (q + 4 * of_nat j) 4 x" for x
    using that assms(5) by (auto simp: within_slot4 assms(1-4))
  have "within (q + 4 * of_nat j) 4 (q + 4 * of_nat j)" "within (p + 4 * of_nat i) 4 (p + 4 * of_nat i)"
    by (simp_all add: within_def)
  then show ?thesis using n by (metis apart4_def not_less within_def)
qed

lemma load32_slot:
  assumes "p mod 4096 = 0" and "q mod 4096 = 0" and "i < 1024" and "j < 1024"
  shows "load32 (store32 m (p + 4 * of_nat i) v) (q + 4 * of_nat j) =
    (if p = q \<and> i = j then v else load32 m (q + 4 * of_nat j))"
  using apart4_slots [OF assms] by auto

lemma load32_page:
  assumes "p mod 4096 = 0" and "i < 1024" and "\<And>x. x AND 0xfffff000 = p \<Longrightarrow> m' x = m x"
  shows "load32 m' (p + 4 * of_nat i) = load32 m (p + 4 * of_nat i)"
  by (rule load32_cong) (use assms in \<open>simp add: within_slot4\<close>)

lemma store32_slot_other:
  assumes "p mod 4096 = 0" and "i < 1024" and "x AND 0xfffff000 \<noteq> p"
  shows "store32 m (p + 4 * of_nat i) v x = m x"
  by (rule store32_other) (use assms in \<open>simp add: within_slot4\<close>)

section \<open>Well-formed address spaces\<close>

definition pt_of :: "memory \<Rightarrow> u32 \<Rightarrow> nat \<Rightarrow> u32" where
  "pt_of m pd i = load32 m (page_directory_entries m pd + 4 * of_nat i) AND 0xfffff000"

definition pte :: "memory \<Rightarrow> u32 \<Rightarrow> u32 \<Rightarrow> u32" where
  "pte m pd va = load32 m (pt_of m pd (unat va div 0x400000) + 4 * of_nat (unat va div 4096 mod 1024))"

text \<open>The directory and the 1024 tables are distinct pages, none of which holds the two pointers.\<close>

definition vspace_ok :: "memory \<Rightarrow> u32 \<Rightarrow> bool" where
  "vspace_ok m v \<longleftrightarrow>
     (let pd = vspace_pd m v; dir = page_directory_entries m pd
      in v mod 4096 = 0 \<and> pd mod 4096 = 0 \<and> dir mod 4096 = 0 \<and> v \<noteq> dir \<and> pd \<noteq> dir
       \<and> (\<forall>i<1024. pt_of m pd i \<noteq> v \<and> pt_of m pd i \<noteq> pd \<and> pt_of m pd i \<noteq> dir)
       \<and> (\<forall>i<1024. \<forall>j<1024. pt_of m pd i = pt_of m pd j \<longrightarrow> i = j))"

lemma va_indices: "unat (va :: u32) div 0x400000 < 1024" "unat (va :: u32) div 4096 mod 1024 < 1024"
  using unsigned_less [of va, where ?'a = nat] by (simp_all add: less_mult_imp_div_less)

lemma page_indices_of_nat:
  fixes va :: u32
  shows "va div 0x400000 = of_nat (unat va div 0x400000)"
    and "va mod 0x400000 div 4096 = of_nat (unat va div 4096 mod 1024)"
    and "va div 4096 mod 1024 = of_nat (unat va div 4096 mod 1024)"
proof -
  have "unat va mod 0x400000 = 4096 * (unat va div 4096 mod 1024) + unat va mod 4096"
    using mod_mult2_eq [of "unat va" 4096 1024] by simp
  then have e: "unat va mod 0x400000 div 4096 = unat va div 4096 mod 1024" by simp
  have "unat (va div 0x400000) = unat va div 0x400000" by (simp add: unat_div_distrib)
  then show "va div 0x400000 = of_nat (unat va div 0x400000)" by (metis of_nat_unat ucast_id)
  have "unat (va mod 0x400000 div 4096) = unat va div 4096 mod 1024"
    by (simp add: unat_div_distrib unat_mod_distrib e)
  then show "va mod 0x400000 div 4096 = of_nat (unat va div 4096 mod 1024)" by (metis of_nat_unat ucast_id)
  have "unat (va div 4096 mod 1024) = unat va div 4096 mod 1024"
    by (simp add: unat_div_distrib unat_mod_distrib)
  then show "va div 4096 mod 1024 = of_nat (unat va div 4096 mod 1024)" by (metis of_nat_unat ucast_id)
qed

lemma map_vaddr_eq:
  assumes "va mod 4096 = 0"
  shows "map_vaddr_to_val m pd va val = (0,
    store32 m (pt_of m pd (unat va div 0x400000) + 4 * of_nat (unat va div 4096 mod 1024)) val)"
  using assms by (simp add: map_vaddr_to_val_def get_page_indices_def address_page_aligned_def
      page_indices_of_nat pt_of_def Let_def)

lemma virt_to_phy_eq: "va mod 4096 = 0 \<Longrightarrow> paging_virt_to_phy m v va = Some (pte m (vspace_pd m v) va)"
  by (simp add: paging_virt_to_phy_def get_page_indices_def address_page_aligned_def
      page_indices_of_nat pt_of_def pte_def Let_def)

lemma same_page_iff:
  fixes va va' :: u32
  assumes "va mod 4096 = 0"
  shows "unat va' div 0x400000 = unat va div 0x400000
      \<and> unat va' div 4096 mod 1024 = unat va div 4096 mod 1024 \<longleftrightarrow> va' AND 0xfffff000 = va"
proof -
  have d: "unat x div 0x400000 = unat x div 4096 div 1024" for x :: u32
    using div_mult2_eq [of "unat x" 4096 1024] by simp
  have "unat va div 4096 * 4096 = unat va"
    using aligned_page_base [OF assms] unat_page_base [of va] by simp
  then have "va' AND 0xfffff000 = va \<longleftrightarrow> unat va' div 4096 = unat va div 4096"
    by (metis page_base_iff mult_right_cancel numeral_eq_Suc nat.distinct(1))
  also have "\<dots> \<longleftrightarrow> unat va' div 4096 div 1024 = unat va div 4096 div 1024
      \<and> unat va' div 4096 mod 1024 = unat va div 4096 mod 1024"
    by (metis div_mult_mod_eq)
  finally show ?thesis by (simp only: d)
qed

text \<open>Changing bytes of one page table leaves the rest of the structure as it is.\<close>

lemma vspace_frame:
  assumes "vspace_ok m v" and "i < 1024"
    and "\<forall>x. x AND 0xfffff000 \<noteq> pt_of m (vspace_pd m v) i \<longrightarrow> m' x = m x"
  shows "vspace_pd m' v = vspace_pd m v"
    and "page_directory_entries m' (vspace_pd m v) = page_directory_entries m (vspace_pd m v)"
    and "j < 1024 \<Longrightarrow> pt_of m' (vspace_pd m v) j = pt_of m (vspace_pd m v) j"
    and "vspace_ok m' v"
proof -
  let ?pd = "vspace_pd m v" and ?dir = "page_directory_entries m (vspace_pd m v)"
  note ok = assms(1) [unfolded vspace_ok_def Let_def]
  have n: "pt_of m ?pd i \<noteq> v" "pt_of m ?pd i \<noteq> ?pd" "pt_of m ?pd i \<noteq> ?dir"
    using ok assms(2) by blast+
  have "load32 m' (v + 4 * of_nat 0) = load32 m (v + 4 * of_nat 0)"
    by (rule load32_page) (use ok n assms(3) in auto)
  then show pd: "vspace_pd m' v = ?pd" by (simp add: vspace_pd_def)
  have "load32 m' (?pd + 4 * of_nat 0) = load32 m (?pd + 4 * of_nat 0)"
    by (rule load32_page) (use ok n assms(3) in auto)
  then show dir: "page_directory_entries m' ?pd = ?dir" by (simp add: page_directory_entries_def)
  show pt: "pt_of m' ?pd j = pt_of m ?pd j" if "j < 1024" for j
  proof -
    have "load32 m' (?dir + 4 * of_nat j) = load32 m (?dir + 4 * of_nat j)"
      by (rule load32_page) (use ok n assms(3) that in auto)
    then show ?thesis by (simp only: pt_of_def dir)
  qed
  show "vspace_ok m' v" unfolding vspace_ok_def Let_def pd dir using ok pt by simp
qed

lemma map_vaddr_spec:
  fixes va val :: u32
  assumes "vspace_ok m v" and "va mod 4096 = 0"
  defines "m' \<equiv> snd (map_vaddr_to_val m (vspace_pd m v) va val)"
  shows "vspace_ok m' v" and "vspace_pd m' v = vspace_pd m v"
    and "pte m' (vspace_pd m v) va' =
      (if va' AND 0xfffff000 = va then val else pte m (vspace_pd m v) va')"
    and "x AND 0xfffff000 \<noteq> pt_of m (vspace_pd m v) (unat va div 0x400000) \<Longrightarrow> m' x = m x"
    and "j < 1024 \<Longrightarrow> pt_of m' (vspace_pd m v) j = pt_of m (vspace_pd m v) j"
proof -
  let ?pd = "vspace_pd m v"
  let ?i = "\<lambda>va. unat (va :: u32) div 0x400000" and ?k = "\<lambda>va. unat (va :: u32) div 4096 mod 1024"
  have m': "m' = store32 m (pt_of m ?pd (?i va) + 4 * of_nat (?k va)) val"
    by (simp add: m'_def map_vaddr_eq [OF assms(2)])
  have al: "pt_of m ?pd i mod 4096 = 0" for i by (simp add: pt_of_def)
  have frame: "m' x = m x" if "x AND 0xfffff000 \<noteq> pt_of m ?pd (?i va)" for x
    unfolding m' by (rule store32_slot_other [OF al va_indices(2) that])
  have "\<forall>x. x AND 0xfffff000 \<noteq> pt_of m ?pd (?i va) \<longrightarrow> m' x = m x" using frame by blast
  note f = vspace_frame [OF assms(1) va_indices(1) this]
  show "vspace_ok m' v" by (rule f(4))
  show "vspace_pd m' v = ?pd" by (rule f(1))
  show "x AND 0xfffff000 \<noteq> pt_of m ?pd (?i va) \<Longrightarrow> m' x = m x" by (rule frame)
  show "j < 1024 \<Longrightarrow> pt_of m' ?pd j = pt_of m ?pd j" by (rule f(3))
  have inj: "pt_of m ?pd (?i va) = pt_of m ?pd (?i va') \<longleftrightarrow> ?i va = ?i va'"
    using assms(1) va_indices(1) unfolding vspace_ok_def Let_def by metis
  have "pte m' ?pd va' = load32 m' (pt_of m ?pd (?i va') + 4 * of_nat (?k va'))"
    unfolding pte_def f(3) [OF va_indices(1)] ..
  also have "\<dots> = (if ?i va = ?i va' \<and> ?k va = ?k va' then val else pte m ?pd va')"
    unfolding m' load32_slot [OF al al va_indices(2) va_indices(2)] inj pte_def ..
  finally show "pte m' ?pd va' = (if va' AND 0xfffff000 = va then val else pte m ?pd va')"
    using same_page_iff [OF assms(2), of va'] by metis
qed

section \<open>The pages of an address space\<close>

definition space_page :: "memory \<Rightarrow> u32 \<Rightarrow> u32 \<Rightarrow> bool" where
  "space_page m v p \<longleftrightarrow> p = v \<or> p = vspace_pd m v \<or> p = page_directory_entries m (vspace_pd m v)
     \<or> (\<exists>j<1024. p = pt_of m (vspace_pd m v) j)"

text \<open>Two memories that agree on these pages hold the same space.\<close>

lemma vspace_agree:
  assumes "vspace_ok m v" and "\<forall>x. space_page m v (x AND 0xfffff000) \<longrightarrow> m' x = m x"
  shows "vspace_pd m' v = vspace_pd m v"
    and "page_directory_entries m' (vspace_pd m v) = page_directory_entries m (vspace_pd m v)"
    and "j < 1024 \<Longrightarrow> pt_of m' (vspace_pd m v) j = pt_of m (vspace_pd m v) j"
    and "vspace_ok m' v" and "pte m' (vspace_pd m v) va = pte m (vspace_pd m v) va"
    and "space_page m' v = space_page m v"
proof -
  let ?pd = "vspace_pd m v" and ?dir = "page_directory_entries m (vspace_pd m v)"
  note ok = assms(1) [unfolded vspace_ok_def Let_def]
  have cell: "load32 m' (p + 4 * of_nat k) = load32 m (p + 4 * of_nat k)"
    if "space_page m v p" "p mod 4096 = 0" "k < 1024" for p k
    by (rule load32_page [OF that(2,3)]) (use assms(2) that(1) in auto)
  have pages: "space_page m v v" "space_page m v ?pd" "space_page m v ?dir"
    "j < 1024 \<Longrightarrow> space_page m v (pt_of m ?pd j)" for j by (auto simp: space_page_def)
  show pd: "vspace_pd m' v = ?pd" using cell [OF pages(1), of 0] ok by (simp add: vspace_pd_def)
  show dir: "page_directory_entries m' ?pd = ?dir"
    using cell [OF pages(2), of 0] ok by (simp add: page_directory_entries_def)
  show pt: "pt_of m' ?pd j = pt_of m ?pd j" if "j < 1024" for j
    using cell [OF pages(3) _ that] ok by (simp add: pt_of_def dir)
  show "vspace_ok m' v" unfolding vspace_ok_def Let_def pd dir using ok pt by simp
  have "pt_of m ?pd k mod 4096 = 0" for k by (simp add: pt_of_def)
  then show "pte m' ?pd va = pte m ?pd va"
    unfolding pte_def pt [OF va_indices(1)] by (intro cell pages(4) va_indices) simp
  show "space_page m' v = space_page m v"
    using pt by (auto simp: space_page_def fun_eq_iff pd dir)
qed

section \<open>Mapping a range\<close>

text \<open>The distance of a page from an aligned address, in pages.\<close>

definition page_dist :: "u32 \<Rightarrow> u32 \<Rightarrow> nat" where
  "page_dist va va' = unat ((va' AND 0xfffff000) - va) div 4096"

lemma unat_page_dist:
  assumes "va mod 4096 = 0"
  shows "unat ((va' AND 0xfffff000) - va) = 4096 * page_dist va va'"
proof -
  obtain q where q: "unat va = 4096 * q"
    using arg_cong [OF assms, of unat] unat_mod_4096 [of va] by auto
  have b: "unat (va' AND 0xfffff000) = 4096 * (unat va' div 4096)" by (simp add: unat_page_base)
  have "unat ((va' AND 0xfffff000) - va) mod 4096 = 0"
  proof (cases "va \<le> va' AND 0xfffff000")
    case True
    then have "unat ((va' AND 0xfffff000) - va) = 4096 * (unat va' div 4096) - 4096 * q"
      by (simp only: unat_sub b q)
    then show ?thesis by (simp flip: diff_mult_distrib2)
  next
    case False
    have "unat ((va' AND 0xfffff000) - va) = 4096 * (unat va' div 4096) + 4096 * 2 ^ 20 - 4096 * q"
      using False q unsigned_less [of va, where ?'a = nat]
      by (subst unat_sub_if_size) (simp add: word_size b word_le_nat_alt)
    also have "\<dots> = 4096 * (unat va' div 4096 + 2 ^ 20 - q)"
      by (simp only: diff_mult_distrib2 distrib_left)
    finally show ?thesis by simp
  qed
  then show ?thesis unfolding page_dist_def using mult_div_mod_eq [of 4096 "unat ((va' AND 0xfffff000) - va)"]
    by linarith
qed

lemma page_dist_bound: "page_dist va va' < 2 ^ 20"
  using unsigned_less [of "(va' AND 0xfffff000) - va", where ?'a = nat]
  by (simp add: page_dist_def less_mult_imp_div_less)

lemma page_dist_0: "va mod 4096 = 0 \<Longrightarrow> page_dist va va' = 0 \<longleftrightarrow> va' AND 0xfffff000 = va"
  using unat_page_dist [of va va'] by (auto simp: unat_eq_0)

lemma page_dist_next:
  assumes "va mod 4096 = 0"
  shows "page_dist (va + 4096) va' = (if page_dist va va' = 0 then 2 ^ 20 - 1 else page_dist va va' - 1)"
proof -
  have al: "(va + 4096) mod 4096 = 0" using mod_4096_add_mult [of va 1] assms by simp
  let ?d = "(va' AND 0xfffff000) - va"
  have d: "unat ?d = 4096 * page_dist va va'" by (rule unat_page_dist [OF assms])
  have e: "(va' AND 0xfffff000) - (va + 4096) = ?d - 4096" by simp
  have "4096 * page_dist (va + 4096) va' = unat (?d - 4096)"
    using unat_page_dist [OF al, of va'] unfolding e ..
  also have "\<dots> = (if page_dist va va' = 0 then 2 ^ 32 - 4096 else 4096 * page_dist va va' - 4096)"
    using d by (subst unat_sub_if_size) (auto simp: word_size word_le_nat_alt)
  finally show ?thesis by (auto split: if_splits)
qed

lemma map_range_loop_spec:
  assumes "vspace_ok m v" and "va mod 4096 = 0" and "i \<le> n" and "n \<le> 2 ^ 20"
  shows "vspace_ok (map_range_loop m v va pa fl i n) v
    \<and> vspace_pd (map_range_loop m v va pa fl i n) v = vspace_pd m v
    \<and> pte (map_range_loop m v va pa fl i n) (vspace_pd m v) va' =
        (if page_dist va va' < unat n - unat i
         then (pa + of_nat (page_dist va va') * 4096) OR fl else pte m (vspace_pd m v) va')
    \<and> ((\<forall>j<1024. x AND 0xfffff000 \<noteq> pt_of m (vspace_pd m v) j) \<longrightarrow>
         map_range_loop m v va pa fl i n x = m x)"
  using assms
proof (induction m v va pa fl i n rule: map_range_loop.induct)
  case (1 m v va pa fl i n)
  show ?case
  proof (cases "i < n")
    case False
    then show ?thesis using 1(2,4) by (subst (1 2 3 4) map_range_loop.simps) (auto simp: word_less_nat_alt)
  next
    case True
    let ?pd = "vspace_pd m v"
    let ?m = "snd (map_vaddr_to_val m ?pd va (pa OR fl))"
    note one = map_vaddr_spec [OF 1(2,3), where val = "pa OR fl"]
    have al: "(va + 4096) mod 4096 = 0" using mod_4096_add_mult [of va 1] 1(3) by simp
    have suc: "unat (i + 1) = Suc (unat i)" by (rule unat_Suc_less [OF True])
    have le: "i + 1 \<le> n" using True by (simp add: word_le_nat_alt word_less_nat_alt suc)
    have step: "map_range_loop m v va pa fl i n = map_range_loop ?m v (va + 4096) (pa + 4096) fl (i + 1) n"
      using True by (subst map_range_loop.simps) simp
    note ih = "1.IH" [OF True one(1) al le 1(5), unfolded one(2)]
    have in20: "unat n \<le> 2 ^ 20" using 1(5) by (simp add: word_le_nat_alt)
    have "pte (map_range_loop m v va pa fl i n) ?pd va' =
        (if page_dist va va' < unat n - unat i
         then (pa + of_nat (page_dist va va') * 4096) OR fl else pte m ?pd va')"
    proof (cases "page_dist va va' = 0")
      case z: True
      have "\<not> (2 ^ 20 - 1 :: nat) < unat n - Suc (unat i)" using in20 by simp
      then show ?thesis
        using ih z True page_dist_0 [OF 1(3), of va'] unfolding step
        by (simp add: page_dist_next [OF 1(3)] one(3) suc word_less_nat_alt)
    next
      case False
      then have "pa + 4096 + of_nat (page_dist va va' - 1) * 4096 = pa + of_nat (page_dist va va') * 4096"
        by (simp add: of_nat_diff algebra_simps)
      moreover have "page_dist va va' - 1 < unat n - Suc (unat i) \<longleftrightarrow> page_dist va va' < unat n - unat i"
        using False by arith
      ultimately show ?thesis
        using ih False page_dist_0 [OF 1(3), of va'] unfolding step
        by (simp add: page_dist_next [OF 1(3)] one(3) suc)
    qed
    moreover have "map_range_loop m v va pa fl i n x = m x"
      if "\<forall>j<1024. x AND 0xfffff000 \<noteq> pt_of m ?pd j"
      using ih that one(4) [of x] one(5) va_indices(1) [of va] unfolding step by metis
    ultimately show ?thesis using ih unfolding step by blast
  qed
qed

lemma paging_map_range_ok:
  assumes "vspace_ok m v" and "va mod 4096 = 0" and "pa mod 4096 = 0" and "endaddr mod 4096 = 0"
    and "pa \<le> endaddr"
  obtains m' where "paging_map_range m v va pa endaddr fl = (errno SUCCESS, m')" and "vspace_ok m' v"
    and "vspace_pd m' v = vspace_pd m v"
    and "\<And>va'. pte m' (vspace_pd m v) va' = (if page_dist va va' < unat (endaddr - pa) div 4096
      then (pa + of_nat (page_dist va va') * 4096) OR fl else pte m (vspace_pd m v) va')"
    and "\<And>x. (\<forall>j<1024. x AND 0xfffff000 \<noteq> pt_of m (vspace_pd m v) j) \<Longrightarrow> m' x = m x"
proof -
  let ?n = "(endaddr - pa) div 4096"
  let ?m = "map_range_loop m v va pa fl 0 ?n"
  have un: "unat ?n = unat (endaddr - pa) div 4096" by (rule unat_div_4096)
  also have "\<dots> \<le> 2 ^ 20"
    using unsigned_less [of "endaddr - pa", where ?'a = nat]
    by (intro less_imp_le) (simp add: less_mult_imp_div_less)
  finally have "?n \<le> 2 ^ 20" by (simp add: word_le_nat_alt)
  note r = map_range_loop_spec [OF assms(1,2) word_zero_le \<open>?n \<le> 2 ^ 20\<close>, of pa fl]
  show ?thesis
  proof (rule that)
    show "paging_map_range m v va pa endaddr fl = (errno SUCCESS, ?m)"
      using assms by (auto simp: paging_map_range_def address_page_aligned_def Let_def)
    show "vspace_ok ?m v" "vspace_pd ?m v = vspace_pd m v" using r by simp_all
    show "pte ?m (vspace_pd m v) va' = (if page_dist va va' < unat (endaddr - pa) div 4096
      then (pa + of_nat (page_dist va va') * 4096) OR fl else pte m (vspace_pd m v) va')" for va'
      using r un by simp
    show "?m x = m x" if "\<forall>j<1024. x AND 0xfffff000 \<noteq> pt_of m (vspace_pd m v) j" for x
      using r that by blast
  qed
qed

section \<open>The processor on a well-formed space\<close>

definition pde_present :: "memory \<Rightarrow> u32 \<Rightarrow> u32 \<Rightarrow> bool" where
  "pde_present m v va \<longleftrightarrow>
     load32 m (page_directory_entries m (vspace_pd m v) + 4 * of_nat (unat va div 0x400000)) AND 1 \<noteq> 0"

lemma mmu_pte:
  assumes "vspace_ok m v"
  shows "mmu m (page_directory_entries m (vspace_pd m v)) va =
    (if pde_present m v va \<and> pte m (vspace_pd m v) va AND 1 \<noteq> 0
     then Some ((pte m (vspace_pd m v) va AND 0xfffff000) OR (va AND 0xfff)) else None)"
proof -
  let ?dir = "page_directory_entries m (vspace_pd m v)"
  have al: "?dir AND 0xfffff000 = ?dir"
    by (rule aligned_page_base) (use assms in \<open>simp add: vspace_ok_def Let_def\<close>)
  have "load32 m ((load32 m (?dir + 4 * (va div 0x400000)) AND 0xfffff000) + 4 * (va div 4096 mod 1024))
      = pte m (vspace_pd m v) va"
    by (simp only: pte_def pt_of_def page_indices_of_nat)
  then show ?thesis
    unfolding mmu_def Let_def al pde_present_def by (simp add: page_indices_of_nat(1))
qed

text \<open>The translation depends on the pages of the space alone.\<close>

lemma mmu_agree:
  assumes "vspace_ok m v" and "\<forall>x. space_page m v (x AND 0xfffff000) \<longrightarrow> m' x = m x"
  shows "mmu m' (page_directory_entries m (vspace_pd m v)) va = mmu m (page_directory_entries m (vspace_pd m v)) va"
    and "pde_present m' v va = pde_present m v va"
proof -
  let ?dir = "page_directory_entries m (vspace_pd m v)"
  note a = vspace_agree [OF assms]
  have "?dir mod 4096 = 0" using assms(1) by (simp add: vspace_ok_def Let_def)
  moreover have "space_page m v ?dir" by (simp add: space_page_def)
  ultimately have "load32 m' (?dir + 4 * of_nat (unat va div 0x400000))
      = load32 m (?dir + 4 * of_nat (unat va div 0x400000))"
    using assms(2) by (intro load32_page va_indices) auto
  then show p: "pde_present m' v va = pde_present m v va" by (simp add: pde_present_def a(1,2))
  show "mmu m' ?dir va = mmu m ?dir va"
    using mmu_pte [OF a(4), of va] mmu_pte [OF assms(1), of va] by (simp add: a(1,2,5) p)
qed

lemma user_addr_mmu:
  assumes "user_addr m dir need va = Some pa" and "need AND 1 = 1"
  shows "mmu m dir va = Some pa"
proof -
  have b: "x AND 1 = 1" if "x AND need = need" for x :: u32
  proof -
    have "x AND 1 = (x AND need) AND 1" by (simp only: and.assoc assms(2))
    then show ?thesis using that assms(2) by simp
  qed
  then show ?thesis using assms(1) by (auto simp: user_addr_def mmu_def Let_def b split: if_splits)
qed

text \<open>It depends on the pages of the space alone.\<close>

lemma user_addr_agree:
  assumes "vspace_ok m v" and "\<forall>x. space_page m v (x AND 0xfffff000) \<longrightarrow> m' x = m x"
  shows "user_addr m' (page_directory_entries m (vspace_pd m v)) need va
    = user_addr m (page_directory_entries m (vspace_pd m v)) need va"
proof -
  let ?dir = "page_directory_entries m (vspace_pd m v)"
  have d: "?dir mod 4096 = 0" using assms(1) by (simp add: vspace_ok_def Let_def)
  have al: "?dir AND 0xfffff000 = ?dir" by (rule aligned_page_base [OF d])
  have "space_page m v ?dir" by (simp add: space_page_def)
  then have pde: "load32 m' (?dir + 4 * (va div 0x400000)) = load32 m (?dir + 4 * (va div 0x400000))"
    unfolding page_indices_of_nat using assms(2) d by (intro load32_page va_indices) auto
  have pte: "load32 x ((load32 m (?dir + 4 * (va div 0x400000)) AND 0xfffff000) + 4 * (va div 4096 mod 1024))
      = load32 x (pt_of m (vspace_pd m v) (unat va div 0x400000) + 4 * of_nat (unat va div 4096 mod 1024))" for x
    by (simp only: pt_of_def page_indices_of_nat)
  have "space_page m v (pt_of m (vspace_pd m v) (unat va div 0x400000))"
    using va_indices(1) [of va] by (auto simp: space_page_def)
  then have "load32 m' (pt_of m (vspace_pd m v) (unat va div 0x400000) + 4 * of_nat (unat va div 4096 mod 1024))
      = load32 m (pt_of m (vspace_pd m v) (unat va div 0x400000) + 4 * of_nat (unat va div 4096 mod 1024))"
    using assms(2) by (intro load32_page va_indices) (auto simp: pt_of_def)
  then show ?thesis unfolding user_addr_def Let_def al pde pte by simp
qed

text \<open>One mapping leaves the pages of the space and the present bits of its directory alone.\<close>

lemma map_vaddr_space:
  fixes va val :: u32
  assumes "vspace_ok m v" and "va mod 4096 = 0"
  defines "m' \<equiv> snd (map_vaddr_to_val m (vspace_pd m v) va val)"
  shows "page_directory_entries m' (vspace_pd m v) = page_directory_entries m (vspace_pd m v)"
    and "space_page m' v = space_page m v" and "pde_present m' v va' = pde_present m v va'"
    and "\<not> space_page m v (x AND 0xfffff000) \<Longrightarrow> m' x = m x"
proof -
  let ?pd = "vspace_pd m v" and ?i = "unat va div 0x400000"
  note s = map_vaddr_spec [OF assms(1,2), where val = val, folded m'_def]
  have "\<forall>x. x AND 0xfffff000 \<noteq> pt_of m ?pd ?i \<longrightarrow> m' x = m x" using s(4) by blast
  note f = vspace_frame [OF assms(1) va_indices(1) this]
  show dir: "page_directory_entries m' ?pd = page_directory_entries m ?pd" by (rule f(2))
  show "space_page m' v = space_page m v"
    using f(3) by (auto simp: space_page_def fun_eq_iff f(1) dir)
  show "m' x = m x" if "\<not> space_page m v (x AND 0xfffff000)"
    using s(4) [of x] that va_indices(1) [of va] by (auto simp: space_page_def)
  have "load32 m' (page_directory_entries m ?pd + 4 * of_nat (unat va' div 0x400000))
      = load32 m (page_directory_entries m ?pd + 4 * of_nat (unat va' div 0x400000))"
    using assms(1) va_indices(1) [of va] s(4)
    by (intro load32_page va_indices) (auto simp: vspace_ok_def Let_def)
  then show "pde_present m' v va' = pde_present m v va'" by (simp only: pde_present_def f(1) dir)
qed

section \<open>The allocator hands out pages\<close>

definition free_blocks_left :: "heap \<Rightarrow> nat" where
  "free_blocks_left h = card {i. i < unat (num_entries h) \<and> \<not> busy h i}"

locale page_allocator = zeroing_allocator inv alloc release used contents
  for inv :: "'h \<Rightarrow> bool" and alloc release used contents +
  fixes avail :: "'h \<Rightarrow> nat"
  assumes alloc_page: "inv h \<Longrightarrow> 0 < avail h \<Longrightarrow> 0 < n \<Longrightarrow> n \<le> 4096 \<Longrightarrow> alloc h n = Some (a, h') \<Longrightarrow>
      a \<noteq> 0 \<and> avail h = Suc (avail h')"
begin

lemma alloc_pageE:
  assumes "inv h" and "0 < avail h" and "0 < n" and "n \<le> 4096"
  obtains a h' where "alloc h n = Some (a, h')" and "a \<noteq> 0" and "inv h'"
    and "avail h = Suc (avail h')" and "used h \<subseteq> used h'" and "a mod 4096 = 0" and "a \<notin> used h"
    and "a \<in> used h'" and "\<forall>x. within a n x \<longrightarrow> x \<notin> used h \<and> x \<in> used h'"
    and "\<forall>x. x \<in> used h \<longrightarrow> contents h' x = contents h x"
proof -
  obtain a h' where a: "alloc h n = Some (a, h')" using alloc_total [OF assms(1)] by blast
  note p = alloc_page [OF assms a]
  have w: "within a n a" using assms(3) by (simp add: within_def)
  note fresh = alloc_fresh [OF assms(1) a conjunct1 [OF p]] and here = alloc_used [OF assms(1) a conjunct1 [OF p]]
  show ?thesis
  proof (rule that [OF a])
    show "a \<noteq> 0" "avail h = Suc (avail h')" using p by simp_all
    show "inv h'" by (rule alloc_inv [OF assms(1) a])
    show "used h \<subseteq> used h'" by (rule alloc_mono [OF assms(1) a])
    show "a mod 4096 = 0" by (rule alloc_aligned [OF assms(1) a])
    show "a \<notin> used h" by (rule fresh [OF w])
    show "a \<in> used h'" by (rule here [OF w])
    show "\<forall>x. within a n x \<longrightarrow> x \<notin> used h \<and> x \<in> used h'" using fresh here by blast
    show "\<forall>x. x \<in> used h \<longrightarrow> contents h' x = contents h x"
      using alloc_keeps_used [OF assms(1) a] by blast
  qed
qed

text \<open>As many single-page requests succeed as there are pages left.\<close>

lemma alloc_run_pages:
  assumes "inv h" and "k \<le> avail h" and "0 < n" and "n \<le> 4096" and "alloc_run alloc h n k = Some (as, h')"
  shows "0 \<notin> set as \<and> avail h' = avail h - k"
  using assms
proof (induction k arbitrary: h as)
  case 0
  then show ?case by simp
next
  case (Suc k)
  obtain b h1 bs where b: "alloc h n = Some (b, h1)" "alloc_run alloc h1 n k = Some (bs, h')"
    "as = b # bs"
    using Suc.prems(5) by (auto split: option.splits)
  have p: "b \<noteq> 0" "avail h = Suc (avail h1)"
    using alloc_page [OF Suc.prems(1) _ Suc.prems(3,4) b(1)] Suc.prems(2) by simp_all
  have "0 \<notin> set bs \<and> avail h' = avail h1 - k"
    by (rule Suc.IH [OF alloc_inv [OF Suc.prems(1) b(1)] _ Suc.prems(3,4) b(2)]) (use p Suc.prems(2) in simp)
  then show ?case using p b(3) by simp
qed

end

lemma run_free_one: "run_free h i 1 \<longleftrightarrow> i < unat (num_entries h) \<and> \<not> busy h i"
  by (auto simp: run_free_def)

lemma busy_claim_one:
  assumes "i < 2 ^ 32" and "j < 2 ^ 32"
  shows "busy (claim h i (Suc 0)) j \<longleftrightarrow> j = i \<or> busy h j"
  using assms by (auto simp: busy_def claim_def block_tag_def unat_of_nat_less)

lemma malloc_page:
  assumes "heap_inv h" and "0 < free_blocks_left h" and "0 < n" and "n \<le> 4096"
    and "malloc h n = Some (a, h')"
  shows "a \<noteq> 0 \<and> free_blocks_left h = Suc (free_blocks_left h')"
proof -
  have n: "0 < unat n" "unat n \<le> 4096"
    using assms(3,4) by (simp_all add: word_less_nat_alt word_le_nat_alt)
  then have "(unat n + 4095) div 4096 = 1" by (intro div_nat_eqI) simp_all
  then have b: "blocks_of n = 1" using n(2) by (simp add: blocks_of_eq)
  have "\<exists>i. run_free h i 1"
    unfolding run_free_one using assms(2) by (auto simp: free_blocks_left_def card_gt_0_iff)
  then obtain i where i: "first_fit h 1 = Some i" by (auto simp: first_fit_def)
  then have f: "i < unat (num_entries h)" "\<not> busy h i"
    using first_fit_Some [OF i] unfolding run_free_one by simp_all
  have m: "a = block_addr h i" "h' = claim h i 1"
    using assms(5) unfolding malloc_first_fit [OF assms(1)] b i by (simp_all)
  have small: "i < 2 ^ 20" "unat (num_entries h) \<le> 2 ^ 20"
    using f(1) heap_inv_num [OF assms(1)] by simp_all
  have busy: "busy h' j \<longleftrightarrow> j = i \<or> busy h j" if "j < unat (num_entries h)" for j
    unfolding m(2) One_nat_def by (rule busy_claim_one) (use that small in simp_all)
  have num: "num_entries h' = num_entries h" by (simp add: m(2))
  have "{j. j < unat (num_entries h) \<and> \<not> busy h j}
      = insert i {j. j < unat (num_entries h) \<and> \<not> busy h' j}"
    using f busy by blast
  moreover have "i \<notin> {j. j < unat (num_entries h) \<and> \<not> busy h' j}"
    using busy [OF f(1)] by simp
  ultimately have "free_blocks_left h = Suc (free_blocks_left h')"
    unfolding free_blocks_left_def num by simp
  moreover have "a \<noteq> 0"
  proof
    assume "a = 0"
    have lt: "unat (heap_base h) + 4096 * i < 2 ^ 32" using assms(1) f(1) by (simp add: heap_inv_def)
    have u: "unat (of_nat (4096 * i) :: u32) = 4096 * i" using small by (intro unat_of_nat_less) simp
    have e: "a = heap_base h + of_nat (4096 * i)" by (simp add: m(1) block_addr_def mult.commute)
    have "unat a = unat (heap_base h) + 4096 * i"
      unfolding e using unat_word_ariths(1) [of "heap_base h" "of_nat (4096 * i)"] lt
      by (simp only: u) simp
    then show False using assms(1) \<open>a = 0\<close> by (simp add: heap_inv_def unat_eq_0)
  qed
  ultimately show ?thesis by simp
qed

abbreviation (input) kavail :: "'a kst_scheme \<Rightarrow> nat" where
  "kavail s \<equiv> free_blocks_left (kheap s)"

interpretation pages: page_allocator kinv kzalloc kfree kused mem kavail
  by unfold_locales (use malloc_page kzalloc_kheap in blast)

text \<open>The heap allocates whole pages.\<close>

lemma block_of_page:
  assumes "heap_inv h"
  shows "block_of h (x AND 0xfffff000) = block_of h x"
proof -
  let ?b = "heap_base h" and ?q = "x AND 0xfffff000"
  have b: "?b mod 4096 = 0" using assms by (simp add: heap_inv_def)
  have "(q - ?b) mod 4096 = 0" if "q mod 4096 = 0" for q
    using b that by (simp add: mod_4096_take_bit take_bit_eq_0_iff dvd_diff)
  then have al: "(?q - ?b) mod 4096 = 0" by simp
  have x: "x - ?b = (?q - ?b) + x mod 4096" using page_base_split [of x] by (simp add: algebra_simps)
  have d: "x mod 4096 < 4096" by (rule word_mod_less_divisor) simp
  have "unat (x - ?b) = unat (?q - ?b) + unat (x mod 4096)"
    unfolding x by (rule page_offset(1) [OF al d])
  moreover have "unat (?q - ?b) mod 4096 = 0" using al unat_mod_4096 [of "?q - ?b"] by simp
  then obtain k where "unat (?q - ?b) = 4096 * k" by blast
  moreover have "unat (x mod 4096) < 4096" using d by (simp add: word_less_nat_alt)
  ultimately show ?thesis by (simp add: block_of_def)
qed

lemma kused_page:
  assumes "kinv s" and "x AND 0xfffff000 = q"
  shows "x \<in> kused s \<longleftrightarrow> q \<in> kused s"
  using block_of_page [OF assms(1), of x] assms(2) by (simp add: used_def)

text \<open>A heap with four blocks in use, for the examples.\<close>

definition four_blocks :: heap where
  "four_blocks = \<lparr>entries = (\<lambda>i. if i < 4 then 1 else 0), num_entries = 25600, heap_base = 0x1000000\<rparr>"

lemma four_blocks_geometry [simp]: "heap_base four_blocks = 0x1000000" "num_entries four_blocks = 25600"
  by (simp_all add: four_blocks_def)

lemma four_blocks:
  "heap_inv four_blocks" "free_blocks_left four_blocks = 25596"
  "x \<in> used four_blocks \<longleftrightarrow> within 0x1000000 0x4000 x"
proof -
  show "heap_inv four_blocks" by (simp add: four_blocks_def heap_inv_def)
  have b: "busy four_blocks i \<longleftrightarrow> i < 4" if "i < 25600" for i
    using that by (auto simp: four_blocks_def busy_def word_less_nat_alt unat_of_nat_less)
  have "{i. i < unat (num_entries four_blocks) \<and> \<not> busy four_blocks i} = {4..<25600}"
    using b by (auto simp: four_blocks_def)
  then show "free_blocks_left four_blocks = 25596" by (simp add: free_blocks_left_def)
  have "block_of four_blocks x < 4 \<longleftrightarrow> within 0x1000000 0x4000 x"
    by (simp add: block_of_def four_blocks_def within_def word_less_nat_alt div_less_iff_less_mult)
  then show "x \<in> used four_blocks \<longleftrightarrow> within 0x1000000 0x4000 x"
    using b [of "block_of four_blocks x"] by (auto simp: used_def four_blocks_def)
qed

lemma four_blocks_used:
  assumes "within a k x" and "0x1000000 \<le> a" and "unat a + unat k \<le> 0x1004000"
  shows "x \<in> used four_blocks"
proof -
  have "unat (x - 0x1000000) = unat (a - 0x1000000) + unat (x - a)"
  proof -
    have "x - 0x1000000 = (a - 0x1000000) + (x - a)" by simp
    moreover have "unat (a - 0x1000000) = unat a - 0x1000000" using assms(2) by (simp add: unat_sub)
    ultimately show ?thesis
      using assms(1,3) unat_word_ariths(1) [of "a - 0x1000000" "x - a"]
      by (simp add: within_def word_less_nat_alt)
  qed
  then show ?thesis
    using assms unfolding four_blocks(3) by (simp add: within_def word_less_nat_alt word_le_nat_alt unat_sub)
qed

lemma page_dir_loop_rest [rest_rules]: "page_dir_loop s d off f i = Some s' \<Longrightarrow> rest s' = rest s"
proof (induction s d off f i rule: page_dir_loop.induct)
  case (1 s d off f i)
  show ?case
  proof (cases "i < 1024")
    case True
    obtain pt s1 where k: "kzalloc s (4 * 1024) = Some (pt, s1)"
      using 1(2) True by (subst (asm) page_dir_loop.simps) (auto split: option.splits)
    let ?m = "store32 (page_table_loop (mem s1) pt off f 0) (d + 4 * of_nat i) (pt OR ucast f OR PAGE_WRITE_ACCESS)"
    have "page_dir_loop (s1\<lparr>mem := ?m\<rparr>) d (off + 1024 * PAGE_SIZE) f (i + 1) = Some s'"
      using 1(2) True k by (subst (asm) page_dir_loop.simps) simp
    from "1.IH" [OF True k refl refl] this kzalloc_rest [OF k] show ?thesis by simp
  qed (use 1(2) in \<open>simp add: page_dir_loop.simps [of s d off f i]\<close>)
qed

lemma create_vspace_rest [rest_rules]:
  "create_virtual_address_space s f = Some (v, s') \<Longrightarrow> rest s' = rest s"
  by (auto simp: create_virtual_address_space_def new_page_directory_def dest!: rest_rules split: option.splits)

section \<open>Building an address space\<close>

definition identity_entry :: "u8 \<Rightarrow> nat \<Rightarrow> nat \<Rightarrow> u32" where
  "identity_entry f j k = (of_nat j * 0x400000 + of_nat k * 4096) OR ucast f"

lemma page_table_loop_spec:
  assumes "pt mod 4096 = 0" and "i \<le> 1024" and "k < 1024"
  shows "load32 (page_table_loop m pt off f i) (pt + 4 * of_nat k) =
      (if i \<le> k then (off + of_nat k * 4096) OR ucast f else load32 m (pt + 4 * of_nat k))"
    and "x AND 0xfffff000 \<noteq> pt \<Longrightarrow> page_table_loop m pt off f i x = m x"
proof -
  have "load32 (page_table_loop m pt off f i) (pt + 4 * of_nat k) =
      (if i \<le> k then (off + of_nat k * 4096) OR ucast f else load32 m (pt + 4 * of_nat k))
    \<and> (x AND 0xfffff000 \<noteq> pt \<longrightarrow> page_table_loop m pt off f i x = m x)"
    using assms
  proof (induction m pt off f i rule: page_table_loop.induct)
    case (1 m pt off f i)
    show ?case
    proof (cases "i < 1024")
      case True
      have "i + 1 \<le> 1024" using True by simp
      note ih = "1.IH" [OF True 1(2) this 1(4)]
      have step: "page_table_loop m pt off f i = page_table_loop
          (store32 m (pt + 4 * of_nat i) ((off + of_nat i * 4096) OR ucast f)) pt off f (i + 1)"
        using True by (subst page_table_loop.simps) simp
      show ?thesis
        using ih unfolding step load32_slot [OF 1(2) 1(2) True 1(4)]
        by (cases "i = k") (auto simp: store32_slot_other [OF 1(2) True] store32_slot_other [OF 1(2,4)])
    next
      case False
      then show ?thesis using 1(3,4) by (subst (1 2) page_table_loop.simps) simp
    qed
  qed
  then show "load32 (page_table_loop m pt off f i) (pt + 4 * of_nat k) =
      (if i \<le> k then (off + of_nat k * 4096) OR ucast f else load32 m (pt + 4 * of_nat k))"
    "x AND 0xfffff000 \<noteq> pt \<Longrightarrow> page_table_loop m pt off f i x = m x" by simp_all
qed

lemma entry_base:
  fixes p g :: u32
  assumes "p mod 4096 = 0" and "g < 4096"
  shows "(p OR g) AND 0xfffff000 = p"
proof -
  have "take_bit 12 (unat g) = unat g" using assms(2) by (intro take_bit_nat_eq_self) (simp add: word_less_nat_alt)
  then have g: "\<not> bit g n" if "12 \<le> n" for n
    using that bit_take_bit_iff [of 12 "unat g" n] by (simp add: bit_unsigned_iff)
  have "(p OR g) AND 0xfffff000 = p AND 0xfffff000"
    unfolding page_masks by (rule bit_word_eqI) (auto simp: bit_simps g)
  then show ?thesis using aligned_page_base [OF assms(1)] by simp
qed

lemma flags_small: "ucast (f :: u8) < (4096 :: u32)" "ucast (f :: u8) OR 2 < (4096 :: u32)"
proof -
  have n: "\<not> bit (ucast f OR 2 :: u32) n" if "12 \<le> n" for n
  proof -
    have "\<not> bit (2 :: u32) n" using that by (simp add: bit_numeral_word_iff bit_2_iff numeral_2_eq_2)
    then show ?thesis using that by (auto simp: bit_simps dest: bit_imp_le_length)
  qed
  have "take_bit 12 (ucast f OR 2 :: u32) = ucast f OR 2"
    by (rule bit_word_eqI) (simp only: bit_take_bit_iff, metis n not_less)
  then have "ucast f OR 2 = (ucast f OR 2 :: u32) mod 4096" by (simp add: mod_4096_take_bit)
  then show "ucast f OR 2 < (4096 :: u32)" by (rule ssubst) (rule word_mod_less_divisor, simp)
  have "unat f < 256" using unsigned_less [of f, where ?'a = nat] by simp
  then show "ucast f < (4096 :: u32)"
    by (simp add: word_less_nat_alt unsigned_ucast_eq take_bit_nat_eq_self)
qed

text \<open>Slot \<open>j\<close> of the directory points to a table of the identity, whose page is in \<open>P\<close>.\<close>

definition table_slot :: "memory \<Rightarrow> u32 \<Rightarrow> u8 \<Rightarrow> nat \<Rightarrow> u32" where
  "table_slot m dir f j = load32 m (dir + 4 * of_nat j) AND 0xfffff000"

definition identity_table :: "memory \<Rightarrow> u32 \<Rightarrow> u8 \<Rightarrow> nat \<Rightarrow> bool" where
  "identity_table m dir f j \<longleftrightarrow>
     load32 m (dir + 4 * of_nat j) = table_slot m dir f j OR (ucast f OR 2)
     \<and> (\<forall>k<1024. load32 m (table_slot m dir f j + 4 * of_nat k) = identity_entry f j k)"

lemma table_slot_aligned [simp]: "table_slot m dir f j mod 4096 = 0"
  by (simp add: table_slot_def)

lemma identity_table_cong:
  assumes "identity_table m dir f j" and "dir mod 4096 = 0" and "j < 1024"
    and "load32 m' (dir + 4 * of_nat j) = load32 m (dir + 4 * of_nat j)"
    and "\<And>x. x AND 0xfffff000 = table_slot m dir f j \<Longrightarrow> m' x = m x"
  shows "identity_table m' dir f j"
proof -
  have t: "table_slot m' dir f j = table_slot m dir f j" by (simp add: table_slot_def assms(4))
  have "load32 m' (table_slot m dir f j + 4 * of_nat k) = load32 m (table_slot m dir f j + 4 * of_nat k)"
    if "k < 1024" for k by (rule load32_page [OF table_slot_aligned that]) (rule assms(5))
  then show ?thesis using assms(1) by (simp add: identity_table_def t assms(4))
qed

text \<open>One round of the loop.\<close>

lemma kzalloc_frame: "kzalloc s n = Some (a, s1) \<Longrightarrow> s1 = s\<lparr>mem := mem s1, kheap := kheap s1\<rparr>"
  by (erule kzalloc_SomeE) (cases "a = 0"; simp)

lemma page_dir_round:
  assumes "kinv s" and "0 < kavail s" and "dir mod 4096 = 0" and "i < 1024"
    and "\<forall>x. within dir 4096 x \<longrightarrow> x \<in> kused s"
  obtains pt s1 m2 where "kzalloc s (4 * 1024) = Some (pt, s1)"
    and "m2 = store32 (page_table_loop (mem s1) pt (of_nat i * 0x400000) f 0)
             (dir + 4 * of_nat i) (pt OR ucast f OR PAGE_WRITE_ACCESS)"
    and "s1 = s\<lparr>mem := mem s1, kheap := kheap s1\<rparr>" and "kinv s1" and "kavail s = Suc (kavail s1)"
    and "kused s \<subseteq> kused s1" and "table_slot m2 dir f i = pt" and "identity_table m2 dir f i"
    and "pt \<noteq> 0" and "pt \<notin> kused s" and "\<And>x. within pt 4096 x \<Longrightarrow> x \<in> kused s1"
    and "pt \<noteq> dir"
    and "\<And>x. x \<in> kused s \<Longrightarrow> x AND 0xfffff000 \<noteq> dir \<Longrightarrow> m2 x = mem s x"
    and "\<And>j. j < 1024 \<Longrightarrow> j \<noteq> i \<Longrightarrow> load32 m2 (dir + 4 * of_nat j) = load32 (mem s) (dir + 4 * of_nat j)"
    and "\<And>x. x \<notin> kused s1 \<Longrightarrow> m2 x = mem s x"
proof -
  have n: "(0 :: u32) < 4 * 1024" "(4 * 1024 :: u32) \<le> 4096" by simp_all
  obtain pt s1 where a:
    "kzalloc s (4 * 1024) = Some (pt, s1)" "pt \<noteq> 0" "kinv s1" "kavail s = Suc (kavail s1)"
    "kused s \<subseteq> kused s1" "pt mod 4096 = 0" "pt \<notin> kused s" "pt \<in> kused s1"
    "\<forall>x. within pt (4 * 1024) x \<longrightarrow> x \<notin> kused s \<and> x \<in> kused s1"
    "\<forall>x. x \<in> kused s \<longrightarrow> mem s1 x = mem s x" by (rule pages.alloc_pageE [OF assms(1,2) n])
  let ?m1 = "page_table_loop (mem s1) pt (of_nat i * 0x400000) f 0"
  let ?e = "pt OR ucast f OR PAGE_WRITE_ACCESS"
  let ?m2 = "store32 ?m1 (dir + 4 * of_nat i) ?e"
  have "within dir 4096 dir" by (simp add: within_def)
  then have "dir \<in> kused s" using assms(5) by blast
  then have ne: "pt \<noteq> dir" using a(7) by blast
  have pg: "within pt 4096 x \<Longrightarrow> x \<notin> kused s \<and> x \<in> kused s1" for x using a(9) by simp
  have s1: "s1 = s\<lparr>mem := mem s1, kheap := kheap s1\<rparr>"
    using a(1) by (rule kzalloc_frame)
  have dpt: "x AND 0xfffff000 \<noteq> pt" if "x \<in> kused s" for x
    using pg [of x] that within_page [OF a(6), of x] by blast
  have fr: "?m2 x = mem s x" if "x \<in> kused s" "x AND 0xfffff000 \<noteq> dir" for x
    using store32_slot_other [OF assms(3,4) that(2), of ?m1] dpt [OF that(1)]
      page_table_loop_spec(2) [OF a(6), of 0 0 x "mem s1"] a(10) that(1) by simp
  have slots: "load32 ?m2 (dir + 4 * of_nat j) = (if j = i then ?e else load32 (mem s) (dir + 4 * of_nat j))"
    if "j < 1024" for j
  proof -
    have "load32 ?m1 (dir + 4 * of_nat j) = load32 (mem s) (dir + 4 * of_nat j)"
    proof (rule load32_page [OF assms(3) that])
      fix x assume "x AND 0xfffff000 = dir"
      then have x: "x \<in> kused s" "x AND 0xfffff000 \<noteq> pt"
        using assms(5) within_page [OF assms(3), of x] ne by blast+
      have "?m1 x = mem s1 x" by (rule page_table_loop_spec(2) [OF a(6) _ _ x(2), of 0 0]) simp_all
      then show "?m1 x = mem s x" using x(1) a(10) by simp
    qed
    then show ?thesis using load32_slot [OF assms(3,3,4) that] by auto
  qed
  have ts: "table_slot ?m2 dir f i = pt"
    unfolding table_slot_def slots [OF assms(4)] by (simp add: entry_base [OF a(6) flags_small(2)])
  have "load32 ?m2 (pt + 4 * of_nat k) = identity_entry f i k" if "k < 1024" for k
  proof -
    have "load32 ?m2 (pt + 4 * of_nat k) = load32 ?m1 (pt + 4 * of_nat k)"
      using load32_slot [OF assms(3) a(6) assms(4) that] ne by auto
    then show ?thesis using page_table_loop_spec(1) [OF a(6) _ that, of 0] by (simp add: identity_entry_def)
  qed
  then have it: "identity_table ?m2 dir f i"
    unfolding identity_table_def ts by (simp add: slots assms(4))
  show ?thesis
  proof (rule that [OF a(1) refl s1 a(3,4,5) ts it a(2,7)])
    show "x \<in> kused s1" if "within pt 4096 x" for x using pg [OF that] ..
    show "?m2 x = mem s x" if "x \<in> kused s" "x AND 0xfffff000 \<noteq> dir" for x by (rule fr [OF that])
    show "load32 ?m2 (dir + 4 * of_nat j) = load32 (mem s) (dir + 4 * of_nat j)"
      if "j < 1024" "j \<noteq> i" for j using slots [OF that(1)] that(2) by simp
    show "?m2 x = mem s x" if x: "x \<notin> kused s1" for x
    proof -
      have "x AND 0xfffff000 \<noteq> pt" "x AND 0xfffff000 \<noteq> dir" "\<not> within pt (4 * 1024) x"
        using x pg [of x] a(5) assms(5) within_page [OF a(6), of x] within_page [OF assms(3), of x] by auto
      then show ?thesis
        using store32_slot_other [OF assms(3,4), of x ?m1] page_table_loop_spec(2) [OF a(6), of 0 0 x "mem s1"]
          kz.alloc_frame [OF assms(1) a(1), of x] by simp
    qed
  qed (rule ne)
qed

text \<open>What the loop has done when it starts at slot \<open>i\<close>.\<close>

definition tables_built :: "'a kst_scheme \<Rightarrow> 'a kst_scheme \<Rightarrow> u32 \<Rightarrow> u8 \<Rightarrow> nat \<Rightarrow> bool" where
  "tables_built s s' dir f i \<longleftrightarrow> s' = s\<lparr>mem := mem s', kheap := kheap s'\<rparr> \<and> kinv s'
     \<and> kavail s = kavail s' + (1024 - i) \<and> kused s \<subseteq> kused s'
     \<and> (\<forall>j. i \<le> j \<and> j < 1024 \<longrightarrow> identity_table (mem s') dir f j
          \<and> table_slot (mem s') dir f j \<notin> kused s \<and> table_slot (mem s') dir f j \<in> kused s')
     \<and> (\<forall>j k. i \<le> j \<and> j < 1024 \<and> i \<le> k \<and> k < 1024
          \<and> table_slot (mem s') dir f j = table_slot (mem s') dir f k \<longrightarrow> j = k)
     \<and> (\<forall>x. x \<in> kused s \<and> x AND 0xfffff000 \<noteq> dir \<longrightarrow> mem s' x = mem s x)
     \<and> (\<forall>j<i. load32 (mem s') (dir + 4 * of_nat j) = load32 (mem s) (dir + 4 * of_nat j))
     \<and> (\<forall>x. x \<notin> kused s' \<longrightarrow> mem s' x = mem s x)"

lemma tables_built_0: "kinv s \<Longrightarrow> 1024 \<le> i \<Longrightarrow> tables_built s s dir f i"
  by (auto simp: tables_built_def)

lemma tables_built_step:
  assumes dir: "dir mod 4096 = 0" and i: "i < 1024"
    and s1: "s1 = s\<lparr>mem := mem s1, kheap := kheap s1\<rparr>" and av: "kavail s = Suc (kavail s1)"
    and us: "kused s \<subseteq> kused s1" and ts: "table_slot m2 dir f i = pt" and it: "identity_table m2 dir f i"
    and nu: "pt \<notin> kused s" and pg: "\<And>x. within pt 4096 x \<Longrightarrow> x \<in> kused s1" and ne: "pt \<noteq> dir"
    and fr: "\<And>x. x \<in> kused s \<Longrightarrow> x AND 0xfffff000 \<noteq> dir \<Longrightarrow> m2 x = mem s x"
    and sl: "\<And>j. j < 1024 \<Longrightarrow> j \<noteq> i \<Longrightarrow> load32 m2 (dir + 4 * of_nat j) = load32 (mem s) (dir + 4 * of_nat j)"
    and out: "\<And>x. x \<notin> kused s1 \<Longrightarrow> m2 x = mem s x"
    and b: "tables_built (s1\<lparr>mem := m2\<rparr>) s' dir f (Suc i)"
  shows "tables_built s s' dir f i"
proof -
  let ?s2 = "s1\<lparr>mem := m2\<rparr>"
  note b' = b [unfolded tables_built_def]
  have e1: "s' = ?s2\<lparr>mem := mem s', kheap := kheap s'\<rparr>" and e2: "kinv s'"
    and e3: "kavail ?s2 = kavail s' + (1024 - Suc i)" and e4: "kused ?s2 \<subseteq> kused s'"
    using b' by blast+
  have e5: "\<And>j. Suc i \<le> j \<Longrightarrow> j < 1024 \<Longrightarrow> identity_table (mem s') dir f j
      \<and> table_slot (mem s') dir f j \<notin> kused ?s2 \<and> table_slot (mem s') dir f j \<in> kused s'"
    and e6: "\<And>j k. Suc i \<le> j \<Longrightarrow> j < 1024 \<Longrightarrow> Suc i \<le> k \<Longrightarrow> k < 1024 \<Longrightarrow>
      table_slot (mem s') dir f j = table_slot (mem s') dir f k \<Longrightarrow> j = k"
    and e7: "\<And>x. x \<in> kused ?s2 \<Longrightarrow> x AND 0xfffff000 \<noteq> dir \<Longrightarrow> mem s' x = m2 x"
    and e8: "\<And>j. j < Suc i \<Longrightarrow> load32 (mem s') (dir + 4 * of_nat j) = load32 m2 (dir + 4 * of_nat j)"
    and e9: "\<And>x. x \<notin> kused s' \<Longrightarrow> mem s' x = m2 x"
    using b' by (blast, blast, simp, simp, simp)
  have u2: "kused ?s2 = kused s1" by simp
  have al: "pt mod 4096 = 0" using ts table_slot_aligned by metis
  have ts': "table_slot (mem s') dir f i = pt" using ts e8 [of i] by (simp add: table_slot_def)
  have it': "identity_table (mem s') dir f i"
  proof (rule identity_table_cong [OF it dir i e8])
    fix x assume x: "x AND 0xfffff000 = table_slot m2 dir f i"
    then have "within pt 4096 x" using within_page [OF al, of x] ts by simp
    then have "x \<in> kused ?s2" using pg u2 by blast
    then show "mem s' x = m2 x" by (rule e7) (use x ts ne in simp)
  qed simp
  have ptu: "pt \<in> kused s1" using pg [of pt] by (simp add: within_def)
  have here: "identity_table (mem s') dir f j \<and> table_slot (mem s') dir f j \<notin> kused s
      \<and> table_slot (mem s') dir f j \<in> kused s'" if "i \<le> j" "j < 1024" for j
  proof (cases "j = i")
    case True
    then show ?thesis using ts' it' nu ptu e4 u2 by auto
  next
    case False
    then have "Suc i \<le> j" using that(1) by simp
    then show ?thesis using e5 [OF _ that(2)] us u2 by auto
  qed
  have inj: "j = k" if "i \<le> j" "j < 1024" "i \<le> k" "k < 1024"
    "table_slot (mem s') dir f j = table_slot (mem s') dir f k" for j k
  proof -
    have d: "table_slot (mem s') dir f l \<noteq> pt" if "Suc i \<le> l" "l < 1024" for l
      using e5 [OF that] ptu u2 by auto
    show ?thesis
      using that ts' d [of j] d [of k] e6 [of j k] by (cases "j = i"; cases "k = i") auto
  qed
  have "s' = s\<lparr>mem := mem s', kheap := kheap s'\<rparr>"
    by (subst e1, subst s1) simp
  moreover have "kavail s = kavail s' + (1024 - i)" using av e3 i by simp
  moreover have "kused s \<subseteq> kused s'" using us e4 u2 by simp
  moreover have "mem s' x = mem s x" if "x \<in> kused s" "x AND 0xfffff000 \<noteq> dir" for x
    using e7 [of x] fr [OF that] that us u2 by auto
  moreover have "load32 (mem s') (dir + 4 * of_nat j) = load32 (mem s) (dir + 4 * of_nat j)" if "j < i" for j
    using e8 [of j] sl [of j] that i by simp
  moreover have "mem s' x = mem s x" if "x \<notin> kused s'" for x
    using e9 [OF that] out [of x] that e4 u2 by auto
  ultimately show ?thesis unfolding tables_built_def using e2 here inj by blast
qed

lemma page_dir_loop_spec:
  assumes "kinv s" and "1024 - i \<le> kavail s" and "dir mod 4096 = 0"
    and "\<forall>x. within dir 4096 x \<longrightarrow> x \<in> kused s"
  shows "\<exists>s'. page_dir_loop s dir (of_nat i * 0x400000) f i = Some s' \<and> tables_built s s' dir f i"
  using assms
proof (induction "1024 - i" arbitrary: s i)
  case 0
  then show ?case by (subst page_dir_loop.simps) (simp add: tables_built_0)
next
  case (Suc n)
  then have i: "i < 1024" and av: "0 < kavail s" by simp_all
  obtain pt s1 m2 where r: "kzalloc s (4 * 1024) = Some (pt, s1)"
    "m2 = store32 (page_table_loop (mem s1) pt (of_nat i * 0x400000) f 0)
             (dir + 4 * of_nat i) (pt OR ucast f OR PAGE_WRITE_ACCESS)"
    "s1 = s\<lparr>mem := mem s1, kheap := kheap s1\<rparr>" "kinv s1" "kavail s = Suc (kavail s1)"
    "kused s \<subseteq> kused s1" "table_slot m2 dir f i = pt" "identity_table m2 dir f i"
    "pt \<noteq> 0" "pt \<notin> kused s" "\<And>x. within pt 4096 x \<Longrightarrow> x \<in> kused s1" "pt \<noteq> dir"
    "\<And>x. x \<in> kused s \<Longrightarrow> x AND 0xfffff000 \<noteq> dir \<Longrightarrow> m2 x = mem s x"
    "\<And>j. j < 1024 \<Longrightarrow> j \<noteq> i \<Longrightarrow> load32 m2 (dir + 4 * of_nat j) = load32 (mem s) (dir + 4 * of_nat j)"
    "\<And>x. x \<notin> kused s1 \<Longrightarrow> m2 x = mem s x"
    by (rule page_dir_round [OF Suc.prems(1) av Suc.prems(3) i Suc.prems(4)]) (rule that)
  let ?s2 = "s1\<lparr>mem := m2\<rparr>"
  have off: "of_nat i * 0x400000 + 1024 * 4096 = (of_nat (Suc i) * 0x400000 :: u32)" by simp
  have step: "page_dir_loop s dir (of_nat i * 0x400000) f i = page_dir_loop ?s2 dir (of_nat (Suc i) * 0x400000) f (Suc i)"
    using i r(1) unfolding r(2) off [symmetric] by (subst page_dir_loop.simps) (simp add: Let_def)
  have "\<exists>s'. page_dir_loop ?s2 dir (of_nat (Suc i) * 0x400000) f (Suc i) = Some s'
      \<and> tables_built ?s2 s' dir f (Suc i)"
    by (rule Suc.hyps(1)) (use Suc r(4,5,6) in auto)
  then show ?case unfolding step
    using tables_built_step [OF Suc.prems(3) i r(3,5,6,7,8,10,11,12,13,14,15)] by blast
qed

lemma within_4_page: "p mod 4096 = 0 \<Longrightarrow> within p 4 x \<Longrightarrow> x AND 0xfffff000 = p" for p :: u32
  using within_slot4 [of p 0 x] by simp

lemma tables_builtD:
  assumes "tables_built s s' dir f 0"
  shows "s' = s\<lparr>mem := mem s', kheap := kheap s'\<rparr>" and "kinv s'"
    and "kavail s = kavail s' + 1024" and "kused s \<subseteq> kused s'"
    and "j < 1024 \<Longrightarrow> identity_table (mem s') dir f j"
    and "j < 1024 \<Longrightarrow> table_slot (mem s') dir f j \<notin> kused s"
    and "j < 1024 \<Longrightarrow> table_slot (mem s') dir f j \<in> kused s'"
    and "j < 1024 \<Longrightarrow> k < 1024 \<Longrightarrow> table_slot (mem s') dir f j = table_slot (mem s') dir f k \<Longrightarrow> j = k"
    and "x \<in> kused s \<Longrightarrow> x AND 0xfffff000 \<noteq> dir \<Longrightarrow> mem s' x = mem s x"
    and "x \<notin> kused s' \<Longrightarrow> mem s' x = mem s x"
  using assms unfolding tables_built_def diff_zero by (elim conjE; simp only: le0 simp_thms)+

lemma kst_frame_trans:
  assumes "t = s\<lparr>mem := mem t, kheap := kheap t\<rparr>" and "u = t\<lparr>mem := mem u, kheap := kheap u\<rparr>"
  shows "u = s\<lparr>mem := mem u, kheap := kheap u\<rparr>"
  by (subst assms(2), subst assms(1)) simp

lemma kst_frame_upd:
  "t = s\<lparr>mem := mem t, kheap := kheap t\<rparr> \<Longrightarrow>
    t\<lparr>mem := m\<rparr>\<lparr>mem := m'\<rparr> = s\<lparr>mem := m', kheap := kheap t\<rparr>"
  by (erule ssubst [where P = "\<lambda>t'. t'\<lparr>mem := m\<rparr>\<lparr>mem := m'\<rparr> = s\<lparr>mem := m', kheap := kheap t\<rparr>"]) simp

lemma create_vspace_spec:
  assumes "kinv s" and "1027 \<le> kavail s"
  obtains v s' pd dir where "create_virtual_address_space s f = Some (v, s')"
    and "v \<noteq> 0" and "kinv s'" and "kused s \<subseteq> kused s'" and "kavail s = kavail s' + 1027"
    and "s' = s\<lparr>mem := mem s', kheap := kheap s'\<rparr>"
    and "pd = vspace_pd (mem s') v" and "dir = page_directory_entries (mem s') pd"
    and "v mod 4096 = 0" and "pd mod 4096 = 0" and "dir mod 4096 = 0" and "v \<noteq> dir" and "pd \<noteq> dir"
    and "\<And>j. j < 1024 \<Longrightarrow> identity_table (mem s') dir f j"
    and "\<And>j. j < 1024 \<Longrightarrow> table_slot (mem s') dir f j \<notin> {v, pd, dir}"
    and "\<And>j k. j < 1024 \<Longrightarrow> k < 1024 \<Longrightarrow> table_slot (mem s') dir f j = table_slot (mem s') dir f k \<Longrightarrow> j = k"
    and "\<And>x. x \<in> kused s \<Longrightarrow> mem s' x = mem s x"
    and "\<And>q. q \<in> {v, pd, dir} \<Longrightarrow> q \<in> kused s' \<and> q \<notin> kused s"
    and "\<And>j. j < 1024 \<Longrightarrow> table_slot (mem s') dir f j \<in> kused s' \<and> table_slot (mem s') dir f j \<notin> kused s"
    and "\<And>x. x \<notin> kused s' \<Longrightarrow> mem s' x = mem s x"
proof -
  have n: "(0 :: u32) < 4 * 1024" "(4 * 1024 :: u32) \<le> 4096" "(0 :: u32) < 4" "(4 :: u32) \<le> 4096" by simp_all
  have av: "0 < kavail s" using assms(2) by simp
  obtain v s1 where a: "kzalloc s 4 = Some (v, s1)" "v \<noteq> 0" "kinv s1" "kavail s = Suc (kavail s1)"
    "kused s \<subseteq> kused s1" "v mod 4096 = 0" "v \<notin> kused s" "v \<in> kused s1"
    "\<forall>x. within v 4 x \<longrightarrow> x \<notin> kused s \<and> x \<in> kused s1"
    "\<forall>x. x \<in> kused s \<longrightarrow> mem s1 x = mem s x" by (rule pages.alloc_pageE [OF assms(1) av n(3,4)])
  have av1: "0 < kavail s1" using assms(2) a(4) by simp
  obtain dir s2 where b: "kzalloc s1 (4 * 1024) = Some (dir, s2)" "dir \<noteq> 0" "kinv s2"
    "kavail s1 = Suc (kavail s2)" "kused s1 \<subseteq> kused s2" "dir mod 4096 = 0" "dir \<notin> kused s1" "dir \<in> kused s2"
    "\<forall>x. within dir (4 * 1024) x \<longrightarrow> x \<notin> kused s1 \<and> x \<in> kused s2"
    "\<forall>x. x \<in> kused s1 \<longrightarrow> mem s2 x = mem s1 x" by (rule pages.alloc_pageE [OF a(3) av1 n(1,2)])
  have av2: "1024 - 0 \<le> kavail s2" using assms(2) a(4) b(4) by simp
  have pg: "\<forall>x. within dir 4096 x \<longrightarrow> x \<in> kused s2" using b(9) by simp
  obtain s3 where l: "page_dir_loop s2 dir (of_nat 0 * 0x400000) f 0 = Some s3" "tables_built s2 s3 dir f 0"
    using page_dir_loop_spec [OF b(3) av2 b(6) pg] by blast
  note t1 = tables_builtD(1-4) [OF l(2)] and t2 = tables_builtD(5-7) [OF l(2)]
    and t3 = tables_builtD(8) [OF l(2)] and t4 = tables_builtD(9,10) [OF l(2)]
  have av3: "0 < kavail s3" using assms(2) a(4) b(4) t1(3) by simp
  obtain pd s4 where c: "kzalloc s3 4 = Some (pd, s4)" "pd \<noteq> 0" "kinv s4" "kavail s3 = Suc (kavail s4)"
    "kused s3 \<subseteq> kused s4" "pd mod 4096 = 0" "pd \<notin> kused s3" "pd \<in> kused s4"
    "\<forall>x. within pd 4 x \<longrightarrow> x \<notin> kused s3 \<and> x \<in> kused s4"
    "\<forall>x. x \<in> kused s3 \<longrightarrow> mem s4 x = mem s3 x" by (rule pages.alloc_pageE [OF t1(2) av3 n(3,4)])
  let ?m5 = "store32 (mem s4) pd dir"
  let ?m6 = "store32 ?m5 v pd"
  let ?s' = "s4\<lparr>mem := ?m5\<rparr>\<lparr>mem := ?m6\<rparr>"
  have vs2: "v \<in> kused s2" "v \<noteq> dir" using a(8) b(5,7) by auto
  have ne: "pd \<noteq> dir" "pd \<noteq> v" using c(7) t1(4) b(8) vs2 by auto
  have fr: "?m6 x = mem s3 x" if "x AND 0xfffff000 \<noteq> v" "x AND 0xfffff000 \<noteq> pd" for x
  proof -
    have "\<not> within v 4 x" "\<not> within pd 4 x" using that within_4_page [OF a(6), of x] within_4_page [OF c(6), of x] by auto
    then have "?m6 x = mem s4 x" by (simp add: store32_other)
    also have "\<dots> = mem s3 x"
      by (rule kz.alloc_frame [OF t1(2) c(1)]) (use \<open>\<not> within pd 4 x\<close> in simp)
    finally show ?thesis .
  qed
  have slot: "load32 ?m6 (dir + 4 * of_nat j) = load32 (mem s3) (dir + 4 * of_nat j)" if "j < 1024" for j
    by (rule load32_page [OF b(6) that]) (rule fr; use ne vs2 in simp)
  then have ts: "table_slot ?m6 dir f j = table_slot (mem s3) dir f j" if "j < 1024" for j
    using that by (simp add: table_slot_def)
  have nin: "table_slot (mem s3) dir f j \<noteq> v" "table_slot (mem s3) dir f j \<noteq> pd"
    "table_slot (mem s3) dir f j \<noteq> dir" if "j < 1024" for j
    using t2(2,3) [OF that] vs2 b(8) c(7) by auto
  have it: "identity_table ?m6 dir f j" if "j < 1024" for j
    by (rule identity_table_cong [OF t2(1) [OF that] b(6) that slot [OF that]])
      (rule fr; use nin [OF that] in simp)
  have pdv: "load32 ?m6 v = pd" by simp
  have dirv: "load32 ?m6 pd = dir"
    using load32_slot [OF a(6) c(6), of 0 0 ?m5 pd] ne by simp
  have cr: "create_virtual_address_space s f = Some (v, ?s')"
    using a(1) b(1) l(1) c(1) by (simp add: create_virtual_address_space_def new_page_directory_def)
  have frame: "?m6 x = mem s x" if "x \<in> kused s" for x
  proof -
    have "x \<in> kused s1" "x \<in> kused s2" "x \<in> kused s3" using that a(5) b(5) t1(4) by auto
    moreover have "\<not> within v 4 x" using a(9) that by blast
    moreover have "\<not> within pd 4 x" using c(9) \<open>x \<in> kused s3\<close> by blast
    moreover have "x AND 0xfffff000 \<noteq> dir"
      using b(9) \<open>x \<in> kused s1\<close> within_page [OF b(6), of x] by auto
    ultimately show ?thesis
      using a(10) b(10) c(10) t4(1) [of x] that by (simp add: store32_other)
  qed
  have ext: "?s' = s\<lparr>mem := ?m6, kheap := kheap s4\<rparr>"
    using kst_frame_trans [OF kst_frame_trans [OF kst_frame_trans [OF kzalloc_frame [OF a(1)]
        kzalloc_frame [OF b(1)]] t1(1)] kzalloc_frame [OF c(1)]] by (rule kst_frame_upd)
  show ?thesis
  proof (rule that [OF cr a(2)])
    show "kinv ?s'" using c(3) by simp
    show "kused s \<subseteq> kused ?s'" using a(5) b(5) t1(4) c(5) by auto
    show "kavail s = kavail ?s' + 1027" using a(4) b(4) t1(3) c(4) by simp
    show "?s' = s\<lparr>mem := mem ?s', kheap := kheap ?s'\<rparr>" using ext by simp
    show "pd = vspace_pd (mem ?s') v" "dir = page_directory_entries (mem ?s') pd"
      by (simp_all add: vspace_pd_def page_directory_entries_def dirv)
    show "v mod 4096 = 0" "pd mod 4096 = 0" "dir mod 4096 = 0" by (fact a(6), fact c(6), fact b(6))
    show "v \<noteq> dir" "pd \<noteq> dir" by (fact vs2(2), fact ne(1))
    show "identity_table (mem ?s') dir f j" if "j < 1024" for j using it [OF that] by simp
    show "table_slot (mem ?s') dir f j \<notin> {v, pd, dir}" if "j < 1024" for j
      using nin [OF that] ts [OF that] by simp
    show "j = k" if "j < 1024" "k < 1024" "table_slot (mem ?s') dir f j = table_slot (mem ?s') dir f k" for j k
      using t3 [OF that(1,2)] that(3) ts [OF that(1)] ts [OF that(2)] by simp
    show "mem ?s' x = mem s x" if "x \<in> kused s" for x using frame [OF that] by simp
    show "q \<in> kused ?s' \<and> q \<notin> kused s" if "q \<in> {v, pd, dir}" for q
      using that a(5,7,8) b(5,7,8) t1(4) c(5,7,8) by auto
    show "table_slot (mem ?s') dir f j \<in> kused ?s' \<and> table_slot (mem ?s') dir f j \<notin> kused s"
      if "j < 1024" for j
      using t2(2,3) [OF that] ts [OF that] a(5) b(5) c(5) by auto
    show "mem ?s' x = mem s x" if x: "x \<notin> kused ?s'" for x
    proof -
      have u: "x \<notin> kused s4" using x by simp
      then have u3: "x \<notin> kused s3" "x \<notin> kused s2" "x \<notin> kused s1" using c(5) t1(4) b(5) by auto
      then have w: "\<not> within v 4 x" "\<not> within dir (4 * 1024) x" "\<not> within pd 4 x" using a(9) b(9) c(9) u by blast+
      have "mem s4 x = mem s3 x" "mem s2 x = mem s1 x" "mem s1 x = mem s x"
        using kz.alloc_frame [OF t1(2) c(1), of x] kz.alloc_frame [OF a(3) b(1), of x]
          kz.alloc_frame [OF assms(1) a(1), of x] w by blast+
      then show ?thesis using t4(2) [OF u3(1)] w by (simp add: store32_other)
    qed
  qed
qed

section \<open>Destroying an address space\<close>

lemma block_of_inj:
  assumes "heap_base h mod 4096 = 0" and "p mod 4096 = 0" and "q mod 4096 = 0"
    and "block_of h p = block_of h q"
  shows "p = q"
proof -
  have al: "unat (x - heap_base h) mod 4096 = 0" if "x mod 4096 = 0" for x
  proof -
    have "(x - heap_base h) mod 4096 = 0"
      using that assms(1) by (simp add: mod_4096_take_bit take_bit_eq_0_iff dvd_diff)
    then show ?thesis using unat_mod_4096 [of "x - heap_base h"] by simp
  qed
  have "unat (p - heap_base h) = unat (q - heap_base h)"
    using al [OF assms(2)] al [OF assms(3)] assms(4) unfolding block_of_def
    by (metis mult_div_mod_eq)
  then show ?thesis by (simp add: word_unat_eq_iff [symmetric])
qed

lemma kused_kfree:
  assumes "kinv s" and "p mod 4096 = 0" and "q mod 4096 = 0" and "p \<noteq> q" and "q \<in> kused s"
  shows "q \<in> kused (kfree s p)"
proof -
  let ?h = "kheap s"
  have b: "block_of ?h q < unat (num_entries ?h)" "busy ?h (block_of ?h q)"
    using assms(5) by (simp_all add: used_def)
  have ne: "block_of ?h q \<noteq> block_of ?h p"
    using block_of_inj [of ?h q p] assms by (auto simp: heap_inv_def)
  have "block_of ?h q < 2 ^ 32" using block_of_bound [of ?h q] by simp
  then have "busy (free ?h p) (block_of ?h q)"
    using busy_free [of "block_of ?h q" ?h p] b(2) ne free_eq [of ?h p] by (cases "block_of ?h p < unat (num_entries ?h)") auto
  then show ?thesis using b(1) by (simp add: kfree_def used_def)
qed

lemma kfree_sel [simp]: "mem (kfree s p) = mem s" "kinv (kfree s p) = kinv s"
  by (simp_all add: kfree_def)

text \<open>Freeing takes the page of the address out of the pages in use, and no other.\<close>

lemma kused_kfree_eq:
  assumes "kinv s"
  shows "kused (kfree s p) = {x \<in> kused s. x AND 0xfffff000 \<noteq> p AND 0xfffff000}"
proof -
  let ?h = "kheap s"
  have base: "heap_base ?h mod 4096 = 0" using assms by (simp add: heap_inv_def)
  have e: "x AND 0xfffff000 = p AND 0xfffff000 \<longleftrightarrow> block_of ?h x = block_of ?h p" for x
    using block_of_inj [OF base page_base_aligned page_base_aligned, of x p] block_of_page [OF assms, of x]
      block_of_page [OF assms, of p] by metis
  show ?thesis
  proof (cases "block_of ?h p < unat (num_entries ?h)")
    case True
    then show ?thesis by (simp add: kfree_def free_used e) blast
  next
    case False
    then have "block_of ?h x \<noteq> block_of ?h p" if "x \<in> used ?h" for x using that by (auto simp: used_def)
    then show ?thesis using False by (auto simp: kfree_def free_used e)
  qed
qed

lemma destroy_loop_used:
  assumes "kinv s"
  shows "kused (destroy_loop s v i) = {x \<in> kused s. \<forall>j. i \<le> j \<and> j < 1024 \<longrightarrow>
      x AND 0xfffff000 \<noteq> pt_of (mem s) (vspace_pd (mem s) v) j}
    \<and> destroy_loop s v i = s\<lparr>kheap := kheap (destroy_loop s v i)\<rparr> \<and> kinv (destroy_loop s v i)"
  using assms
proof (induction s v i rule: destroy_loop.induct)
  case (1 s v i)
  show ?case
  proof (cases "i < 1024")
    case False
    then show ?thesis using 1 by (subst (1 2 3 4) destroy_loop.simps) auto
  next
    case True
    let ?p = "pt_of (mem s) (vspace_pd (mem s) v) i" and ?t = "kfree s (pt_of (mem s) (vspace_pd (mem s) v) i)"
    have step: "destroy_loop s v i = destroy_loop ?t v (i + 1)"
      using True by (subst destroy_loop.simps) (simp add: pt_of_def Let_def)
    have p: "?p AND 0xfffff000 = ?p" by (simp add: pt_of_def and.assoc)
    have "kused (destroy_loop ?t v (i + 1)) = {x \<in> kused ?t. \<forall>j. i + 1 \<le> j \<and> j < 1024 \<longrightarrow>
        x AND 0xfffff000 \<noteq> pt_of (mem s) (vspace_pd (mem s) v) j}
      \<and> destroy_loop ?t v (i + 1) = ?t\<lparr>kheap := kheap (destroy_loop ?t v (i + 1))\<rparr> \<and> kinv (destroy_loop ?t v (i + 1))"
      using "1.IH" [OF True refl] 1(2) by (simp add: pt_of_def)
    moreover have "i \<le> j \<and> j < 1024 \<longleftrightarrow> j = i \<or> i + 1 \<le> j \<and> j < 1024" for j using True by auto
    ultimately show ?thesis
      unfolding step kused_kfree_eq [OF 1(2)] p by (auto simp: kfree_def)
  qed
qed

text \<open>A user access, with the directory entry and the table entry apart.\<close>

definition pde :: "memory \<Rightarrow> u32 \<Rightarrow> u32 \<Rightarrow> u32" where
  "pde m v va = load32 m (page_directory_entries m (vspace_pd m v) + 4 * of_nat (unat va div 0x400000))"

lemma user_addr_pte:
  assumes "vspace_ok m v"
  shows "user_addr m (page_directory_entries m (vspace_pd m v)) need va =
    (if pde m v va AND need = need \<and> pte m (vspace_pd m v) va AND need = need
     then Some ((pte m (vspace_pd m v) va AND 0xfffff000) OR (va AND 0xfff)) else None)"
proof -
  let ?dir = "page_directory_entries m (vspace_pd m v)"
  have al: "?dir AND 0xfffff000 = ?dir"
    by (rule aligned_page_base) (use assms in \<open>simp add: vspace_ok_def Let_def\<close>)
  have "load32 m ((load32 m (?dir + 4 * (va div 0x400000)) AND 0xfffff000) + 4 * (va div 4096 mod 1024))
      = pte m (vspace_pd m v) va"
    by (simp only: pte_def pt_of_def page_indices_of_nat)
  then show ?thesis
    unfolding user_addr_def Let_def al pde_def by (simp only: page_indices_of_nat(1))
qed

lemma pde_agree:
  assumes "vspace_ok m v" and "\<forall>x. space_page m v (x AND 0xfffff000) \<longrightarrow> m' x = m x"
  shows "pde m' v va = pde m v va"
proof -
  let ?dir = "page_directory_entries m (vspace_pd m v)"
  have "?dir mod 4096 = 0" using assms(1) by (simp add: vspace_ok_def Let_def)
  moreover have "space_page m v ?dir" by (simp add: space_page_def)
  ultimately have "load32 m' (?dir + 4 * of_nat (unat va div 0x400000))
      = load32 m (?dir + 4 * of_nat (unat va div 0x400000))"
    using assms(2) by (intro load32_page va_indices) auto
  then show ?thesis by (simp add: pde_def vspace_agree(1,2) [OF assms])
qed

lemma va_recompose: "(va AND 0xfffff000) OR (va AND 0xfff) = va" for va :: u32
  unfolding page_masks by (rule bit_word_eqI) (auto simp: bit_simps)

text \<open>A page that is mapped to itself for the user.\<close>

lemma user_addr_self:
  assumes "vspace_ok m v" and "pde m v va AND 7 = 7" and "pte m (vspace_pd m v) va = (va AND 0xfffff000) OR 7"
    and "need AND 7 = need"
  shows "user_addr m (page_directory_entries m (vspace_pd m v)) need va = Some va"
proof -
  have n: "x AND need = need" if "x AND 7 = 7" for x :: u32
  proof -
    have "x AND need = x AND (need AND 7)" using assms(4) by simp
    also have "\<dots> = (x AND 7) AND need" by (simp only: and.assoc and.commute and.left_commute)
    finally show ?thesis using that assms(4) by (simp add: and.commute)
  qed
  have "((va AND 0xfffff000) OR 7) AND 7 = 7" by (simp add: and.commute)
  moreover have "((va AND 0xfffff000) OR 7) AND 0xfffff000 = va AND 0xfffff000"
    using entry_base [OF page_base_aligned flags_small(1), of va 7] by simp
  ultimately show ?thesis
    unfolding user_addr_pte [OF assms(1)] assms(3) using n assms(2) va_recompose [of va] by simp
qed

section \<open>Properties\<close>

lemma identity_entry_va:
  "identity_entry f (unat va div 0x400000) (unat va div 4096 mod 1024) = (va AND 0xfffff000) OR ucast f"
proof -
  have d: "unat va div 0x400000 = unat va div 4096 div 1024"
    using div_mult2_eq [of "unat va" 4096 1024] by simp
  let ?n = "unat va div 4096"
  have e: "?n * 4096 = ?n div 1024 * 0x400000 + ?n mod 1024 * 4096"
    using div_mult_mod_eq [of ?n 1024] by linarith
  have "(of_nat (?n * 4096) :: u32) = of_nat (?n div 1024 * 0x400000 + ?n mod 1024 * 4096)"
    by (rule arg_cong [OF e])
  also have "\<dots> = of_nat (?n div 1024) * 0x400000 + of_nat (?n mod 1024) * 4096"
    by (simp only: of_nat_add of_nat_mult of_nat_numeral)
  finally have "(of_nat (?n * 4096) :: u32) = of_nat (?n div 1024) * 0x400000 + of_nat (?n mod 1024) * 4096" .
  moreover have "(of_nat (?n * 4096) :: u32) = va AND 0xfffff000"
    unfolding unat_page_base [of va, symmetric] by simp
  ultimately show ?thesis by (simp add: identity_entry_def d)
qed

lemma present_or: "bit g 0 \<Longrightarrow> (p OR g) AND 1 \<noteq> 0" for p g :: u32
proof
  assume "bit g 0" and "(p OR g) AND 1 = 0"
  moreover have "bit ((p OR g) AND 1) 0 \<longleftrightarrow> bit p 0 \<or> bit g 0" by (simp add: bit_simps)
  ultimately show False by simp
qed

lemma identity_user_addr:
  assumes "identity_table m dir f (unat va div 0x400000)" and "dir mod 4096 = 0" and "ucast f AND need = need"
  shows "user_addr m dir need va = Some va"
proof -
  have n: "(x OR (ucast f OR 2)) AND need = need" "(x OR ucast f) AND need = need" for x :: u32
  proof -
    have b: "bit need k \<Longrightarrow> bit (ucast f :: u32) k" for k
      using assms(3) bit_and_iff [of "ucast f :: u32" need k] by auto
    show "(x OR (ucast f OR 2)) AND need = need" "(x OR ucast f) AND need = need"
      by (rule bit_word_eqI, use b in \<open>auto simp: bit_and_iff bit_or_iff\<close>)+
  qed
  let ?j = "unat va div 0x400000" and ?k = "unat va div 4096 mod 1024"
  have pde: "load32 m (dir + 4 * (va div 0x400000)) = table_slot m dir f ?j OR (ucast f OR 2)"
    and pte: "load32 m (table_slot m dir f ?j + 4 * (va div 4096 mod 1024)) = (va AND 0xfffff000) OR ucast f"
    using assms(1) va_indices(2) [of va] by (simp_all add: identity_table_def page_indices_of_nat identity_entry_va)
  have slot: "load32 m (dir + 4 * (va div 0x400000)) AND 0xfffff000 = table_slot m dir f ?j"
    by (simp add: table_slot_def page_indices_of_nat(1))
  have "((va AND 0xfffff000) OR ucast f) AND 0xfffff000 = va AND 0xfffff000"
    by (rule entry_base [OF page_base_aligned flags_small(1)])
  then show ?thesis
    unfolding user_addr_def Let_def aligned_page_base [OF assms(2)] slot unfolding pte pde n by (simp add: va_recompose)
qed

lemma create_space_facts:
  assumes "kinv s" and "1027 \<le> kavail s" and "bit f 0"
  shows "\<exists>v s'. create_virtual_address_space s f = Some (v, s') \<and> v \<noteq> 0 \<and> kinv s'
    \<and> vspace_ok (mem s') v \<and> kavail s = kavail s' + 1027
    \<and> (\<forall>va. pte (mem s') (vspace_pd (mem s') v) va = (va AND 0xfffff000) OR ucast f)
    \<and> (\<forall>va. mmu (mem s') (cr3 (load_page_directory s' (vspace_pd (mem s') v))) va = Some va)
    \<and> (\<forall>x. x \<notin> kused s \<or> mem s' x = mem s x)
    \<and> s' = s\<lparr>mem := mem s', kheap := kheap s'\<rparr> \<and> kused s \<subseteq> kused s'
    \<and> (\<forall>q. space_page (mem s') v q \<longrightarrow> q \<in> kused s' \<and> q \<notin> kused s)
    \<and> (\<forall>x. x \<notin> kused s' \<longrightarrow> mem s' x = mem s x)
    \<and> (\<forall>need va. ucast f AND need = need \<longrightarrow>
         user_addr (mem s') (page_directory_entries (mem s') (vspace_pd (mem s') v)) need va = Some va)"
proof -
  obtain v s' pd dir where c: "create_virtual_address_space s f = Some (v, s')"
    "v \<noteq> 0" "kinv s'" "kused s \<subseteq> kused s'" "kavail s = kavail s' + 1027"
    "s' = s\<lparr>mem := mem s', kheap := kheap s'\<rparr>"
    "pd = vspace_pd (mem s') v" "dir = page_directory_entries (mem s') pd"
    "v mod 4096 = 0" "pd mod 4096 = 0" "dir mod 4096 = 0" "v \<noteq> dir" "pd \<noteq> dir"
    "\<And>j. j < 1024 \<Longrightarrow> identity_table (mem s') dir f j"
    "\<And>j. j < 1024 \<Longrightarrow> table_slot (mem s') dir f j \<notin> {v, pd, dir}"
    "\<And>j k. j < 1024 \<Longrightarrow> k < 1024 \<Longrightarrow> table_slot (mem s') dir f j = table_slot (mem s') dir f k \<Longrightarrow> j = k"
    "\<And>x. x \<in> kused s \<Longrightarrow> mem s' x = mem s x"
    "\<And>q. q \<in> {v, pd, dir} \<Longrightarrow> q \<in> kused s' \<and> q \<notin> kused s"
    "\<And>j. j < 1024 \<Longrightarrow> table_slot (mem s') dir f j \<in> kused s' \<and> table_slot (mem s') dir f j \<notin> kused s"
    "\<And>x. x \<notin> kused s' \<Longrightarrow> mem s' x = mem s x"
    by (rule create_vspace_spec [OF assms(1,2)]) (rule that)
  let ?m = "mem s'"
  have pt: "pt_of ?m pd j = table_slot ?m dir f j" for j by (simp add: pt_of_def table_slot_def c(8))
  have ok: "vspace_ok ?m v"
    unfolding vspace_ok_def Let_def c(7,8) [symmetric] pt using c(9-13,15,16) by simp
  have pte: "pte ?m pd va = (va AND 0xfffff000) OR ucast f" for va
    using c(14) [OF va_indices(1), of va] va_indices(2) [of va]
    by (simp add: pte_def pt identity_table_def identity_entry_va)
  have pde: "load32 ?m (dir + 4 * of_nat (unat va div 0x400000)) AND 1 \<noteq> 0" for va :: u32
    using c(14) [OF va_indices(1), of va] assms(3)
    by (simp only: identity_table_def) (intro present_or, simp add: bit_simps)
  have "mmu ?m dir va = Some va" for va
  proof -
    have "load32 ?m ((load32 ?m (dir + 4 * (va div 0x400000)) AND 0xfffff000) + 4 * (va div 4096 mod 1024))
        = pte ?m pd va"
      by (simp only: pte_def pt_of_def c(8) [symmetric] page_indices_of_nat)
    moreover have "pte ?m pd va AND 1 \<noteq> 0"
      unfolding pte by (rule present_or) (use assms(3) in \<open>simp add: bit_simps\<close>)
    moreover have "pte ?m pd va AND 0xfffff000 = va AND 0xfffff000"
      unfolding pte by (rule entry_base [OF page_base_aligned flags_small(1)])
    ultimately show ?thesis
      using pde [of va] unfolding mmu_def Let_def aligned_page_base [OF c(11)]
      by (simp add: va_recompose page_indices_of_nat(1))
  qed
  then have "mmu ?m (cr3 (load_page_directory s' pd)) va = Some va" for va
    by (simp add: load_page_directory_def load_pd_to_cr3_def c(8) [symmetric])
  moreover have "q \<in> kused s' \<and> q \<notin> kused s" if "space_page ?m v q" for q
    using that c(18) [of q] c(19) unfolding space_page_def c(7,8) [symmetric] pt by auto
  moreover have "user_addr ?m dir need va = Some va" if "ucast f AND need = need" for need va
    using identity_user_addr [OF c(14) [OF va_indices(1)] c(11) that] .
  ultimately show ?thesis using c(1-6,17,20) ok pte unfolding c(7,8) by blast
qed

text \<open>C7: with 1027 free blocks \<open>create_virtual_address_space\<close> returns a well-formed space in which
  every page maps to itself with the given flags. Once it is loaded and the flags have the present
  bit, the processor translates every address to itself. No block that was in use changes.\<close>

theorem create_space_identity:
  assumes "kinv s" and "1027 \<le> kavail s" and "bit f 0"
  shows "\<exists>v s'. create_virtual_address_space s f = Some (v, s') \<and> v \<noteq> 0 \<and> kinv s'
    \<and> vspace_ok (mem s') v \<and> kavail s = kavail s' + 1027
    \<and> (\<forall>va. pte (mem s') (vspace_pd (mem s') v) va = (va AND 0xfffff000) OR ucast f)
    \<and> (\<forall>va. mmu (mem s') (cr3 (load_page_directory s' (vspace_pd (mem s') v))) va = Some va)
    \<and> (\<forall>x. x \<notin> kused s \<or> mem s' x = mem s x)"
  using create_space_facts [OF assms] by blast

definition boot_mach :: mach where
  "boot_mach = demo_mach\<lparr>kheap := \<lparr>entries = (\<lambda>i. 0), num_entries = 25600, heap_base = 0x1000000\<rparr>\<rparr>"

lemma boot_mach_room: "kinv boot_mach" "kavail boot_mach = 25600"
proof -
  show "kinv boot_mach" by (simp add: boot_mach_def heap_inv_def)
  have "{i. i < unat (num_entries (kheap boot_mach)) \<and> \<not> busy (kheap boot_mach) i} = {..<25600}"
    by (auto simp: boot_mach_def busy_def)
  then show "kavail boot_mach = 25600" by (simp add: free_blocks_left_def)
qed

theorem create_space_identity_witness:
  "\<exists>v s'. create_virtual_address_space boot_mach 7 = Some (v, s') \<and> kavail s' = 24573
    \<and> mmu (mem s') (cr3 (load_page_directory s' (vspace_pd (mem s') v))) 0x1234567 = Some 0x1234567"
proof -
  have "1027 \<le> kavail boot_mach" "bit (7 :: u8) 0" by (simp_all add: boot_mach_room)
  from create_space_identity [OF boot_mach_room(1) this] show ?thesis
    by (auto simp: boot_mach_room(2))
qed

text \<open>C8: on a well-formed space \<open>paging_map_range\<close> accepts exactly the page-aligned ranges that do
  not end before they start. It then maps consecutive pages from the virtual address to consecutive
  frames with the flags, keeps the translation of every other page, and writes only into the page
  tables of the space. What it refuses it leaves untouched.\<close>

theorem paging_map_range_maps:
  assumes "vspace_ok m v"
  shows "if va mod 4096 = 0 \<and> pa mod 4096 = 0 \<and> endaddr mod 4096 = 0 \<and> pa \<le> endaddr
    then \<exists>m'. paging_map_range m v va pa endaddr fl = (errno SUCCESS, m') \<and> vspace_ok m' v
      \<and> (\<forall>va'. pte m' (vspace_pd m' v) va' =
          (if page_dist va va' < unat (endaddr - pa) div 4096
           then (pa + of_nat (page_dist va va') * 4096) OR fl else pte m (vspace_pd m v) va'))
      \<and> (\<forall>x. m' x = m x \<or> (\<exists>j<1024. x AND 0xfffff000 = pt_of m (vspace_pd m v) j))
    else paging_map_range m v va pa endaddr fl = (- errno ERR_PROCESS_MAPPING_FAILED, m)"
proof (cases "va mod 4096 = 0 \<and> pa mod 4096 = 0 \<and> endaddr mod 4096 = 0 \<and> pa \<le> endaddr")
  case True
  then have "va mod 4096 = 0" "pa mod 4096 = 0" "endaddr mod 4096 = 0" "pa \<le> endaddr" by simp_all
  from paging_map_range_ok [OF assms this, of fl] obtain m' where
    "paging_map_range m v va pa endaddr fl = (errno SUCCESS, m')" "vspace_ok m' v" "vspace_pd m' v = vspace_pd m v"
    "\<And>va'. pte m' (vspace_pd m v) va' = (if page_dist va va' < unat (endaddr - pa) div 4096
      then (pa + of_nat (page_dist va va') * 4096) OR fl else pte m (vspace_pd m v) va')"
    "\<And>x. (\<forall>j<1024. x AND 0xfffff000 \<noteq> pt_of m (vspace_pd m v) j) \<Longrightarrow> m' x = m x" by metis
  then show ?thesis using True by metis
next
  case False
  then show ?thesis by (auto simp: paging_map_range_def address_page_aligned_def)
qed

theorem paging_map_range_maps_witness:
  "\<exists>v s' m'. create_virtual_address_space boot_mach 7 = Some (v, s')
    \<and> paging_map_range (mem s') v 0x400000 0x2000000 0x2003000 7 = (0, m')
    \<and> pte m' (vspace_pd m' v) 0x402000 = 0x2002007 \<and> pte m' (vspace_pd m' v) 0x403000 = 0x403007"
proof -
  have "1027 \<le> kavail boot_mach" "bit (7 :: u8) 0" by (simp_all add: boot_mach_room)
  from create_space_facts [OF boot_mach_room(1) this] obtain v s' where
    c: "create_virtual_address_space boot_mach 7 = Some (v, s')" "vspace_ok (mem s') v"
    "\<And>va. pte (mem s') (vspace_pd (mem s') v) va = (va AND 0xfffff000) OR ucast (7 :: u8)" by blast
  from paging_map_range_maps [OF c(2), of "0x400000" "0x2000000" "0x2003000" 7] obtain m' where
    m: "paging_map_range (mem s') v 0x400000 0x2000000 0x2003000 7 = (0, m')"
    "\<And>va'. pte m' (vspace_pd m' v) va' = (if page_dist 0x400000 va' < 3
       then (0x2000000 + of_nat (page_dist 0x400000 va') * 4096) OR 7 else pte (mem s') (vspace_pd (mem s') v) va')"
    by auto
  have "page_dist 0x400000 0x402000 = 2" "page_dist 0x400000 0x403000 = 3"
    by (simp_all add: page_dist_def)
  then have "pte m' (vspace_pd m' v) 0x402000 = 0x2002007" "pte m' (vspace_pd m' v) 0x403000 = 0x403007"
    using m(2) [of "0x402000"] m(2) [of "0x403000"] c(3) [of "0x403000"] by simp_all
  then show ?thesis using c(1) m(1) by blast
qed

text \<open>C36: destroying a well-formed space of blocks in use returns to the heap exactly the 1024 page tables, the
  directory structure and the space itself; the array of directory entries, a page of its own, stays in
  use, and so does every other block. Neither memory nor any other part of the state changes.\<close>

theorem destroy_space_leaks_directory:
  assumes "kinv s" and "vspace_ok (mem s) v" and "\<forall>q. space_page (mem s) v q \<longrightarrow> q \<in> kused s"
  shows "page_directory_entries (mem s) (vspace_pd (mem s) v) \<in> kused (destroy_virtual_address_space s v)
    \<and> v \<notin> kused (destroy_virtual_address_space s v)
    \<and> vspace_pd (mem s) v \<notin> kused (destroy_virtual_address_space s v)
    \<and> (\<forall>j<1024. pt_of (mem s) (vspace_pd (mem s) v) j \<notin> kused (destroy_virtual_address_space s v))
    \<and> (\<forall>x. \<not> space_page (mem s) v (x AND 0xfffff000) \<longrightarrow>
         (x \<in> kused (destroy_virtual_address_space s v) \<longleftrightarrow> x \<in> kused s))
    \<and> destroy_virtual_address_space s v = s\<lparr>kheap := kheap (destroy_virtual_address_space s v)\<rparr>
    \<and> kinv (destroy_virtual_address_space s v)"
proof -
  let ?m = "mem s" let ?pd = "vspace_pd ?m v" let ?dir = "page_directory_entries ?m ?pd"
  let ?s = "destroy_loop s v 0"
  note ok = assms(2) [unfolded vspace_ok_def Let_def]
  note l = destroy_loop_used [OF assms(1), of v 0]
  have d: "destroy_virtual_address_space s v = kfree (kfree ?s ?pd) v"
  proof -
    have "mem ?s = mem s" by (subst conjunct1 [OF conjunct2 [OF l]]) simp
    then show ?thesis by (simp add: destroy_virtual_address_space_def Let_def)
  qed
  have al: "x AND 0xfffff000 = x" if "x mod 4096 = 0" for x :: u32 using that by (rule aligned_page_base)
  have pg: "v AND 0xfffff000 = v" "?pd AND 0xfffff000 = ?pd" "?dir AND 0xfffff000 = ?dir"
    using ok by (auto intro!: al)
  have pt: "pt_of ?m ?pd j AND 0xfffff000 = pt_of ?m ?pd j" for j by (simp add: pt_of_def and.assoc)
  have u: "kused (destroy_virtual_address_space s v) = {x \<in> kused s. x AND 0xfffff000 \<noteq> v \<and> x AND 0xfffff000 \<noteq> ?pd
      \<and> (\<forall>j<1024. x AND 0xfffff000 \<noteq> pt_of ?m ?pd j)}"
    using l assms(1) unfolding d by (auto simp: kused_kfree_eq pg)
  show ?thesis
  proof (intro conjI)
    show "?dir \<in> kused (destroy_virtual_address_space s v)"
      unfolding u using assms(3) ok pg(3) by (auto simp: space_page_def)
    show "v \<notin> kused (destroy_virtual_address_space s v)" "?pd \<notin> kused (destroy_virtual_address_space s v)"
      unfolding u using pg by auto
    show "\<forall>j<1024. pt_of ?m ?pd j \<notin> kused (destroy_virtual_address_space s v)" unfolding u using pt by auto
    show "\<forall>x. \<not> space_page ?m v (x AND 0xfffff000) \<longrightarrow> (x \<in> kused (destroy_virtual_address_space s v) \<longleftrightarrow> x \<in> kused s)"
      unfolding u by (auto simp: space_page_def)
    show "destroy_virtual_address_space s v = s\<lparr>kheap := kheap (destroy_virtual_address_space s v)\<rparr>"
      unfolding d by (subst (1) conjunct1 [OF conjunct2 [OF l]]) (simp add: kfree_def)
    show "kinv (destroy_virtual_address_space s v)" using l unfolding d by simp
  qed
qed

theorem destroy_space_leaks_directory_witness:
  "\<exists>v s'. create_virtual_address_space boot_mach 7 = Some (v, s')
    \<and> page_directory_entries (mem s') (vspace_pd (mem s') v) \<in> kused (destroy_virtual_address_space s' v)
    \<and> v \<in> kused s' \<and> v \<notin> kused (destroy_virtual_address_space s' v)
    \<and> pt_of (mem s') (vspace_pd (mem s') v) 3 \<in> kused s'
    \<and> pt_of (mem s') (vspace_pd (mem s') v) 3 \<notin> kused (destroy_virtual_address_space s' v)"
proof -
  have "1027 \<le> kavail boot_mach" "bit (7 :: u8) 0" by (simp_all add: boot_mach_room)
  from create_space_facts [OF boot_mach_room(1) this] obtain v s' where
    c: "create_virtual_address_space boot_mach 7 = Some (v, s')" "kinv s'" "vspace_ok (mem s') v"
    "\<And>q. space_page (mem s') v q \<Longrightarrow> q \<in> kused s'" by blast
  have "v \<in> kused s'" by (rule c(4)) (simp add: space_page_def)
  moreover have "\<exists>j<1024. pt_of (mem s') (vspace_pd (mem s') v) 3 = pt_of (mem s') (vspace_pd (mem s') v) j"
    by (intro exI [of _ 3]) simp
  then have "pt_of (mem s') (vspace_pd (mem s') v) 3 \<in> kused s'" by (intro c(4)) (simp add: space_page_def)
  moreover have "\<forall>q. space_page (mem s') v q \<longrightarrow> q \<in> kused s'" using c(4) by blast
  note d = destroy_space_leaks_directory [OF c(2,3) this]
  have "\<forall>j<1024. pt_of (mem s') (vspace_pd (mem s') v) j \<notin> kused (destroy_virtual_address_space s' v)" using d by blast
  then have "pt_of (mem s') (vspace_pd (mem s') v) 3 \<notin> kused (destroy_virtual_address_space s' v)" by simp
  ultimately show ?thesis using d c(1) by blast
qed

end
