(* ===== verification/Task.thy ===== *)
theory Task
  imports Elf Paging
begin

text \<open>
  Tasks (\<^verbatim>\<open>kernel/task/task.c\<close>). A \<open>struct task\<close> is 64 bytes of kernel memory: its
  address space (offset 0), its saved registers (4 to 51), its process (52) and the links of the task
  list (56 and 60). Accesses to a task's own memory go through its page tables with \<open>mmu\<close>, byte
  by byte; a page that is not present faults, and the handler of the kernel returns to the faulting
  instruction for ever, which is the answer \<open>None\<close>. \<open>enter_task\<close> leaves the kernel: its
  value is what the processor is loaded with.
\<close>

section \<open>State\<close>

record taskst = fsst +
  cur_task :: u32
  task_list_head :: u32
  task_list_tail :: u32

record interrupt_frame =
  fr_edi :: u32
  fr_esi :: u32
  fr_ebp :: u32
  fr_useless_esp :: u32
  fr_ebx :: u32
  fr_edx :: u32
  fr_ecx :: u32
  fr_eax :: u32
  fr_ip :: u32
  fr_cs :: u32
  fr_flags :: u32
  fr_esp :: u32
  fr_ss :: u32

definition task_space :: "memory \<Rightarrow> u32 \<Rightarrow> u32" where "task_space m t = load32 m t"
definition task_registers :: "u32 \<Rightarrow> u32" where "task_registers t = t + 4"
definition task_esp :: "memory \<Rightarrow> u32 \<Rightarrow> u32" where "task_esp m t = load32 m (t + 28)"
definition task_process :: "memory \<Rightarrow> u32 \<Rightarrow> u32" where "task_process m t = load32 m (t + 52)"
definition task_next :: "memory \<Rightarrow> u32 \<Rightarrow> u32" where "task_next m t = load32 m (t + 56)"
definition task_prev :: "memory \<Rightarrow> u32 \<Rightarrow> u32" where "task_prev m t = load32 m (t + 60)"

text \<open>The two structures as records: what the code reaches a field at a time, read as a whole.\<close>

record reg =
  r_eax :: u32
  r_ebx :: u32
  r_ecx :: u32
  r_edx :: u32
  r_esi :: u32
  r_edi :: u32
  r_esp :: u32
  r_ebp :: u32
  r_ip :: u32
  r_cs :: u32
  r_ss :: u32
  r_flags :: u32

definition reg_at :: "memory \<Rightarrow> u32 \<Rightarrow> reg" where
  "reg_at m r = \<lparr>r_eax = load32 m r, r_ebx = load32 m (r + 4), r_ecx = load32 m (r + 8), r_edx = load32 m (r + 12),
     r_esi = load32 m (r + 16), r_edi = load32 m (r + 20), r_esp = load32 m (r + 24), r_ebp = load32 m (r + 28),
     r_ip = load32 m (r + 32), r_cs = load32 m (r + 36), r_ss = load32 m (r + 40), r_flags = load32 m (r + 44)\<rparr>"

record task =
  t_space :: u32
  t_registers :: reg
  t_process :: u32
  t_next :: u32
  t_prev :: u32

definition task_at :: "memory \<Rightarrow> u32 \<Rightarrow> task" where
  "task_at m t = \<lparr>t_space = task_space m t, t_registers = reg_at m (task_registers t),
     t_process = task_process m t, t_next = task_next m t, t_prev = task_prev m t\<rparr>"

section \<open>The task list\<close>

definition task_list_add :: "'a taskst_scheme \<Rightarrow> u32 \<Rightarrow> 'a taskst_scheme" where
  "task_list_add s t =
     (if task_list_head s = 0
      then s\<lparr>task_list_head := t, task_list_tail := t, cur_task := t\<rparr>
      else let s = set32 (task_list_tail s + 56) t s;
               s = set32 (t + 60) (task_list_tail s) s
           in s\<lparr>task_list_tail := task_next (mem s) (task_list_tail s)\<rparr>)"

definition task_list_delete :: "'a taskst_scheme \<Rightarrow> u32 \<Rightarrow> 'a taskst_scheme" where
  "task_list_delete s t =
     (let s = (if t = task_list_head s
               then s\<lparr>task_list_head := task_next (mem s) (task_list_head s)\<rparr>
               else if t = task_list_tail s
               then s\<lparr>task_list_tail := task_prev (mem s) (task_list_tail s)\<rparr>
               else let s = set32 (task_prev (mem s) t + 56) (task_next (mem s) t) s
                    in set32 (task_next (mem s) t + 60) (task_prev (mem s) t) s);
          s = (if t = cur_task s then s\<lparr>cur_task := task_next (mem s) t\<rparr> else s)
      in kfree s t)"

definition next_task :: "'a taskst_scheme \<Rightarrow> u32" where
  "next_task s = (if task_next (mem s) (cur_task s) = 0 then task_list_head s
                  else task_next (mem s) (cur_task s))"

definition current_task :: "'a taskst_scheme \<Rightarrow> u32" where
  "current_task s = cur_task s"

section \<open>Creation, switching, destruction\<close>

text \<open>Of a process the task layer reads the file type (offset 8724) and the ELF data (8712).\<close>

definition init_task :: "'a taskst_scheme \<Rightarrow> u32 \<Rightarrow> u32 \<Rightarrow> (int \<times> 'a taskst_scheme) option" where
  "init_task s t process =
     do { (space, s) \<leftarrow> create_virtual_address_space s 5;
          let s = set32 t space s;
          if space = 0 then Some (- errno ERR_TASK_FAIL, s)
          else do {
            let s = set32 (t + 36)
                  (if mem s (process + 8724) = 0
                   then e_entry (mem s) (ELF_get_Ehdr (mem s) (load32 (mem s) (process + 8712)))
                   else TASK_DEFAULT_START) s;
            let s = set32 (t + 28) TASK_DEFAULT_STACK_BEGIN s;
            let s = set32 (t + 44) USER_DATA_SELECTOR s;
            let s = set32 (t + 40) USER_CODE_SELECTOR s;
            let s = set32 (t + 52) process s;
            Some (errno SUCCESS, s) } }"

definition task_switch :: "'a taskst_scheme \<Rightarrow> u32 \<Rightarrow> 'a taskst_scheme" where
  "task_switch s t =
     (let s = s\<lparr>cur_task := t\<rparr>
      in load_page_directory s (vspace_pd (mem s) (task_space (mem s) t)))"

definition change_to_given_task_page_directory :: "'a taskst_scheme \<Rightarrow> u32 \<Rightarrow> 'a taskst_scheme" where
  "change_to_given_task_page_directory s t =
     (let s = set_all_segments_to_user_data_segment s
      in load_page_directory s (vspace_pd (mem s) (task_space (mem s) t)))"

definition change_to_current_task_page_directory :: "'a taskst_scheme \<Rightarrow> 'a taskst_scheme" where
  "change_to_current_task_page_directory s =
     (let s = set_all_segments_to_user_data_segment s
      in load_page_directory s (vspace_pd (mem s) (task_space (mem s) (cur_task s))))"

definition switch_current_page_directory_to_current_task_pd :: "'a taskst_scheme \<Rightarrow> 'a taskst_scheme" where
  "switch_current_page_directory_to_current_task_pd s =
     (let s = set_all_segments_to_user_data_segment s in task_switch s (cur_task s))"

record user_entry =
  u_eip :: u32
  u_cs :: u32
  u_esp :: u32
  u_ss :: u32
  u_gprs :: "u32 list"

definition enter_task :: "memory \<Rightarrow> u32 \<Rightarrow> user_entry" where
  "enter_task m regs =
     \<lparr>u_eip = load32 m (regs + 32), u_cs = load32 m (regs + 36), u_esp = load32 m (regs + 24),
      u_ss = load32 m (regs + 40),
      u_gprs = map (\<lambda>o4. load32 m (regs + o4)) [0, 4, 8, 12, 16, 20, 28]\<rparr>"

definition gammaos_first_ever_task :: "'a taskst_scheme \<Rightarrow> (user_entry \<times> 'a taskst_scheme) option" where
  "gammaos_first_ever_task s =
     (if cur_task s = 0 then None
      else let s = task_switch s (task_list_head s)
           in Some (enter_task (mem s) (task_registers (cur_task s)), s))"

definition task_kill :: "'a taskst_scheme \<Rightarrow> u32 \<Rightarrow> 'a taskst_scheme" where
  "task_kill s t =
     (let s = destroy_virtual_address_space s (task_space (mem s) t);
          s = task_list_delete s t
      in kfree s t)"

definition current_task_save_state :: "'a taskst_scheme \<Rightarrow> interrupt_frame \<Rightarrow> 'a taskst_scheme option" where
  "current_task_save_state s f =
     (if cur_task s = 0 then None
      else let t = cur_task s
           in Some (fold (\<lambda>(off, v). set32 (t + off) v)
                [(40, fr_cs f), (44, fr_ss f), (4, fr_eax f), (8, fr_ebx f), (12, fr_ecx f),
                 (16, fr_edx f), (20, fr_esi f), (24, fr_edi f), (28, fr_esp f), (36, fr_ip f),
                 (48, fr_flags f), (32, fr_ebp f)] s))"

definition new_task :: "'a taskst_scheme \<Rightarrow> u32 \<Rightarrow> (u32 \<times> 'a taskst_scheme) option" where
  "new_task s process =
     do { (t, s) \<leftarrow> kzalloc s 64;
          if t = 0 then Some (0, s)
          else do {
            (res, s) \<leftarrow> init_task s t process;
            if res = - errno ERR_TASK_FAIL then Some (0, s)
            else Some (t, task_list_add s t) } }"

definition close_task :: "'a taskst_scheme \<Rightarrow> u32 \<Rightarrow> int \<times> 'a taskst_scheme" where
  "close_task s t =
     (let s = destroy_virtual_address_space s (task_space (mem s) t);
          s = task_list_delete s t
      in (errno SUCCESS, kfree s t))"

section \<open>The memory of a task\<close>

definition vload8 :: "memory \<Rightarrow> u32 \<Rightarrow> u32 \<Rightarrow> u8 option" where
  "vload8 m dir va = map_option m (mmu m dir va)"

definition vstore8 :: "memory \<Rightarrow> u32 \<Rightarrow> u32 \<Rightarrow> u8 \<Rightarrow> memory option" where
  "vstore8 m dir va v = map_option (\<lambda>pa. m(pa := v)) (mmu m dir va)"

definition vload32 :: "memory \<Rightarrow> u32 \<Rightarrow> u32 \<Rightarrow> u32 option" where
  "vload32 m dir va =
     do { b0 \<leftarrow> vload8 m dir va; b1 \<leftarrow> vload8 m dir (va + 1);
          b2 \<leftarrow> vload8 m dir (va + 2); b3 \<leftarrow> vload8 m dir (va + 3);
          Some (ucast b0 OR push_bit 8 (ucast b1) OR push_bit 16 (ucast b2) OR push_bit 24 (ucast b3)) }"

text \<open>\<open>strncpy\<close> while the page directory of the task is loaded.\<close>

function strncpy_virt_loop ::
    "memory \<Rightarrow> u32 \<Rightarrow> u32 \<Rightarrow> u32 \<Rightarrow> u32 \<Rightarrow> u32 \<Rightarrow> (memory \<times> u32) option" where
  "strncpy_virt_loop m dir tgt src len written =
     (if written < len then
        case vload8 m dir (src + written) of
          None \<Rightarrow> None
        | Some c \<Rightarrow>
            if c = 0 then Some (m, written)
            else case vstore8 m dir (tgt + written) c of
                   None \<Rightarrow> None
                 | Some m \<Rightarrow> strncpy_virt_loop m dir tgt src len (written + 1)
      else Some (m, written))"
  by pat_completeness auto
termination
  by (relation "measure (\<lambda>(m, d, tgt, src, len, w). unat len - unat w)") (auto simp: unat_loop_dec)

declare strncpy_virt_loop.simps [simp del, loop_simps]

definition copy_data_from_task_to_kernel ::
    "'a taskst_scheme \<Rightarrow> u32 \<Rightarrow> u32 \<Rightarrow> u32 \<Rightarrow> u32 \<Rightarrow> (int \<times> 'a taskst_scheme) option" where
  "copy_data_from_task_to_kernel s t addr_in_task addr_in_kern sz =
     (if PAGE_SIZE < sz then Some (- errno ERR_INVARG, s)
      else do {
        (shared, s) \<leftarrow> kzalloc s sz;
        if shared = 0 then Some (- errno ERR_MALLOC_FAIL, s)
        else do {
          let space = task_space (mem s) t;
          old_pt_entry \<leftarrow> paging_virt_to_phy (mem s) space shared;
          let s = s\<lparr>mem := snd (map_vaddr_to_val (mem s) (vspace_pd (mem s) space) shared
                    (shared OR PAGE_PRESENT OR PAGE_WRITE_ACCESS OR PAGE_USER_ACCESS))\<rparr>;
          let s = load_page_directory s (vspace_pd (mem s) space);
          (m, _) \<leftarrow> strncpy_virt_loop (mem s) (cr3 s) shared addr_in_task sz 0;
          let s = change_to_kernel_page_directory (s\<lparr>mem := m\<rparr>);
          let s = s\<lparr>mem := snd (map_vaddr_to_val (mem s) (vspace_pd (mem s) space) shared old_pt_entry)\<rparr>;
          let (m, bytes_written) = strncpy (mem s) addr_in_kern shared sz;
          Some (sint bytes_written, kfree (s\<lparr>mem := m\<rparr>) shared) } })"

definition task_access_stack :: "'a taskst_scheme \<Rightarrow> u32 \<Rightarrow> u32 \<Rightarrow> (u32 \<times> 'a taskst_scheme) option" where
  "task_access_stack s t stack_index =
     do { let esp = task_esp (mem s) t;
          let s = change_to_given_task_page_directory s t;
          stack_elem \<leftarrow> vload32 (mem s) (cr3 s) (esp + 4 * stack_index);
          Some (stack_elem, change_to_kernel_page_directory s) }"

section \<open>Saving and restoring the registers of a task\<close>

lemma mem_set32 [simp]: "mem (set32 a v s) = store32 (mem s) a v"
  by (simp add: set32_def)

lemma set32_set32: "set32 a v s = s\<lparr>mem := store32 (mem s) a v\<rparr>"
  by (simp add: set32_def)

lemma apart4_offsets:
  fixes t i j :: u32
  assumes "4 \<le> i - j" and "4 \<le> j - i"
  shows "apart4 (t + i) (t + j)"
  using assms by (simp add: apart4_def)

lemma within_field:
  assumes "within (t + i) 4 x" and "4 \<le> i" and "i \<le> 48"
  shows "within (t + 4) 48 x"
proof -
  have "i - 4 \<le> 44" using assms(2,3) by (simp add: word_le_nat_alt unat_sub)
  moreover have "x - (t + 4 + (i - 4)) < 4" using assms(1) by (simp add: within_def)
  ultimately show ?thesis using field_within [of x "t + 4" "i - 4" 44] by (simp add: within_def)
qed

text \<open>The registers the processor is given when the task is entered are those of the frame; the flags
  are saved and not given back.\<close>

definition frame_entry :: "interrupt_frame \<Rightarrow> user_entry" where
  "frame_entry f = \<lparr>u_eip = fr_ip f, u_cs = fr_cs f, u_esp = fr_esp f, u_ss = fr_ss f,
     u_gprs = [fr_eax f, fr_ebx f, fr_ecx f, fr_edx f, fr_esi f, fr_edi f, fr_ebp f]\<rparr>"

lemma save_state_mem:
  assumes "current_task_save_state s f = Some s'"
  shows "s' = s\<lparr>mem := mem s'\<rparr>" and "cur_task s \<noteq> 0"
    and "enter_task (mem s') (task_registers (cur_task s)) = frame_entry f"
  using assms
  by (auto simp: current_task_save_state_def Let_def set32_set32 enter_task_def task_registers_def frame_entry_def
      apart4_offsets add.assoc split: if_splits)

lemma save_state_frame:
  assumes "current_task_save_state s f = Some s'" and "\<not> within (cur_task s + 4) 48 x"
  shows "mem s' x = mem s x"
proof -
  have "\<not> within (cur_task s + i) 4 x" if "4 \<le> i" "i \<le> 48" for i
    using assms(2) within_field that by blast
  then show ?thesis using assms(1)
    by (auto simp: current_task_save_state_def Let_def set32_set32 store32_other split: if_splits)
qed

section \<open>The task list\<close>

lemma within_part: "i \<le> 60 \<Longrightarrow> x - (a + i) < 4 \<Longrightarrow> within a 64 x"
  using field_within [of x a i 60] by (simp add: within_def)

lemma apart_fields:
  assumes "apart a 64 b 64" and "i \<le> 60" and "j \<le> 60"
  shows "apart4 (a + i) (b + j)"
proof (rule ccontr)
  assume "\<not> apart4 (a + i) (b + j)"
  then consider "(a + i) - (b + j) < 4" | "(b + j) - (a + i) < 4" by (auto simp: apart4_def not_le)
  then show False
  proof cases
    case 1
    then have "within b 64 (a + i)" using within_part [OF assms(3)] by blast
    moreover have "within a 64 (a + i)" using within_part [OF assms(2), of "a + i" a] by simp
    ultimately show False using assms(1) by (blast dest: apartD)
  next
    case 2
    then have "within a 64 (b + j)" using within_part [OF assms(2)] by blast
    moreover have "within b 64 (b + j)" using within_part [OF assms(3), of "b + j" b] by simp
    ultimately show False using assms(1) by (blast dest: apartD)
  qed
qed

text \<open>\<open>task_list s ts\<close>: the tasks \<open>ts\<close>, in this order, are what the links, the head and the tail
  say; the 64 bytes of different tasks do not meet.\<close>

definition task_list :: "'a taskst_scheme \<Rightarrow> u32 list \<Rightarrow> bool" where
  "task_list s ts \<longleftrightarrow> 0 \<notin> set ts
     \<and> task_list_head s = (case ts of [] \<Rightarrow> 0 | t # _ \<Rightarrow> t)
     \<and> (ts \<noteq> [] \<longrightarrow> task_list_tail s = last ts)
     \<and> (\<forall>i < length ts. \<forall>j < length ts. i \<noteq> j \<longrightarrow> apart (ts ! i) 64 (ts ! j) 64)
     \<and> (\<forall>i < length ts. task_prev (mem s) (ts ! i) = (if i = 0 then 0 else ts ! (i - 1))
          \<and> task_next (mem s) (ts ! i) = (if Suc i < length ts then ts ! Suc i else 0))"

lemma task_list_add_append:
  assumes "task_list s ts" and "t \<noteq> 0" and "\<forall>i < length ts. apart (ts ! i) 64 t 64"
    and "task_next (mem s) t = 0" and "task_prev (mem s) t = 0"
  shows "task_list (task_list_add s t) (ts @ [t])"
    and "cur_task (task_list_add s t) = (if ts = [] then t else cur_task s)"
proof -
  show "cur_task (task_list_add s t) = (if ts = [] then t else cur_task s)"
    using assms(1) by (cases ts) (auto simp: task_list_def task_list_add_def Let_def set32_def)
  show "task_list (task_list_add s t) (ts @ [t])"
  proof (cases "ts = []")
    case True
    then show ?thesis using assms by (simp add: task_list_def task_list_add_def)
  next
    case False
    define u where "u = last ts"
    define k where "k = length ts - 1"
    have k: "k < length ts" "ts ! k = u" "Suc k = length ts"
      using False by (simp_all add: k_def u_def last_conv_nth)
    define m where "m = store32 (store32 (mem s) (u + 56) t) (t + 60) u"
    have h: "task_list_head s \<noteq> 0" "task_list_tail s = u"
      using assms(1) False by (auto simp: task_list_def u_def split: list.splits)
    have ap: "apart (ts ! i) 64 (ts ! j) 64" if "i < length ts" "j < length ts" "i \<noteq> j" for i j
      using assms(1) that by (simp add: task_list_def)
    have at: "apart (ts ! i) 64 t 64" "apart t 64 (ts ! i) 64" if "i < length ts" for i
      using assms(3) that by (simp_all add: apart_sym [of t])
    have old: "task_prev m (ts ! i) = task_prev (mem s) (ts ! i)"
      "i \<noteq> k \<Longrightarrow> task_next m (ts ! i) = task_next (mem s) (ts ! i)" if "i < length ts" for i
      using apart_fields [OF at(2) [OF that], of 60 60] apart_fields [OF at(2) [OF that], of 60 56]
        apart_fields [OF ap [OF k(1) that], of 56 60] apart_fields [OF ap [OF k(1) that], of 56 56] k(2)
        apart4_offsets [of 56 60 u]
      by (cases "i = k"; simp add: m_def task_prev_def task_next_def)+
    have new: "task_next m u = t" "task_prev m t = u" "task_next m t = 0"
      using apart_fields [OF at(2) [OF k(1)], of 60 56] apart_fields [OF at(1) [OF k(1)], of 56 56]
        apart4_offsets [of 60 56 t] assms(4) k(2)
      by (simp_all add: m_def task_prev_def task_next_def)
    have add: "task_list_add s t = s\<lparr>mem := m, task_list_tail := t\<rparr>"
      using h new(1) by (simp add: task_list_add_def Let_def set32_def m_def)
    show ?thesis
      unfolding task_list_def
    proof (intro conjI allI impI)
      show "task_list_head (task_list_add s t) = (case ts @ [t] of [] \<Rightarrow> 0 | x # _ \<Rightarrow> x)"
        using assms(1) False by (auto simp: add task_list_def split: list.splits)
      fix i assume i: "i < length (ts @ [t])"
      show "apart ((ts @ [t]) ! i) 64 ((ts @ [t]) ! j) 64" if "j < length (ts @ [t])" "i \<noteq> j" for j
        using ap at i that by (auto simp: nth_append less_Suc_eq)
      have l: "task_prev (mem s) (ts ! i) = (if i = 0 then 0 else ts ! (i - 1))"
        "task_next (mem s) (ts ! i) = (if Suc i < length ts then ts ! Suc i else 0)" if "i < length ts"
        using assms(1) that by (simp_all add: task_list_def)
      show "task_prev (mem (task_list_add s t)) ((ts @ [t]) ! i) = (if i = 0 then 0 else (ts @ [t]) ! (i - 1))"
        using l(1) old(1) new(2) k i False by (auto simp: add nth_append less_Suc_eq k_def)
      show "task_next (mem (task_list_add s t)) ((ts @ [t]) ! i)
          = (if Suc i < length (ts @ [t]) then (ts @ [t]) ! Suc i else 0)"
        using l(2) old(2) new(1,3) k i by (cases "i = k") (auto simp: add nth_append less_Suc_eq)
    qed (use assms(1,2) in \<open>simp_all add: add task_list_def\<close>)
  qed
qed

lemma kfree_fields [simp]:
  "task_list_head (kfree s a) = task_list_head s" "task_list_tail (kfree s a) = task_list_tail s"
  "cur_task (kfree s a) = cur_task s"
  by (simp_all add: kfree_def)

lemma mem_kfree [simp]: "mem (kfree s a) = mem s"
  by (simp add: kfree_def)

lemma task_list_nth:
  assumes "task_list s ts" and "i < length ts"
  shows "ts ! i \<noteq> 0" and "task_prev (mem s) (ts ! i) = (if i = 0 then 0 else ts ! (i - 1))"
    and "task_next (mem s) (ts ! i) = (if Suc i < length ts then ts ! Suc i else 0)"
    and "j < length ts \<Longrightarrow> i \<noteq> j \<Longrightarrow> apart (ts ! i) 64 (ts ! j) 64"
  using assms nth_mem [OF assms(2)] by (auto simp: task_list_def simp del: nth_mem)

lemma task_list_distinct:
  assumes "task_list s ts" and "i < length ts" and "j < length ts"
  shows "ts ! i = ts ! j \<longleftrightarrow> i = j"
proof
  assume eq: "ts ! i = ts ! j"
  show "i = j"
  proof (rule ccontr)
    assume "i \<noteq> j"
    then have "apart (ts ! i) 64 (ts ! j) 64" using task_list_nth(4) [OF assms] by blast
    moreover have "within (ts ! i) 64 (ts ! i)" by (simp add: within_def)
    ultimately show False using eq by (auto dest: apartD)
  qed
qed simp

lemma task_list_head_tail:
  assumes "task_list s ts" and "ts \<noteq> []"
  shows "task_list_head s = ts ! 0" and "task_list_tail s = ts ! (length ts - 1)"
  using assms by (auto simp: task_list_def last_conv_nth hd_conv_nth [symmetric] split: list.splits)

lemma nth_remove:
  "i < length ts - 1 \<Longrightarrow> k < length ts \<Longrightarrow>
    (take k ts @ drop (Suc k) ts) ! i = (if i < k then ts ! i else ts ! Suc i)"
  by (auto simp: nth_append min_def)

lemma length_pos: "k < length ts \<Longrightarrow> 0 < length ts"
  by linarith

lemma last_less: "k < length ts \<Longrightarrow> length ts - 1 < length ts"
  by linarith

lemma task_list_delete_middle:
  assumes "task_list s ts" and "0 < k" and "Suc k < length ts"
  shows "task_list (task_list_delete s (ts ! k)) (take k ts @ drop (Suc k) ts)"
proof -
  define t where "t = ts ! k"
  define a where "a = ts ! (k - 1)"
  define b where "b = ts ! Suc k"
  have k: "k < length ts" "k - 1 < length ts" "Suc k < length ts" using assms(2,3) by simp_all
  have hd_tl: "task_list_head s = ts ! 0" "task_list_tail s = ts ! (length ts - 1)"
    using task_list_head_tail [OF assms(1)] k(1) by (metis length_0_conv not_less0)+
  have ne: "t \<noteq> task_list_head s" "t \<noteq> task_list_tail s"
    unfolding hd_tl t_def
      task_list_distinct [OF assms(1) k(1) length_pos [OF k(1)]]
      task_list_distinct [OF assms(1) k(1) last_less [OF k(1)]]
    using assms(2,3) by auto
  have ab: "task_prev (mem s) t = a" "task_next (mem s) t = b"
    using task_list_nth(2,3) [OF assms(1) k(1)] assms(2,3) by (simp_all add: t_def a_def b_def)
  define m where "m = store32 (store32 (mem s) (a + 56) b) (b + 60) a"
  have ap: "apart (ts ! i) 64 (ts ! j) 64" if "i < length ts" "j < length ts" "i \<noteq> j" for i j
    using task_list_nth(4) [OF assms(1)] that by blast
  have keep: "task_prev (store32 (mem s) (a + 56) b) t = a" "task_next (store32 (mem s) (a + 56) b) t = b"
    using ab apart_fields [OF ap [OF k(2,1)], of 56 60] apart_fields [OF ap [OF k(2,1)], of 56 56] assms(2)
    by (simp_all add: task_prev_def task_next_def a_def t_def)
  have del: "mem (task_list_delete s t) = m" "task_list_head (task_list_delete s t) = task_list_head s"
    "task_list_tail (task_list_delete s t) = task_list_tail s"
    using ne ab keep by (simp_all add: task_list_delete_def Let_def m_def set32_def)
  have prev: "task_prev m (ts ! j) = (if j = Suc k then a else task_prev (mem s) (ts ! j))"
    and "next": "task_next m (ts ! j) = (if j = k - 1 then b else task_next (mem s) (ts ! j))"
    if j: "j < length ts" for j
  proof -
    have p: "apart4 (a + 56) (ts ! j + 60)"
      using apart_fields [OF ap [OF k(2) j], of 56 60] apart4_offsets [of 56 60 a]
      by (cases "j = k - 1") (auto simp: a_def)
    have n: "apart4 (b + 60) (ts ! j + 56)"
      using apart_fields [OF ap [OF k(3) j], of 60 56] apart4_offsets [of 60 56 b]
      by (cases "j = Suc k") (auto simp: b_def)
    have pp: "j \<noteq> Suc k \<Longrightarrow> apart4 (b + 60) (ts ! j + 60)"
      and nn: "j \<noteq> k - 1 \<Longrightarrow> apart4 (a + 56) (ts ! j + 56)"
      using apart_fields [OF ap [OF k(3) j], of 60 60] apart_fields [OF ap [OF k(2) j], of 56 56]
      by (auto simp: a_def b_def)
    show "task_prev m (ts ! j) = (if j = Suc k then a else task_prev (mem s) (ts ! j))"
      using p pp by (auto simp: m_def task_prev_def b_def)
    show "task_next m (ts ! j) = (if j = k - 1 then b else task_next (mem s) (ts ! j))"
      using n nn by (auto simp: m_def task_next_def a_def)
  qed
  let ?ts = "take k ts @ drop (Suc k) ts"
  have len: "length ?ts = length ts - 1" using k(1) by simp
  have nth: "?ts ! i = ts ! (if i < k then i else Suc i)" if "i < length ?ts" for i
    using that len nth_remove [of i ts k] k(1) by simp
  show ?thesis
    unfolding task_list_def t_def [symmetric] del
  proof (intro conjI impI allI)
    show "0 \<notin> set ?ts" using assms(1) in_set_takeD [of 0 k ts] in_set_dropD [of 0 "Suc k" ts]
      by (auto simp: task_list_def)
    have "?ts = ts ! 0 # tl ?ts"
      using k assms(2) nth [of 0] len by (cases ?ts) auto
    then show "task_list_head s = (case ?ts of [] \<Rightarrow> 0 | x # _ \<Rightarrow> x)"
      using hd_tl(1) by (metis list.simps(5))
    have "last ?ts = last ts" using k(3) by (simp add: last_append last_drop)
    moreover have "ts \<noteq> []" using k(1) by auto
    ultimately show "task_list_tail s = last ?ts" using hd_tl(2) by (simp add: last_conv_nth)
    fix i assume i: "i < length ?ts"
    show "apart (?ts ! i) 64 (?ts ! j) 64" if j: "j < length ?ts" "i \<noteq> j" for j
      unfolding nth [OF i] nth [OF j(1)] using i j len by (intro ap) auto
    let ?j = "if i < k then i else Suc i"
    have j: "?j < length ts" using i len by auto
    show "task_prev m (?ts ! i) = (if i = 0 then 0 else ?ts ! (i - 1))"
      unfolding nth [OF i] prev [OF j] task_list_nth(2) [OF assms(1) j]
      using nth [of "i - 1"] i assms(2) by (auto simp: a_def)
    show "task_next m (?ts ! i) = (if Suc i < length ?ts then ?ts ! Suc i else 0)"
      unfolding nth [OF i] "next" [OF j] task_list_nth(3) [OF assms(1) j]
      using nth [of "Suc i"] i assms(2,3) len by (auto simp: b_def)
  qed
qed

section \<open>Properties\<close>

text \<open>Three tasks, linked, for the examples.\<close>

definition demo_links :: memory where
  "demo_links = store32 (store32 (store32 (store32 (\<lambda>x. 0) 0x10038 0x20000) 0x2003C 0x10000)
     0x20038 0x30000) 0x3003C 0x20000"

definition demo_tasks :: taskst where
  "demo_tasks = \<lparr>mem = demo_links, kheap = demo_empty, VGA_BASE = 0xB8000, cursor_x = 0, cursor_y = 0,
     device = (\<lambda>h p. 0), io_log = [], cr3 = 0, data_segment = 0x10, current_page_directory = 0,
     kernel_space = 0, local_addr = (\<lambda>l. 0x1FE000), fs_list = replicate 16 0, fd_list = replicate 1024 0,
     disks = replicate 26 0, disks_already_initialised = 0, fat16_object = 0x3000, cur_task = 0x20000,
     task_list_head = 0x10000, task_list_tail = 0x30000\<rparr>"

lemma demo_tasks_list: "task_list demo_tasks [0x10000, 0x20000, 0x30000]"
proof -
  have ap: "apart 0x10000 64 0x20000 64" "apart 0x10000 64 0x30000 64" "apart 0x20000 64 0x30000 64"
    by (rule apart_below; simp)+
  have sym: "apart 0x20000 64 0x10000 64" "apart 0x30000 64 0x10000 64" "apart 0x30000 64 0x20000 64"
    using ap by (simp_all add: apart_sym)
  have links: "task_prev demo_links 0x10000 = 0" "task_next demo_links 0x10000 = 0x20000"
    "task_prev demo_links 0x20000 = 0x10000" "task_next demo_links 0x20000 = 0x30000"
    "task_prev demo_links 0x30000 = 0x20000" "task_next demo_links 0x30000 = 0"
    by (simp_all add: demo_links_def task_prev_def task_next_def apart4_def) (simp_all add: load32_def)
  show ?thesis
    using ap sym links by (auto simp: task_list_def demo_tasks_def less_Suc_eq nth_Cons')
qed

text \<open>C19: what an interrupt saves is what entering the task restores: after
  \<open>current_task_save_state\<close> the instruction and stack pointers, the segments and the seven general
  registers that \<open>enter_task\<close> loads are those of the interrupted frame, and only the 48 bytes of
  the register block of the current task were written.\<close>

theorem save_enter_roundtrip:
  assumes "current_task_save_state s f = Some s'"
  shows "enter_task (mem s') (task_registers (cur_task s')) = frame_entry f
    \<and> s' = s\<lparr>mem := mem s'\<rparr> \<and> (within (cur_task s + 4) 48 x \<or> mem s' x = mem s x)"
proof (intro conjI)
  have s': "s' = s\<lparr>mem := mem s'\<rparr>" by (rule save_state_mem(1) [OF assms])
  have "cur_task s' = cur_task s" using arg_cong [OF s', of cur_task] by simp
  then show "enter_task (mem s') (task_registers (cur_task s')) = frame_entry f"
    using save_state_mem(3) [OF assms] by simp
  show "s' = s\<lparr>mem := mem s'\<rparr>" by (rule s')
  show "within (cur_task s + 4) 48 x \<or> mem s' x = mem s x"
    using save_state_frame [OF assms] by blast
qed

definition demo_frame :: interrupt_frame where
  "demo_frame = \<lparr>fr_edi = 1, fr_esi = 2, fr_ebp = 3, fr_useless_esp = 4, fr_ebx = 5, fr_edx = 6, fr_ecx = 7,
     fr_eax = 8, fr_ip = 0x400123, fr_cs = 0x1B, fr_flags = 0x202, fr_esp = 0x3FEFF0, fr_ss = 0x23\<rparr>"

theorem save_enter_roundtrip_witness:
  "\<exists>s'. current_task_save_state demo_tasks demo_frame = Some s'
     \<and> enter_task (mem s') (task_registers 0x20000)
        = \<lparr>u_eip = 0x400123, u_cs = 0x1B, u_esp = 0x3FEFF0, u_ss = 0x23, u_gprs = [8, 5, 7, 6, 2, 1, 3]\<rparr>"
proof -
  have "cur_task demo_tasks = 0x20000" by (simp add: demo_tasks_def)
  then obtain s' where s': "current_task_save_state demo_tasks demo_frame = Some s'"
    by (simp add: current_task_save_state_def Let_def)
  from save_enter_roundtrip [OF this]
  have e: "enter_task (mem s') (task_registers (cur_task s')) = frame_entry demo_frame"
    and m: "s' = demo_tasks\<lparr>mem := mem s'\<rparr>" by blast+
  have "cur_task s' = 0x20000" using arg_cong [OF m, of cur_task] by (simp add: demo_tasks_def)
  then show ?thesis using s' e by (simp add: frame_entry_def demo_frame_def)
qed

text \<open>Adding a new task appends it to the list: for a list that the links, the head and the tail
  describe and a zeroed task that does not meet the others, \<open>task_list_add\<close> is the append of the
  abstract list; the current task is left, or becomes the new task when there was none.\<close>

theorem task_list_add_refines_append:
  assumes "task_list s ts" and "t \<noteq> 0" and "\<forall>i < length ts. apart (ts ! i) 64 t 64"
    and "task_next (mem s) t = 0" and "task_prev (mem s) t = 0"
  shows "task_list (task_list_add s t) (ts @ [t])
    \<and> cur_task (task_list_add s t) = (if ts = [] then t else cur_task s)"
  using task_list_add_append [OF assms] by blast

theorem task_list_add_refines_append_witness:
  "task_list (task_list_add demo_tasks 0x40000) [0x10000, 0x20000, 0x30000, 0x40000]"
proof -
  have "apart 0x10000 64 0x40000 64" "apart 0x20000 64 0x40000 64" "apart 0x30000 64 0x40000 64"
    by (rule apart_below; simp)+
  then have "\<forall>i < length [0x10000, 0x20000, 0x30000]. apart ([0x10000, 0x20000, 0x30000 :: u32] ! i) 64 0x40000 64"
    by (auto simp: less_Suc_eq nth_Cons')
  moreover have "task_next (mem demo_tasks) 0x40000 = 0" "task_prev (mem demo_tasks) 0x40000 = 0"
    by (simp_all add: demo_tasks_def demo_links_def task_prev_def task_next_def apart4_def) (simp_all add: load32_def)
  ultimately show ?thesis
    using task_list_add_refines_append [OF demo_tasks_list, of "0x40000"] by simp
qed

text \<open>C17: taking a task out of the middle of the list removes it from the abstract list.\<close>

theorem task_list_delete_refines_remove:
  assumes "task_list s ts" and "0 < k" and "Suc k < length ts"
  shows "task_list (task_list_delete s (ts ! k)) (take k ts @ drop (Suc k) ts)"
  using assms by (rule task_list_delete_middle)

theorem task_list_delete_refines_remove_witness:
  "task_list (task_list_delete demo_tasks 0x20000) [0x10000, 0x30000]"
  using task_list_delete_refines_remove [OF demo_tasks_list, of 1] by simp

text \<open>Taking the last task out leaves the link of its predecessor: the tail of the list moves back
  and the block of the task is freed, but the new last task still points to it, and when that one is the
  current task \<open>next_task\<close> answers the freed task.\<close>

theorem task_list_delete_last_dangles:
  assumes "task_list s (ts @ [u, t])" and "cur_task s = u"
  shows "task_list_tail (task_list_delete s t) = u \<and> next_task (task_list_delete s t) = t
    \<and> kheap (task_list_delete s t) = free (kheap s) t"
proof -
  let ?ts = "ts @ [u, t]"
  have n: "length ts < length ?ts" "Suc (length ts) < length ?ts" "?ts ! length ts = u" "?ts ! Suc (length ts) = t"
    by (simp_all add: nth_append)
  have links: "task_next (mem s) u = t" "task_prev (mem s) t = u" "t \<noteq> 0"
    using task_list_nth(3) [OF assms(1) n(1)] task_list_nth(1,2) [OF assms(1) n(2)] n by simp_all
  have ends: "task_list_head s = ?ts ! 0" "task_list_tail s = t"
    using task_list_head_tail [OF assms(1)] by (simp_all add: nth_append)
  have "t \<noteq> u" "t \<noteq> ?ts ! 0"
    using task_list_distinct [OF assms(1) n(2) n(1)] task_list_distinct [OF assms(1) n(2), of 0] n by simp_all
  then show ?thesis using links ends assms(2)
    by (simp add: task_list_delete_def next_task_def Let_def kfree_def)
qed

theorem task_list_delete_last_dangles_witness:
  "next_task (task_list_delete demo_tasks 0x30000) = 0x30000"
  using task_list_delete_last_dangles [of demo_tasks "[0x10000]" "0x20000" "0x30000"] demo_tasks_list
  by (simp add: demo_tasks_def)

text \<open>C18: no task starves under \<open>next_task\<close>: from any task of the list, \<open>k\<close> switches to the
  next task arrive at the task \<open>k\<close> places further on, around the list.\<close>

theorem next_task_round_robin:
  assumes "task_list s ts" and "i < length ts" and "cur_task s = ts ! i"
  shows "cur_task (((\<lambda>s. task_switch s (next_task s)) ^^ k) s) = ts ! ((i + k) mod length ts)"
proof -
  have "task_list (((\<lambda>s. task_switch s (next_task s)) ^^ k) s) ts
      \<and> cur_task (((\<lambda>s. task_switch s (next_task s)) ^^ k) s) = ts ! ((i + k) mod length ts)"
  proof (induction k)
    case 0
    then show ?case using assms by simp
  next
    case (Suc k)
    define r where "r = ((\<lambda>s. task_switch s (next_task s)) ^^ k) s"
    define j where "j = (i + k) mod length ts"
    have j: "j < length ts" using length_pos [OF assms(2)] by (simp add: j_def)
    have r: "task_list r ts" "cur_task r = ts ! j" using Suc.IH by (simp_all add: r_def j_def)
    have "(i + Suc k) mod length ts = (if Suc j = length ts then 0 else Suc j)"
      by (simp add: j_def mod_Suc)
    moreover have "task_list_head r = ts ! 0"
      using task_list_head_tail(1) [OF r(1)] j by (metis length_0_conv not_less0)
    ultimately have "next_task r = ts ! ((i + Suc k) mod length ts)"
      using task_list_nth(1,3) [OF r(1) j] task_list_nth(1) [OF r(1), of "Suc j"] j r(2)
      by (cases "Suc j = length ts") (auto simp: next_task_def)
    moreover have "task_list (task_switch r x) ts" "cur_task (task_switch r x) = x" for x
      using r(1) by (simp_all add: task_list_def task_switch_def load_page_directory_def load_pd_to_cr3_def)
    ultimately show ?case by (simp add: r_def)
  qed
  then show ?thesis by blast
qed

theorem next_task_round_robin_witness:
  "cur_task (((\<lambda>s. task_switch s (next_task s)) ^^ 2) demo_tasks) = 0x10000"
  using next_task_round_robin [OF demo_tasks_list, of 1 2] by (simp add: demo_tasks_def numeral_2_eq_2)

end
