(* ===== verification/Process.thy ===== *)
theory Process
  imports Task
begin

text \<open>
  Processes (\<^verbatim>\<open>kernel/task/process/process.c\<close>). A \<open>struct process\<close> is 9760 bytes:
  pid (0), file name (2), task (516), 1024 allocations (520) and their sizes (4616), the data or ELF
  file (8712), stack (8716), size (8720), file type (8724) and the keyboard buffer (8728).
\<close>

section \<open>State\<close>

record procst = taskst +
  current_process :: u32
  process_list :: "u32 list"

abbreviation (input) process_size :: u32 where "process_size \<equiv> 9760"
abbreviation (input) PROCESS_ELF_FILE :: u8 where "PROCESS_ELF_FILE \<equiv> 0"
abbreviation (input) PROCESS_BIN_FILE :: u8 where "PROCESS_BIN_FILE \<equiv> 1"

definition process_pid :: "memory \<Rightarrow> u32 \<Rightarrow> u16" where "process_pid m p = load16 m p"
definition process_file :: "u32 \<Rightarrow> u32" where "process_file p = p + 2"
definition process_task :: "memory \<Rightarrow> u32 \<Rightarrow> u32" where "process_task m p = load32 m (p + 516)"
definition alloc_slot :: "u32 \<Rightarrow> nat \<Rightarrow> u32" where "alloc_slot p i = p + 520 + 4 * of_nat i"
definition alloc_size_slot :: "u32 \<Rightarrow> nat \<Rightarrow> u32" where "alloc_size_slot p i = p + 4616 + 4 * of_nat i"
definition process_data :: "memory \<Rightarrow> u32 \<Rightarrow> u32" where "process_data m p = load32 m (p + 8712)"
definition process_stack :: "memory \<Rightarrow> u32 \<Rightarrow> u32" where "process_stack m p = load32 m (p + 8716)"
definition process_data_size :: "memory \<Rightarrow> u32 \<Rightarrow> u32" where "process_data_size m p = load32 m (p + 8720)"
definition process_file_type :: "memory \<Rightarrow> u32 \<Rightarrow> u8" where "process_file_type m p = m (p + 8724)"

definition process_current :: "'a procst_scheme \<Rightarrow> u32" where
  "process_current s = current_process s"

definition process_init :: "'a procst_scheme \<Rightarrow> 'a procst_scheme" where
  "process_init s = s\<lparr>process_list := replicate PROCESS_MAX_PROCESSES 0\<rparr>"

definition process_get :: "'a procst_scheme \<Rightarrow> u16 \<Rightarrow> u32" where
  "process_get s pid =
     (if PROCESS_MAX_PROCESSES \<le> unat pid then 0 else process_list s ! unat pid)"

text \<open>The error value, stored in a \<open>uint16_t\<close>, becomes 65524.\<close>

definition process_get_free_process_id :: "'a procst_scheme \<Rightarrow> u16" where
  "process_get_free_process_id s =
     (case first_null 0 (process_list s) of
        None \<Rightarrow> word_of_int (- errno ERR_MAX_PROCESS_LIMIT_REACHED)
      | Some pid \<Rightarrow> of_nat pid)"

section \<open>Loading the file\<close>

definition process_load_binary :: "'a procst_scheme \<Rightarrow> u32 \<Rightarrow> (int \<times> 'a procst_scheme) option" where
  "process_load_binary s p =
     do { (fd, s) \<leftarrow> fopen s (process_file p) 0x72;
          if fd < 0 then Some (- errno ERR_PROCESS_LOAD_FAIL, s)
          else do {
            let stat = local_addr s Bin_stat;
            (res, s) \<leftarrow> fstat s fd stat;
            if res = - errno ERR_FD_NOT_FOUND
            then do { (_, s) \<leftarrow> fclose s fd; Some (- errno ERR_PROCESS_LOAD_FAIL, s) }
            else do {
              let s = set32 (p + 8720) (load32 (mem s) stat) s;
              (data, s) \<leftarrow> kzalloc s (process_data_size (mem s) p);
              let s = set32 (p + 8712) data s;
              if data = 0
              then do { (_, s) \<leftarrow> fclose s fd; Some (- errno ERR_PROCESS_LOAD_FAIL, s) }
              else do {
                (res, s) \<leftarrow> fread s (process_data (mem s) p) (process_data_size (mem s) p) 1 fd;
                if res < 0
                then do { (_, s) \<leftarrow> fclose (kfree s (process_data (mem s) p)) fd;
                          Some (- errno ERR_PROCESS_LOAD_FAIL, s) }
                else do {
                  (_, s) \<leftarrow> fclose (set8 (p + 8724) PROCESS_BIN_FILE s) fd;
                  Some (errno SUCCESS, s) } } } } }"

definition process_load_elf :: "'a procst_scheme \<Rightarrow> u32 \<Rightarrow> (int \<times> 'a procst_scheme) option" where
  "process_load_elf s p =
     do { (res, elf_file, s) \<leftarrow> gloader_load_elf s (process_file p);
          if res < 0 then Some (- errno ERR_PROCESS_LOAD_FAIL, s)
          else do {
            elf_file \<leftarrow> elf_file;
            Some (errno SUCCESS, set32 (p + 8712) elf_file (set8 (p + 8724) PROCESS_ELF_FILE s)) } }"

definition process_load_data :: "'a procst_scheme \<Rightarrow> u32 \<Rightarrow> (int \<times> 'a procst_scheme) option" where
  "process_load_data s p =
     do { (elf_load_status, s) \<leftarrow> process_load_elf s p;
          if elf_load_status < 0
          then do { (res, s) \<leftarrow> process_load_binary s p;
                    if res < 0 then Some (- errno ERR_PROCESS_LOAD_FAIL, s) else Some (errno SUCCESS, s) }
          else Some (errno SUCCESS, s) }"

section \<open>Mapping\<close>

definition process_space :: "memory \<Rightarrow> u32 \<Rightarrow> u32" where
  "process_space m p = task_space m (process_task m p)"

definition process_map_binary :: "memory \<Rightarrow> u32 \<Rightarrow> int \<times> memory" where
  "process_map_binary m p =
     (let (res, m) = paging_map_range m (process_space m p) TASK_DEFAULT_START (process_data m p)
            (paging_align_to_page_upper (process_data m p + process_data_size m p))
            (PAGE_WRITE_ACCESS OR PAGE_PRESENT OR PAGE_USER_ACCESS)
      in if res < 0 then (- errno ERR_PROCESS_MAPPING_FAILED, m) else (errno SUCCESS, m))"

function map_elf_loop :: "memory \<Rightarrow> u32 \<Rightarrow> u32 \<Rightarrow> u32 \<Rightarrow> nat \<Rightarrow> int \<times> memory" where
  "map_elf_loop m p elf_file ehdr nphdr =
     (if nphdr < unat (e_phnum m ehdr) then
        let phdr = ELF_get_Phdr m elf_file (of_nat nphdr);
            physical = elf_data m elf_file + p_offset m phdr;
            page_flags = (if p_flags m phdr AND 0x02 \<noteq> 0
                          then PAGE_PRESENT OR PAGE_USER_ACCESS OR PAGE_WRITE_ACCESS
                          else PAGE_PRESENT OR PAGE_USER_ACCESS);
            (res, m) = paging_map_range m (process_space m p) (paging_align_to_page_lower (p_vaddr m phdr))
               (paging_align_to_page_lower physical)
               (paging_align_to_page_upper (physical + p_memsz m phdr)) page_flags
        in if res < 0 then (- errno ERR_PROCESS_MAPPING_FAILED, m)
           else map_elf_loop m p elf_file ehdr (nphdr + 1)
      else (errno SUCCESS, m))"
  by pat_completeness auto
termination
  by (relation "measure (\<lambda>(m, p, f, e, i). 65536 - i)") (auto dest: unat_u16_less)

declare map_elf_loop.simps [simp del, loop_simps]

definition process_map_elf :: "memory \<Rightarrow> u32 \<Rightarrow> int \<times> memory" where
  "process_map_elf m p =
     (let elf_file = process_data m p
      in map_elf_loop m p elf_file (ELF_get_Ehdr m elf_file) 0)"

definition process_map_stack :: "memory \<Rightarrow> u32 \<Rightarrow> int \<times> memory" where
  "process_map_stack m p =
     (let (res, m) = paging_map_range m (process_space m p) TASK_DEFAULT_STACK_END (process_stack m p)
            (paging_align_to_page_upper (process_stack m p + TASK_STACK_SIZE))
            (PAGE_PRESENT OR PAGE_USER_ACCESS OR PAGE_WRITE_ACCESS)
      in if res < 0 then (res, m) else (errno SUCCESS, m))"

definition process_map_memory :: "memory \<Rightarrow> u32 \<Rightarrow> int \<times> memory" where
  "process_map_memory m p =
     (let (res, m) = (if process_file_type m p = PROCESS_BIN_FILE then process_map_binary m p
                      else (errno SUCCESS, m))
      in if res < 0 then (res, m)
         else let (res, m) = (if process_file_type m p = PROCESS_ELF_FILE then process_map_elf m p
                              else (errno SUCCESS, m))
              in if res < 0 then (res, m) else process_map_stack m p)"

section \<open>Creation and destruction\<close>

text \<open>The pid, a \<open>uint16_t\<close>, is compared with the \<open>int\<close> \<open>-12\<close>: the test is never true, and
  the store into \<open>process_list\<close> is then out of bounds, which has no successor state.\<close>

definition process_new :: "'a procst_scheme \<Rightarrow> u32 \<Rightarrow> (u32 \<times> 'a procst_scheme) option" where
  "process_new s filename =
     do { (p, s) \<leftarrow> kzalloc s process_size;
          if p = 0 then Some (0, s)
          else do {
            let s = s\<lparr>mem := store16 (mem s) p (process_get_free_process_id s)\<rparr>;
            if uint (process_pid (mem s) p) = - errno ERR_MAX_PROCESS_LIMIT_REACHED
            then Some (0, kfree s p)
            else do {
              m \<leftarrow> strcpy (mem s) (process_file p) filename;
              (stack, s) \<leftarrow> kzalloc (s\<lparr>mem := m\<rparr>) PROCESS_MAX_PROCESS_STACK_SIZE;
              let s = set32 (p + 8716) stack s;
              if stack = 0 then Some (0, kfree s p)
              else do {
                (res, s) \<leftarrow> process_load_data s p;
                if res < 0 then Some (0, kfree (kfree s (process_stack (mem s) p)) p)
                else do {
                  (t, s) \<leftarrow> new_task s p;
                  let s = set32 (p + 516) t s;
                  if t = 0 then Some (0, kfree (kfree s (process_stack (mem s) p)) p)
                  else do {
                    let (res, m) = process_map_memory (mem s) p;
                    let s = s\<lparr>mem := m\<rparr>;
                    if res < 0
                    then do { let s = kfree s (process_stack (mem s) p);
                              let s = snd (close_task s (process_task (mem s) p));
                              Some (0, kfree s p) }
                    else if PROCESS_MAX_PROCESSES \<le> unat (process_pid (mem s) p) then None
                    else do {
                      let s = s\<lparr>process_list := (process_list s)[unat (process_pid (mem s) p) := p]\<rparr>;
                      Some (p, if current_process s = 0 then s\<lparr>current_process := p\<rparr> else s) } } } } } } }"

definition process_switch :: "'a procst_scheme \<Rightarrow> u32 \<Rightarrow> 'a procst_scheme" where
  "process_switch s p = s\<lparr>current_process := p\<rparr>"

definition process_back_to_gshell :: "'a procst_scheme \<Rightarrow> user_entry \<times> 'a procst_scheme" where
  "process_back_to_gshell s =
     (let s = process_switch s (process_list s ! 0);
          s = task_switch s (process_task (mem s) (process_list s ! 0))
      in (enter_task (mem s) (task_registers (process_task (mem s) (process_list s ! 0))), s))"

text \<open>The loop over the allocations evaluates each of them and frees none. A pid out of the table is
  an out-of-bounds store.\<close>

definition process_kill :: "'a procst_scheme \<Rightarrow> u32 \<Rightarrow> (int \<times> 'a procst_scheme) option" where
  "process_kill s p =
     (if p = 0 then Some (- errno ERR_INVARG, s)
      else if PROCESS_MAX_PROCESSES \<le> unat (process_pid (mem s) p) then None
      else let s = s\<lparr>process_list := (process_list s)[unat (process_pid (mem s) p) := 0]\<rparr>;
               s = kfree s (process_stack (mem s) p);
               s = (if process_file_type (mem s) p = PROCESS_ELF_FILE
                    then snd (gloader_close_elf s (process_data (mem s) p))
                    else if process_file_type (mem s) p = PROCESS_BIN_FILE
                    then kfree s (process_data (mem s) p) else s);
               s = task_kill s (process_task (mem s) p)
           in Some (errno SUCCESS, kfree s p))"

section \<open>Memory of a process\<close>

fun find_alloc :: "memory \<Rightarrow> u32 \<Rightarrow> u32 \<Rightarrow> nat \<Rightarrow> nat \<Rightarrow> nat option" where
  "find_alloc m p addr i 0 = None"
| "find_alloc m p addr i (Suc n) =
     (if load32 m (alloc_slot p i) = addr then Some i else find_alloc m p addr (Suc i) n)"

definition process_malloc :: "'a procst_scheme \<Rightarrow> u32 \<Rightarrow> (u32 \<times> 'a procst_scheme) option" where
  "process_malloc s sz =
     (let p = process_current s
      in case find_alloc (mem s) p 0 0 PROCESS_MAX_PROCESS_MEM_ALLOCATIONS of
           None \<Rightarrow> Some (0, s)
         | Some i \<Rightarrow> do {
             (addr, s) \<leftarrow> kzalloc s sz;
             let s = set32 (alloc_slot p i) addr s;
             let s = set32 (alloc_size_slot p i) sz s;
             let pages_allocated = (sz + PAGE_SIZE - 1) div PAGE_SIZE;
             let s = s\<lparr>mem := snd (paging_map_range (mem s) (process_space (mem s) p) addr
                   (paging_align_to_page_lower addr)
                   (paging_align_to_page_upper (addr + pages_allocated * PAGE_SIZE))
                   (PAGE_PRESENT OR PAGE_WRITE_ACCESS OR PAGE_USER_ACCESS))\<rparr>;
             Some (addr, s) })"

text \<open>The number of pages is computed with a division by the allocation size; for a size of 0 it
  traps. \<open>free(NULL)\<close> finds the first empty slot, whose size is 0.\<close>

definition process_free :: "'a procst_scheme \<Rightarrow> u32 \<Rightarrow> (u32 \<times> 'a procst_scheme) option" where
  "process_free s base_addr =
     (let p = process_current s
      in case find_alloc (mem s) p base_addr 0 PROCESS_MAX_PROCESS_MEM_ALLOCATIONS of
           None \<Rightarrow> Some (0, s)
         | Some i \<Rightarrow>
             let s = set32 (alloc_slot p i) 0 s;
                 allocation_size = load32 (mem s) (alloc_size_slot p i);
                 s = set32 (alloc_size_slot p i) 0 s
             in if allocation_size = 0 then None
                else let pages_to_free = (allocation_size + PAGE_SIZE - 1) div allocation_size;
                         s = s\<lparr>mem := snd (paging_map_range (mem s) (process_space (mem s) p)
                               (paging_align_to_page_lower base_addr) (paging_align_to_page_lower base_addr)
                               (base_addr + pages_to_free * PAGE_SIZE)
                               (PAGE_PRESENT OR PAGE_USER_ACCESS OR PAGE_WRITE_ACCESS))\<rparr>
                     in Some (base_addr, kfree s base_addr))"

end
