(* ===== verification/Queue_Spec.thy ===== *)
theory Queue_Spec
  imports Prelude
begin

text \<open>
  What the keyboard driver and the reader of a process expect of a buffer of characters: a bounded
  first-in first-out queue that answers 0 when it is empty and ignores the character 0. The locale is
  the contract; \<open>queue_run\<close> is its reference behaviour on a sequence of operations. The number
  \<open>k\<close> of \<open>rep\<close> is how many more characters the counters of the buffer have room for.
\<close>

datatype queue_op = Put u8 | Get

fun queue_step :: "u8 list \<Rightarrow> queue_op \<Rightarrow> u8 list \<times> u8 list" where
  "queue_step q (Put c) = (if c = 0 then q else q @ [c], [])"
| "queue_step [] Get = ([], [0])"
| "queue_step (c # q) Get = (q, [c])"

primrec queue_run :: "u8 list \<Rightarrow> queue_op list \<Rightarrow> u8 list" where
  "queue_run q [] = []"
| "queue_run q (x # xs) = snd (queue_step q x) @ queue_run (fst (queue_step q x)) xs"

primrec queue_fits :: "nat \<Rightarrow> u8 list \<Rightarrow> queue_op list \<Rightarrow> bool" where
  "queue_fits cap q [] \<longleftrightarrow> True"
| "queue_fits cap q (x # xs) \<longleftrightarrow>
     length (fst (queue_step q x)) \<le> cap \<and> queue_fits cap (fst (queue_step q x)) xs"

text \<open>The same sequence of operations on an implementation; the result is what the reads answer.\<close>

fun run_ops :: "('s \<Rightarrow> u8 \<Rightarrow> 's) \<Rightarrow> ('s \<Rightarrow> u8 \<times> 's) \<Rightarrow> 's \<Rightarrow> queue_op list \<Rightarrow> u8 list" where
  "run_ops put get s [] = []"
| "run_ops put get s (Put c # xs) = run_ops put get (put s c) xs"
| "run_ops put get s (Get # xs) = (let (c, s') = get s in c # run_ops put get s' xs)"

text \<open>In the reference, what is read is a prefix of what was in the queue and was put into it.\<close>

primrec chars_put :: "queue_op list \<Rightarrow> u8 list" where
  "chars_put [] = []"
| "chars_put (x # xs) = (case x of Put c \<Rightarrow> if c = 0 then chars_put xs else c # chars_put xs | Get \<Rightarrow> chars_put xs)"

lemma queue_run_prefix:
  assumes "0 \<notin> set q"
  shows "take (length (filter (\<lambda>c. c \<noteq> 0) (queue_run q xs))) (q @ chars_put xs)
    = filter (\<lambda>c. c \<noteq> 0) (queue_run q xs)"
  using assms
proof (induction xs arbitrary: q)
  case (Cons x xs)
  show ?case
  proof (cases x)
    case (Put c)
    then show ?thesis using Cons.IH [of "if c = 0 then q else q @ [c]"] Cons.prems
      by (auto simp del: take_append)
  next
    case Get
    then show ?thesis using Cons.IH [of "tl q"] Cons.prems by (cases q) auto
  qed
qed simp

locale char_queue =
  fixes rep :: "nat \<Rightarrow> 's \<Rightarrow> u8 list \<Rightarrow> bool"
    and put :: "'s \<Rightarrow> u8 \<Rightarrow> 's"
    and get :: "'s \<Rightarrow> u8 \<times> 's"
    and capacity :: nat
  assumes put_rep: "rep (Suc k) s q \<Longrightarrow> c \<noteq> 0 \<Longrightarrow> length q < capacity \<Longrightarrow> rep k (put s c) (q @ [c])"
    and put_null: "put s 0 = s"
    and get_rep: "rep k s (c # q) \<Longrightarrow> \<exists>s'. get s = (c, s') \<and> rep k s' q"
    and get_empty: "rep k s [] \<Longrightarrow> get s = (0, s)"
    and rep_mono: "rep (Suc k) s q \<Longrightarrow> rep k s q"
begin

lemma run_refines:
  assumes "rep (length xs) s q" and "queue_fits capacity q xs"
  shows "run_ops put get s xs = queue_run q xs"
  using assms
proof (induction xs arbitrary: s q)
  case (Cons x xs)
  show ?case
  proof (cases x)
    case (Put c)
    show ?thesis
    proof (cases "c = 0")
      case True
      have "rep (length xs) s q" using Cons.prems(1) by (auto intro: rep_mono)
      then show ?thesis using Cons.IH [of s q] Cons.prems(2) Put True by (simp add: put_null)
    next
      case False
      then have "rep (length xs) (put s c) (q @ [c])"
        using Cons.prems Put by (intro put_rep) auto
      then show ?thesis using Cons.IH [of "put s c" "q @ [c]"] Cons.prems(2) Put False by simp
    qed
  next
    case Get
    have r: "rep (length xs) s q" using Cons.prems(1) by (auto intro: rep_mono)
    show ?thesis
    proof (cases q)
      case Nil
      then show ?thesis using Cons.IH [of s q] Cons.prems(2) Get r get_empty by simp
    next
      case (Cons c q')
      obtain s' where "get s = (c, s')" "rep (length xs) s' q'" using get_rep r Cons by blast
      then show ?thesis using Cons.IH [of s' q'] Cons.prems(2) Get Cons by simp
    qed
  qed
qed simp

lemma put_all:
  assumes "rep (length cs + k) s q" and "0 \<notin> set cs" and "length q + length cs \<le> capacity"
  shows "rep k (fold (\<lambda>c s. put s c) cs s) (q @ cs)"
  using assms
proof (induction cs arbitrary: s q)
  case (Cons c cs)
  then have "rep (length cs + k) (put s c) (q @ [c])" by (intro put_rep) auto
  then show ?case using Cons.IH [of "put s c" "q @ [c]"] Cons.prems by simp
qed simp

end

end
