(* ===== verification/Keyboard.thy ===== *)
theory Keyboard
  imports Process Queue_Spec
begin

text \<open>
  The keyboard (\<^verbatim>\<open>drivers/keyboard/keyboard.c\<close>) and its PS/2 driver
  (\<^verbatim>\<open>drivers/keyboard/ps2/ps2.c\<close>). Every process has a ring of 1024 characters
  (offset 8728) with a head (9752) and a tail (9756), both \<open>int\<close>s that only grow; a zero byte marks
  an empty slot. The interrupt handlers registered with the kernel are named by \<open>isr\<close>.
\<close>

section \<open>State\<close>

datatype isr = No_int_handler | Ps2_interrupt_handler

datatype keyboard = Ps2

record kbst = procst +
  isr_handlers :: "isr option list"
  keyboard_list_head :: "keyboard option"
  keyboard_list_tail :: "keyboard option"
  ps2_next :: "keyboard option"
  ps2_caps_lock :: u8

abbreviation (input) KEYBOARD_BUFFER :: u32 where "KEYBOARD_BUFFER \<equiv> 8728"

definition kb_head :: "memory \<Rightarrow> u32 \<Rightarrow> u32" where "kb_head m p = load32 m (p + 9752)"
definition kb_tail :: "memory \<Rightarrow> u32 \<Rightarrow> u32" where "kb_tail m p = load32 m (p + 9756)"

text \<open>\<open>head % 1024\<close> is a signed remainder; the index can be negative once the counter overflows.\<close>

definition kb_index :: "u32 \<Rightarrow> u32" where
  "kb_index i = word_of_int (sint i smod int PROCESS_MAX_KEYBOARD_BUFFER_SIZE)"

definition kb_slot :: "u32 \<Rightarrow> u32 \<Rightarrow> u32" where
  "kb_slot p i = p + KEYBOARD_BUFFER + kb_index i"

section \<open>The ring of a process\<close>

definition keyboard_pop_from_buffer :: "'a kst_scheme \<Rightarrow> u32 \<Rightarrow> u8 \<times> 'a kst_scheme" where
  "keyboard_pop_from_buffer s p =
     (let ch = mem s (kb_slot p (kb_head (mem s) p))
      in if ch = 0 then (0, s)
         else let s = set8 (kb_slot p (kb_head (mem s) p)) 0 s;
                  s = set32 (p + 9752) (kb_head (mem s) p + 1) s
              in (ch, s))"

definition keyboard_push_to_buffer :: "'a kst_scheme \<Rightarrow> u32 \<Rightarrow> u8 \<Rightarrow> 'a kst_scheme" where
  "keyboard_push_to_buffer s p ch =
     (if ch = 0 then s
      else let s = set8 (kb_slot p (kb_tail (mem s) p)) ch s
           in set32 (p + 9756) (kb_tail (mem s) p + 1) s)"

definition keyboard_put :: "'a procst_scheme \<Rightarrow> u8 \<Rightarrow> 'a procst_scheme" where
  "keyboard_put s ch =
     (if process_current s = 0 then s else keyboard_push_to_buffer s (process_current s) ch)"

definition keyboard_get :: "'a procst_scheme \<Rightarrow> u8 \<times> 'a procst_scheme" where
  "keyboard_get s =
     (if process_current s = 0 then (0, s) else keyboard_pop_from_buffer s (process_current s))"

definition keyboard_backspace :: "'a procst_scheme \<Rightarrow> 'a procst_scheme" where
  "keyboard_backspace s =
     (if process_current s = 0 then s else snd (keyboard_pop_from_buffer s (process_current s)))"

section \<open>The PS/2 driver\<close>

definition idt_add_isr_handler :: "'a kbst_scheme \<Rightarrow> int \<Rightarrow> isr \<Rightarrow> int \<times> 'a kbst_scheme" where
  "idt_add_isr_handler s interrupt_no handler =
     (if interrupt_no < 0 \<or> int TOTAL_INTERRUPTS \<le> interrupt_no then (- errno ERR_INVARG, s)
      else (errno SUCCESS, s\<lparr>isr_handlers := (isr_handlers s)[nat interrupt_no := Some handler]\<rparr>))"

definition ps2_scancode_set1 :: "u8 list" where
  "ps2_scancode_set1 =
     [0x00, 0x1B, 0x31, 0x32, 0x33, 0x34, 0x35,
      0x36, 0x37, 0x38, 0x39, 0x30, 0x2D, 0x3D,
      0x08, 0x09, 0x51, 0x57, 0x45, 0x52, 0x54,
      0x59, 0x55, 0x49, 0x4F, 0x50, 0x5B, 0x5D,
      0x0d, 0x00, 0x41, 0x53, 0x44, 0x46, 0x47,
      0x48, 0x4A, 0x4B, 0x4C, 0x3B, 0x27, 0x60,
      0x00, 0x5C, 0x5A, 0x58, 0x43, 0x56, 0x42,
      0x4E, 0x4D, 0x2C, 0x2E, 0x2F, 0x00, 0x2A,
      0x00, 0x20, 0x00, 0x00, 0x00, 0x00,
      0x00, 0x00, 0x00, 0x00, 0x00, 0x00,
      0x00, 0x37, 0x38, 0x39, 0x2D, 0x34, 0x35,
      0x36, 0x2B, 0x31, 0x32, 0x33, 0x30, 0x2E]"

definition ps2_keyboard_init :: "'a kbst_scheme \<Rightarrow> int \<times> 'a kbst_scheme" where
  "ps2_keyboard_init s =
     (let s = outb s 0x64 0xAE;
          s = s\<lparr>ps2_caps_lock := 0\<rparr>;
          (_, s) = idt_add_isr_handler s 0x21 Ps2_interrupt_handler
      in (errno SUCCESS, s))"

definition ps2_init :: keyboard where "ps2_init = Ps2"

text \<open>The error value is converted to \<open>char\<close>.\<close>

definition ps2_scancode_to_char :: "u8 \<Rightarrow> u8" where
  "ps2_scancode_to_char scancode =
     (if length ps2_scancode_set1 \<le> unat scancode then word_of_int (- errno ERR_INVARG)
      else ps2_scancode_set1 ! unat scancode)"

text \<open>The part of the handler after the page directory switch. The release of a key returns at once,
  in the kernel's page directory.\<close>

definition ps2_input :: "u8 \<Rightarrow> u8 \<Rightarrow> u8 option" where
  "ps2_input caps_lock scancode =
     (if scancode AND 0x80 \<noteq> 0 then None
      else if scancode = 0x1C then Some 0x0A
      else let c = ps2_scancode_to_char scancode
           in Some (if caps_lock = 0 \<and> scancode \<noteq> 0x0E \<and> scancode \<noteq> 0x39
                      \<and> 65 \<le> sint c \<and> sint c \<le> 90 then c + 32 else c))"

definition ps2_interrupt_handler :: "'a kbst_scheme \<Rightarrow> 'a kbst_scheme" where
  "ps2_interrupt_handler s =
     (let s = change_to_kernel_page_directory s;
          (scancode, s) = insb s 0x60
      in if scancode AND 0x80 \<noteq> 0 then s
         else let s = (if scancode = 0x3A then s\<lparr>ps2_caps_lock := ps2_caps_lock s XOR 1\<rparr> else s);
                  s = (case ps2_input (ps2_caps_lock s) scancode of
                         None \<Rightarrow> s | Some c \<Rightarrow> keyboard_put s c)
              in if current_task s \<noteq> 0 then change_to_current_task_page_directory s else s)"

text \<open>\<open>keyboard_add\<close>: the initialiser of the one keyboard there is is never null.\<close>

definition keyboard_add :: "'a kbst_scheme \<Rightarrow> keyboard \<Rightarrow> int \<times> 'a kbst_scheme" where
  "keyboard_add s kb =
     (let s = (case keyboard_list_tail s of
                 Some Ps2 \<Rightarrow> s\<lparr>ps2_next := Some kb, keyboard_list_tail := Some kb\<rparr>
               | None \<Rightarrow> s\<lparr>keyboard_list_head := Some kb, keyboard_list_tail := Some kb\<rparr>)
      in case kb of Ps2 \<Rightarrow> ps2_keyboard_init s)"

definition keyboard_init :: "'a kbst_scheme \<Rightarrow> 'a kbst_scheme" where
  "keyboard_init s = snd (keyboard_add s ps2_init)"

section \<open>The ring is a queue\<close>

text \<open>The counters of the ring as natural numbers, below \<open>2 ^ 31\<close>: there the signed remainder of
  the code is the slot number.\<close>

definition ring_slot :: "u32 \<Rightarrow> nat \<Rightarrow> u32" where
  "ring_slot p n = p + KEYBOARD_BUFFER + of_nat (n mod 1024)"

lemma kb_slot_of_nat:
  assumes "n < 2 ^ 31"
  shows "kb_slot p (of_nat n) = ring_slot p n"
proof -
  have "sint (of_nat n :: u32) = int n"
    using assms by (simp add: sint_uint uint_nat unat_of_nat_less signed_take_bit_int_eq_self)
  moreover have "int n smod 1024 = int (n mod 1024)"
    by (subst smod_mod_positive) (simp_all add: zmod_int)
  ultimately show ?thesis by (simp add: kb_slot_def kb_index_def ring_slot_def)
qed

lemma ring_slot_eq_iff: "ring_slot p n = ring_slot p k \<longleftrightarrow> n mod 1024 = k mod 1024"
proof -
  have "n mod 1024 < 2 ^ 32" "k mod 1024 < 2 ^ 32"
    by (rule less_trans [of _ 1024]; simp)+
  then show ?thesis by (simp add: ring_slot_def of_nat_u32_eq_iff)
qed

lemma ring_slot_outside:
  "\<not> within (p + 9752) 4 (ring_slot p n)" "\<not> within (p + 9756) 4 (ring_slot p n)"
proof -
  have "n mod 1024 < 1024" by simp
  then have u: "unat (of_nat (n mod 1024) :: u32) < 1024" by (subst unat_of_nat_less) simp_all
  define k where "k = (of_nat (n mod 1024) :: u32)"
  have d: "ring_slot p n - (p + 9752) = k - 1024" "ring_slot p n - (p + 9756) = k - 1028"
    by (simp_all add: ring_slot_def k_def)
  have "unat k < 1024" using u unfolding k_def .
  then have "\<not> k - 1024 < 4" "\<not> k - 1028 < 4"
    by (simp_all add: word_less_nat_alt unat_sub_if')
  then show "\<not> within (p + 9752) 4 (ring_slot p n)" "\<not> within (p + 9756) 4 (ring_slot p n)"
    unfolding within_def d by blast+
qed

lemma ring_counters_upd [simp]:
  "load32 (m(ring_slot p n := c)) (p + 9752) = load32 m (p + 9752)"
  "load32 (m(ring_slot p n := c)) (p + 9756) = load32 m (p + 9756)"
  by (rule load32_cong; use ring_slot_outside in \<open>auto simp: fun_upd_def\<close>)+

lemma counters_apart [simp]: "apart4 (p + 9752) (p + 9756)" "apart4 (p + 9756) (p + 9752)"
  by (simp_all add: apart4_def)

definition ring_rep :: "nat \<Rightarrow> 'a procst_scheme \<Rightarrow> u8 list \<Rightarrow> bool" where
  "ring_rep k s q \<longleftrightarrow> process_current s \<noteq> 0 \<and> 0 \<notin> set q \<and> length q \<le> 1024 \<and>
     (\<exists>n. kb_head (mem s) (process_current s) = of_nat n
        \<and> kb_tail (mem s) (process_current s) = of_nat (n + length q) \<and> n + length q + k < 2 ^ 31
        \<and> (\<forall>i < 1024. mem s (ring_slot (process_current s) (n + i)) = (if i < length q then q ! i else 0)))"

lemma shifted_mod_eq:
  fixes i j n :: nat
  assumes "i \<le> j" and "j < 1024" and "(n + i) mod 1024 = (n + j) mod 1024"
  shows "i = j"
proof -
  have "1024 dvd (n + j) - (n + i)"
    using assms by (subst mod_eq_dvd_iff_nat [symmetric]) simp_all
  then have "1024 dvd j - i" by simp
  then show ?thesis using assms(1,2) by (auto dest: dvd_imp_le)
qed

lemma shifted_slot_eq_iff:
  fixes i j n :: nat
  assumes "i < 1024" and "j < 1024"
  shows "(n + i) mod 1024 = (n + j) mod 1024 \<longleftrightarrow> i = j"
  using assms shifted_mod_eq [of i j n] shifted_mod_eq [of j i n] by (metis nat_le_linear)

lemma ring_put:
  assumes "ring_rep (Suc k) s q" and "c \<noteq> 0" and "length q < 1024"
  shows "ring_rep k (keyboard_put s c) (q @ [c])"
proof -
  define p where "p = process_current s"
  obtain n where n: "kb_head (mem s) p = of_nat n" "kb_tail (mem s) p = of_nat (n + length q)"
      "n + length q + Suc k < 2 ^ 31"
      "\<forall>i < 1024. mem s (ring_slot p (n + i)) = (if i < length q then q ! i else 0)"
    using assms(1) unfolding ring_rep_def p_def by blast
  have p: "p \<noteq> 0" and q: "0 \<notin> set q" using assms(1) by (simp_all add: ring_rep_def p_def)
  define m where "m = (mem s)(ring_slot p (n + length q) := c)"
  define t where "t = store32 m (p + 9756) (of_nat (n + length q) + 1)"
  have put: "keyboard_put s c = s\<lparr>mem := t\<rparr>"
    using p assms(2) n(2,3) kb_slot_of_nat [of "n + length q" p]
    by (simp add: keyboard_put_def keyboard_push_to_buffer_def set8_def set32_def Let_def kb_tail_def m_def t_def p_def)
  have "kb_head t p = of_nat n" "kb_tail t p = of_nat (n + length (q @ [c]))"
    using n(1,2) by (simp_all add: kb_head_def kb_tail_def t_def m_def add.assoc)
  moreover have "t (ring_slot p (n + i)) = (if i < length (q @ [c]) then (q @ [c]) ! i else 0)"
    if "i < 1024" for i
    using n(4) that assms(3) shifted_slot_eq_iff [OF that assms(3), of n]
    by (auto simp: t_def m_def store32_other ring_slot_outside ring_slot_eq_iff nth_append)
  ultimately show ?thesis
    unfolding ring_rep_def put using p q assms(2,3) n(3)
    by (auto simp: process_current_def p_def intro!: exI [of _ n])
qed

lemma ring_get:
  assumes "ring_rep k s (c # q)"
  shows "\<exists>s'. keyboard_get s = (c, s') \<and> ring_rep k s' q"
proof -
  define p where "p = process_current s"
  obtain n where n: "kb_head (mem s) p = of_nat n" "kb_tail (mem s) p = of_nat (n + length (c # q))"
      "n + length (c # q) + k < 2 ^ 31"
      "\<forall>i < 1024. mem s (ring_slot p (n + i)) = (if i < length (c # q) then (c # q) ! i else 0)"
    using assms unfolding ring_rep_def p_def by blast
  have p: "p \<noteq> 0" and q: "0 \<notin> set (c # q)" "length (c # q) \<le> 1024"
    using assms by (simp_all add: ring_rep_def p_def)
  define m where "m = (mem s)(ring_slot p n := 0)"
  define t where "t = store32 m (p + 9752) (of_nat n + 1)"
  have "mem s (ring_slot p n) = c" using n(4) [rule_format, of 0] by simp
  moreover have "kb_slot p (of_nat n) = ring_slot p n" using n(3) by (intro kb_slot_of_nat) simp
  ultimately have get: "keyboard_get s = (c, s\<lparr>mem := t\<rparr>)"
    using p q(1) n(1) by (simp add: keyboard_get_def keyboard_pop_from_buffer_def set8_def set32_def Let_def kb_head_def
        m_def t_def p_def)
  have "kb_head t p = of_nat (Suc n)" "kb_tail t p = of_nat (Suc n + length q)"
    using n(1,2) by (simp_all add: kb_head_def kb_tail_def t_def m_def)
  moreover have "t (ring_slot p (Suc n + i)) = (if i < length q then q ! i else 0)" if "i < 1024" for i
  proof (cases "i = 1023")
    case True
    then have "ring_slot p (Suc n + i) = ring_slot p n" by (simp add: ring_slot_eq_iff)
    then show ?thesis using True q(2) by (simp add: t_def m_def store32_other ring_slot_outside)
  next
    case False
    then have i: "Suc i < 1024" using that by simp
    then have "ring_slot p (n + Suc i) \<noteq> ring_slot p n"
      using shifted_slot_eq_iff [of "Suc i" 0 n] by (simp add: ring_slot_eq_iff)
    then show ?thesis using n(4) [rule_format, OF i]
      by (simp add: t_def m_def store32_other ring_slot_outside)
  qed
  ultimately have "ring_rep k (s\<lparr>mem := t\<rparr>) q"
    unfolding ring_rep_def using p q n(3)
    by (auto simp: process_current_def p_def intro!: exI [of _ "Suc n"])
  then show ?thesis using get by blast
qed

lemma ring_empty: "ring_rep k s [] \<Longrightarrow> keyboard_get s = (0, s)"
  by (force simp: ring_rep_def keyboard_get_def keyboard_pop_from_buffer_def process_current_def Let_def kb_slot_of_nat)

lemma ring_mono: "ring_rep (Suc k) s q \<Longrightarrow> ring_rep k s q"
  by (auto simp: ring_rep_def)

interpretation ring: char_queue ring_rep keyboard_put keyboard_get 1024
proof
  show "keyboard_put s 0 = s" for s
    by (simp add: keyboard_put_def keyboard_push_to_buffer_def)
qed (fact ring_put ring_get ring_empty ring_mono)+

text \<open>What reads alone depend on: the head and the slots from it on.\<close>

definition readable :: "'a procst_scheme \<Rightarrow> nat \<Rightarrow> u8 list \<Rightarrow> bool" where
  "readable s n q \<longleftrightarrow> process_current s \<noteq> 0 \<and> kb_head (mem s) (process_current s) = of_nat n \<and> 0 \<notin> set q
     \<and> length q \<le> 1024 \<and> n + length q < 2 ^ 31
     \<and> (\<forall>i < length q. mem s (ring_slot (process_current s) (n + i)) = q ! i)"

lemma readable_get:
  assumes "readable s n (c # q)"
  shows "\<exists>s'. keyboard_get s = (c, s') \<and> readable s' (Suc n) q"
proof -
  define p where "p = process_current s"
  have p: "p \<noteq> 0" "0 \<notin> set (c # q)" and h: "kb_head (mem s) p = of_nat n"
    and n: "n + length (c # q) < 2 ^ 31" "length (c # q) \<le> 1024"
    and m: "\<forall>i < length (c # q). mem s (ring_slot p (n + i)) = (c # q) ! i"
    using assms by (simp_all add: readable_def p_def)
  define t where "t = store32 ((mem s)(ring_slot p n := 0)) (p + 9752) (of_nat n + 1)"
  have "mem s (ring_slot p n) = c" using m [rule_format, of 0] by simp
  moreover have "kb_slot p (of_nat n) = ring_slot p n" using n(1) by (intro kb_slot_of_nat) simp
  ultimately have get: "keyboard_get s = (c, s\<lparr>mem := t\<rparr>)"
    using p h by (simp add: keyboard_get_def keyboard_pop_from_buffer_def set8_def set32_def Let_def kb_head_def
        t_def p_def)
  have "t (ring_slot p (Suc n + i)) = q ! i" if i: "i < length q" for i
  proof -
    have "ring_slot p (n + Suc i) \<noteq> ring_slot p n"
      using shifted_slot_eq_iff [of "Suc i" 0 n] i n(2) by (simp add: ring_slot_eq_iff)
    then show ?thesis using m [rule_format, of "Suc i"] i
      by (simp add: t_def store32_other ring_slot_outside)
  qed
  then have "readable (s\<lparr>mem := t\<rparr>) (Suc n) q"
    unfolding readable_def using p n by (simp add: kb_head_def t_def p_def process_current_def)
  then show ?thesis using get by blast
qed

lemma readable_run: "readable s n q \<Longrightarrow> run_ops keyboard_put keyboard_get s (replicate (length q) Get) = q"
proof (induction q arbitrary: s n)
  case (Cons c q)
  then obtain s' where "keyboard_get s = (c, s')" "readable s' (Suc n) q" using readable_get by blast
  then show ?case using Cons.IH by simp
qed simp

section \<open>Properties\<close>

text \<open>A state for the examples: a process at 0x2000 with an empty ring, and a controller that answers
  every read with the code of the key A.\<close>

definition demo_kb :: kbst where
  "demo_kb = \<lparr>mem = (\<lambda>x. 0), kheap = demo_empty, VGA_BASE = 0xB8000, cursor_x = 0, cursor_y = 0,
     device = (\<lambda>h p. 0x1E), io_log = [], cr3 = 0, data_segment = 0x10, current_page_directory = 0,
     kernel_space = 0, local_addr = (\<lambda>l. 0x1FE000), fs_list = replicate 16 0, fd_list = replicate 1024 0,
     disks = replicate 26 0, disks_already_initialised = 0, fat16_object = 0x3000, cur_task = 0,
     task_list_head = 0, task_list_tail = 0, current_process = 0x2000, process_list = replicate 16 0,
     isr_handlers = replicate 512 None, keyboard_list_head = None, keyboard_list_tail = None,
     ps2_next = None, ps2_caps_lock = 0\<rparr>"

lemma demo_kb_ring: "k < 2 ^ 31 \<Longrightarrow> ring_rep k demo_kb []"
  by (auto simp: ring_rep_def demo_kb_def process_current_def kb_head_def kb_tail_def load32_def intro!: exI [of _ 0])

text \<open>C15: the ring of the current process is a first-in first-out queue: for every sequence of
  characters put by the interrupt handler and reads by the process in which at most 1024 characters are
  pending at any time, and for as long as the two counters stay below \<open>2 ^ 31\<close>, the reads answer
  what the abstract queue answers.\<close>

theorem keyboard_ring_refines_queue:
  assumes "ring_rep (length xs) s q" and "queue_fits 1024 q xs"
  shows "run_ops keyboard_put keyboard_get s xs = queue_run q xs"
  using assms by (rule ring.run_refines)

theorem keyboard_ring_refines_queue_witness:
  "run_ops keyboard_put keyboard_get demo_kb [Put 0x68, Get, Put 0, Put 0x69, Put 0x0A, Get, Get, Get]
    = [0x68, 0x69, 0x0A, 0]"
  by (subst keyboard_ring_refines_queue [of _ _ "[]"]) (simp_all add: demo_kb_ring)

text \<open>C38: a character that arrives when the ring is full takes the slot of the oldest pending one:
  that one is lost, and the newest character is read before all the older ones.\<close>

theorem keyboard_overflow_reorders:
  assumes "ring_rep (Suc k) s q" and "length q = 1024" and "c \<noteq> 0"
  shows "run_ops keyboard_put keyboard_get s (Put c # replicate 1024 Get) = c # tl q"
proof -
  define p where "p = process_current s"
  obtain n where n: "kb_head (mem s) p = of_nat n" "kb_tail (mem s) p = of_nat (n + 1024)"
      "n + 1024 + Suc k < 2 ^ 31" "\<forall>i < 1024. mem s (ring_slot p (n + i)) = q ! i"
    using assms(1,2) unfolding ring_rep_def p_def by auto
  have p: "p \<noteq> 0" "0 \<notin> set q" using assms(1) by (simp_all add: ring_rep_def p_def)
  have full: "ring_slot p (n + 1024) = ring_slot p n" by (simp add: ring_slot_eq_iff)
  define t where "t = store32 ((mem s)(ring_slot p n := c)) (p + 9756) (of_nat (n + 1024) + 1)"
  have put: "keyboard_put s c = s\<lparr>mem := t\<rparr>"
    using p(1) assms(3) n(2,3) kb_slot_of_nat [of "n + 1024" p] full
    by (simp add: keyboard_put_def keyboard_push_to_buffer_def set8_def set32_def Let_def kb_tail_def t_def p_def)
  have "readable (s\<lparr>mem := t\<rparr>) n (c # tl q)"
    unfolding readable_def
  proof (intro conjI allI impI)
    show "kb_head (mem (s\<lparr>mem := t\<rparr>)) (process_current (s\<lparr>mem := t\<rparr>)) = of_nat n"
      using n(1) by (simp add: kb_head_def t_def p_def process_current_def)
    show "0 \<notin> set (c # tl q)" using p(2) assms(3) list.set_sel(2) [of q] by (cases q) auto
    fix i assume i: "i < length (c # tl q)"
    then have "ring_slot p (n + i) = ring_slot p n \<longleftrightarrow> i = 0"
      using assms(2) shifted_slot_eq_iff [of i 0 n] by (simp add: ring_slot_eq_iff)
    then show "mem (s\<lparr>mem := t\<rparr>) (ring_slot (process_current (s\<lparr>mem := t\<rparr>)) (n + i)) = (c # tl q) ! i"
      using n(4) [rule_format, of i] i assms(2)
      by (cases i) (simp_all add: t_def store32_other ring_slot_outside nth_tl p_def process_current_def)
  qed (use p n(3) assms(2) in \<open>simp_all add: p_def process_current_def\<close>)
  then have "run_ops keyboard_put keyboard_get (s\<lparr>mem := t\<rparr>) (replicate (length (c # tl q)) Get) = c # tl q"
    by (rule readable_run)
  then show ?thesis using assms(2) put by simp
qed

theorem keyboard_overflow_reorders_witness:
  "run_ops keyboard_put keyboard_get (fold (\<lambda>c s. keyboard_put s c) (replicate 1024 0x61) demo_kb)
     (Put 0x62 # replicate 1024 Get) = 0x62 # replicate 1023 0x61"
proof -
  have "ring_rep (Suc 0) (fold (\<lambda>c s. keyboard_put s c) (replicate 1024 0x61) demo_kb) ([] @ replicate 1024 0x61)"
    by (rule ring.put_all) (simp_all add: demo_kb_ring)
  from keyboard_overflow_reorders [OF this, of "0x62"] show ?thesis by simp
qed

text \<open>\<open>keyboard_backspace\<close> takes back the oldest character that is still unread, not the
  last one typed.\<close>

theorem keyboard_backspace_drops_oldest:
  assumes "ring_rep k s (c # q)"
  shows "ring_rep k (keyboard_backspace s) q"
proof -
  obtain s' where s': "keyboard_get s = (c, s')" "ring_rep k s' q" using ring.get_rep [OF assms] by blast
  have "process_current s \<noteq> 0" using assms by (simp add: ring_rep_def)
  then have "keyboard_backspace s = snd (keyboard_get s)"
    by (simp add: keyboard_backspace_def keyboard_get_def)
  then show ?thesis using s' by simp
qed

theorem keyboard_backspace_drops_oldest_witness:
  "ring_rep 0 (keyboard_backspace (keyboard_put (keyboard_put demo_kb 0x61) 0x62)) [0x62]"
proof -
  have "ring_rep 1 (keyboard_put demo_kb 0x61) [0x61]"
    using ring.put_rep [OF demo_kb_ring, of 1 "0x61"] by simp
  then have "ring_rep 0 (keyboard_put (keyboard_put demo_kb 0x61) 0x62) [0x61, 0x62]"
    using ring.put_rep [of 0 "keyboard_put demo_kb 0x61" "[0x61]" "0x62"] by simp
  then show ?thesis by (rule keyboard_backspace_drops_oldest)
qed

text \<open>C37: a key press, from the port to the buffer: the handler appends the character of the key to the
  ring of the current process and leaves the caps lock alone.\<close>

theorem key_press_appends:
  assumes "ring_rep (Suc k) s q" and "length q < 1024"
    and "scancode = ucast (device s (io_log s) 0x60)" and "scancode \<noteq> 0x3A"
    and "ps2_input (ps2_caps_lock s) scancode = Some c" and "c \<noteq> 0"
  shows "ring_rep k (ps2_interrupt_handler s) (q @ [c]) \<and> ps2_caps_lock (ps2_interrupt_handler s) = ps2_caps_lock s"
proof -
  define t where "t = snd (insb (change_to_kernel_page_directory s) 0x60)"
  have same: "mem t = mem s" "process_current t = process_current s" "ps2_caps_lock t = ps2_caps_lock s"
    "fst (insb (change_to_kernel_page_directory s) 0x60) = scancode"
    by (simp_all add: t_def insb_def Let_def assms(3) change_to_kernel_page_directory_def load_page_directory_def
        load_pd_to_cr3_def set_all_segments_to_kernel_data_segment_def process_current_def)
  have "ring_rep (Suc k) t q" using assms(1) unfolding ring_rep_def same .
  then have put: "ring_rep k (keyboard_put t c) (q @ [c])" using assms(2,6) by (intro ring.put_rep)
  have released: "scancode AND 0x80 = 0" using assms(5) by (simp add: ps2_input_def split: if_splits)
  have handler: "ps2_interrupt_handler s
      = (let u = keyboard_put t c
         in if current_task u \<noteq> 0 then change_to_current_task_page_directory u else u)"
  proof -
    have "insb (change_to_kernel_page_directory s) 0x60 = (scancode, t)"
      using same(4) by (simp add: t_def prod_eq_iff)
    then show ?thesis using same(3) released assms(4,5) by (simp add: ps2_interrupt_handler_def Let_def)
  qed
  have keep: "ring_rep k (change_to_current_task_page_directory u) q' = ring_rep k u q'"
    "ps2_caps_lock (change_to_current_task_page_directory u) = ps2_caps_lock u" for q' and u :: "'a kbst_scheme"
    by (simp_all add: ring_rep_def process_current_def change_to_current_task_page_directory_def
        set_all_segments_to_user_data_segment_def load_page_directory_def load_pd_to_cr3_def Let_def)
  have "ps2_caps_lock (keyboard_put t c) = ps2_caps_lock s"
    by (simp add: keyboard_put_def keyboard_push_to_buffer_def set8_def set32_def Let_def same)
  then show ?thesis using put unfolding handler Let_def by (simp add: keep)
qed

theorem key_press_appends_witness:
  "ring_rep 0 (ps2_interrupt_handler demo_kb) [0x61]"
  using key_press_appends [OF demo_kb_ring, of 0 "0x1E" "0x61"]
  by (simp add: demo_kb_def ps2_input_def ps2_scancode_to_char_def ps2_scancode_set1_def)

definition letter_keys :: "(u8 \<times> char) list" where
  "letter_keys = zip [0x10, 0x11, 0x12, 0x13, 0x14, 0x15, 0x16, 0x17, 0x18, 0x19] ''qwertyuiop''
     @ zip [0x1E, 0x1F, 0x20, 0x21, 0x22, 0x23, 0x24, 0x25, 0x26] ''asdfghjkl''
     @ zip [0x2C, 0x2D, 0x2E, 0x2F, 0x30, 0x31, 0x32] ''zxcvbnm''"

text \<open>The translation of the letter keys follows the caps lock, and the table is two entries short
  before the keypad: the keys 7 8 9 - 4 5 6 + 1 2 3 0 . of the keypad (scan codes 0x47 to 0x53) give the
  characters of the keys two positions further on, Num Lock and Scroll Lock type 7 and 8, and the codes
  from 0x52 to 0x7F type the byte 0xFF.\<close>

theorem ps2_translation:
  "list_all (\<lambda>(key, c). ps2_input 0 key = Some (of_char c) \<and> ps2_input 1 key = Some (of_char c - 32)) letter_keys
   \<and> map ps2_scancode_to_char [0x47, 0x48, 0x49, 0x4A, 0x4B, 0x4C, 0x4D, 0x4E, 0x4F, 0x50, 0x51, 0x52, 0x53]
       = map of_char ''9-456+1230.'' @ [0xFF, 0xFF]
   \<and> map (ps2_input 0) [0x45, 0x46] = [Some (of_char CHR ''7''), Some (of_char CHR ''8'')]
   \<and> list_all (\<lambda>n. ps2_input 0 (of_nat n) = Some 0xFF) [0x52..<0x80]"
  by code_simp

end
