(* ===== verification/Syscall.thy ===== *)
theory Syscall
  imports Keyboard
begin

text \<open>
  Interrupts (\<^verbatim>\<open>kernel/idt/idt.c\<close>) and system calls (\<^verbatim>\<open>kernel/idt/__0x80/\<close>). The
  prefix \<open>__0x80_\<close> of the C names is \<open>x80_\<close> here. Function pointers are values of the
  datatypes \<open>isr\<close> and \<open>syscall\<close>, a null pointer is \<open>None\<close>. A system call either returns a
  value to its task or, for \<open>EXEC\<close> and \<open>EXIT\<close>, enters another task and never returns.
\<close>

section \<open>State\<close>

record idt_desc =
  offset1 :: u16
  selector :: u16
  idt_zero :: u8
  type_attr :: u8
  offset2 :: u16

datatype syscall = X80_PRINT | X80_GETCH | X80_PUTCH | X80_MALLOC | X80_FREE | X80_EXEC | X80_EXIT

datatype 's sysres = Returns u32 's | Enters user_entry 's

record kernst = kbst +
  idt_descriptors :: "idt_desc list"
  idtr_limit :: u16
  idtr_base :: u32
  x80_functions :: "syscall option list"

section \<open>The descriptor table\<close>

definition null_idt_desc :: idt_desc where
  "null_idt_desc = \<lparr>offset1 = 0, selector = 0, idt_zero = 0, type_attr = 0, offset2 = 0\<rparr>"

definition idt_set :: "'a kernst_scheme \<Rightarrow> nat \<Rightarrow> u32 \<Rightarrow> 'a kernst_scheme" where
  "idt_set s interrupt_no int_address =
     s\<lparr>idt_descriptors := (idt_descriptors s)[interrupt_no :=
        (idt_descriptors s ! interrupt_no)
          \<lparr>offset1 := ucast (int_address AND 0x0000FFFF), selector := KERNEL_CODE_SELECTOR,
           type_attr := (1 * 0x8 + 3 * 0x2) * 0x10 OR 0xE, offset2 := ucast (drop_bit 16 int_address)\<rparr>]\<rparr>"

fun idt_set_all :: "nat \<Rightarrow> u32 list \<Rightarrow> 'a kernst_scheme \<Rightarrow> 'a kernst_scheme" where
  "idt_set_all i [] s = s"
| "idt_set_all i (a # as) s = idt_set_all (Suc i) as (idt_set s i a)"

fun add_no_int_handlers :: "nat \<Rightarrow> 'a kernst_scheme \<Rightarrow> 'a kernst_scheme" where
  "add_no_int_handlers 0 s = s"
| "add_no_int_handlers (Suc n) s =
     add_no_int_handlers n (snd (idt_add_isr_handler s (32 - int (Suc n)) No_int_handler))"

text \<open>The 512 entry stubs and the system-call stub are assembly: their addresses are arguments, and so
  is the address of the table. \<open>idt_load\<close> is the assembly that loads the register.\<close>

definition idt_init :: "'a kernst_scheme \<Rightarrow> u32 list \<Rightarrow> u32 \<Rightarrow> u32 \<Rightarrow> 'a kernst_scheme" where
  "idt_init s interrupt_pointer_table_entries isr_0x80 table =
     (let s = s\<lparr>idt_descriptors := replicate TOTAL_INTERRUPTS null_idt_desc,
               isr_handlers := replicate TOTAL_INTERRUPTS None\<rparr>;
          s = s\<lparr>idtr_limit := 512 * 8 - 1, idtr_base := table\<rparr>;
          s = idt_set_all 0 interrupt_pointer_table_entries s;
          s = add_no_int_handlers 32 s
      in idt_set s 0x80 isr_0x80)"

definition no_int_handler :: "'a mach_scheme \<Rightarrow> 'a mach_scheme" where
  "no_int_handler s = outb s 0x20 0x20"

fun call_isr :: "isr \<Rightarrow> 'a kbst_scheme \<Rightarrow> 'a kbst_scheme" where
  "call_isr No_int_handler s = no_int_handler s"
| "call_isr Ps2_interrupt_handler s = ps2_interrupt_handler s"

definition general_interrupt_handler ::
    "'a kernst_scheme \<Rightarrow> nat \<Rightarrow> interrupt_frame \<Rightarrow> 'a kernst_scheme option" where
  "general_interrupt_handler s interrupt_no iframe =
     do { let s = change_to_kernel_page_directory s;
          s \<leftarrow> (case isr_handlers s ! interrupt_no of
                  None \<Rightarrow> Some s
                | Some h \<Rightarrow> do {
                    s \<leftarrow> (if current_task s \<noteq> 0 then current_task_save_state s iframe else Some s);
                    Some (call_isr h s) });
          let s = (if current_task s \<noteq> 0 then change_to_current_task_page_directory s else s);
          Some (outb s 0x20 0x20) }"

section \<open>The system calls\<close>

definition x80_PRINT :: "'a kernst_scheme \<Rightarrow> ('a kernst_scheme sysres) option" where
  "x80_PRINT s =
     do { (arg, s) \<leftarrow> task_access_stack s (current_task s) 0;
          let buf = local_addr s Arg_in_kernel_space;
          (_, s) \<leftarrow> copy_data_from_task_to_kernel s (current_task s) arg buf 1024;
          (_, s) \<leftarrow> kputs s buf;
          Some (Returns 0 s) }"

definition x80_GETCH :: "'a kernst_scheme \<Rightarrow> ('a kernst_scheme sysres) option" where
  "x80_GETCH s =
     (let (c, s) = keyboard_get s; ch = scast c :: u32
      in if ch = 0 then Some (Returns ch s)
         else Some (Returns ch (kputchar s (ucast ch))))"

definition x80_PUTCH :: "'a kernst_scheme \<Rightarrow> ('a kernst_scheme sysres) option" where
  "x80_PUTCH s =
     do { (arg, s) \<leftarrow> task_access_stack s (current_task s) 0;
          Some (Returns 0 (kputchar s (ucast arg))) }"

definition x80_MALLOC :: "'a kernst_scheme \<Rightarrow> ('a kernst_scheme sysres) option" where
  "x80_MALLOC s =
     do { (sz, s) \<leftarrow> task_access_stack s (current_task s) 0;
          (addr, s) \<leftarrow> process_malloc s sz;
          Some (Returns addr s) }"

definition x80_FREE :: "'a kernst_scheme \<Rightarrow> ('a kernst_scheme sysres) option" where
  "x80_FREE s =
     do { (addr, s) \<leftarrow> task_access_stack s (current_task s) 0;
          (res, s) \<leftarrow> process_free s addr;
          Some (Returns res s) }"

definition x80_EXEC :: "'a kernst_scheme \<Rightarrow> ('a kernst_scheme sysres) option" where
  "x80_EXEC s =
     do { (arg, s) \<leftarrow> task_access_stack s (current_task s) 0;
          let buf = local_addr s Filename_in_kernel;
          (_, s) \<leftarrow> copy_data_from_task_to_kernel s (current_task s) arg buf FS_MAX_PATH_LENGTH;
          (p, s) \<leftarrow> process_new s buf;
          if p = 0 then Some (Returns (word_of_int (- errno ERR_PROCESS_CREATION_FAILED)) s)
          else do {
            let s = process_switch s p;
            let s = task_switch s (process_task (mem s) p);
            Some (Enters (enter_task (mem s) (task_registers (process_task (mem s) p))) s) } }"

text \<open>\<open>process_kill\<close> may return an error, which is ignored.\<close>

definition x80_EXIT :: "'a kernst_scheme \<Rightarrow> ('a kernst_scheme sysres) option" where
  "x80_EXIT s =
     do { (_, s) \<leftarrow> process_kill s (process_current s);
          let (entry, s) = process_back_to_gshell s;
          Some (Enters entry s) }"

fun call_syscall :: "syscall \<Rightarrow> 'a kernst_scheme \<Rightarrow> ('a kernst_scheme sysres) option" where
  "call_syscall X80_PRINT s = x80_PRINT s"
| "call_syscall X80_GETCH s = x80_GETCH s"
| "call_syscall X80_PUTCH s = x80_PUTCH s"
| "call_syscall X80_MALLOC s = x80_MALLOC s"
| "call_syscall X80_FREE s = x80_FREE s"
| "call_syscall X80_EXEC s = x80_EXEC s"
| "call_syscall X80_EXIT s = x80_EXIT s"

section \<open>The table of system calls\<close>

definition x80_add_function :: "'a kernst_scheme \<Rightarrow> int \<Rightarrow> syscall \<Rightarrow> (int \<times> 'a kernst_scheme) option" where
  "x80_add_function s command f =
     (if command < 0 \<or> int KERNEL_MAX_0x80_FUNCTIONS \<le> command then None
      else if x80_functions s ! nat command \<noteq> None then None
      else Some (errno SUCCESS, s\<lparr>x80_functions := (x80_functions s)[nat command := Some f]\<rparr>))"

definition x80_init :: "'a kernst_scheme \<Rightarrow> 'a kernst_scheme option" where
  "x80_init s =
     do { let s = s\<lparr>x80_functions := replicate KERNEL_MAX_0x80_FUNCTIONS None\<rparr>;
          (_, s) \<leftarrow> x80_add_function s 0 X80_PRINT;
          (_, s) \<leftarrow> x80_add_function s 1 X80_GETCH;
          (_, s) \<leftarrow> x80_add_function s 2 X80_PUTCH;
          (_, s) \<leftarrow> x80_add_function s 3 X80_MALLOC;
          (_, s) \<leftarrow> x80_add_function s 4 X80_FREE;
          (_, s) \<leftarrow> x80_add_function s 5 X80_EXEC;
          (_, s) \<leftarrow> x80_add_function s 6 X80_EXIT;
          Some s }"

definition x80_command_handler :: "'a kernst_scheme \<Rightarrow> int \<Rightarrow> ('a kernst_scheme sysres) option" where
  "x80_command_handler s command =
     (if command < 0 \<or> int KERNEL_MAX_0x80_FUNCTIONS \<le> command then Some (Returns 0 s)
      else case x80_functions s ! nat command of
             None \<Rightarrow> Some (Returns 0 s)
           | Some f \<Rightarrow> call_syscall f s)"

definition isr_0x80_handler ::
    "'a kernst_scheme \<Rightarrow> int \<Rightarrow> interrupt_frame \<Rightarrow> ('a kernst_scheme sysres) option" where
  "isr_0x80_handler s command iframe =
     do { let s = change_to_kernel_page_directory s;
          s \<leftarrow> current_task_save_state s iframe;
          res \<leftarrow> x80_command_handler s command;
          Some (case res of
                  Returns ret s \<Rightarrow> Returns ret (change_to_current_task_page_directory s)
                | Enters e s \<Rightarrow> Enters e s) }"

section \<open>The descriptor table after its initialisation\<close>

lemma length_idt_set [simp]: "length (idt_descriptors (idt_set s i a)) = length (idt_descriptors s)"
  by (simp add: idt_set_def)

definition gate :: "u32 \<Rightarrow> idt_desc" where
  "gate a = \<lparr>offset1 = ucast (a AND 0x0000FFFF), selector = KERNEL_CODE_SELECTOR, idt_zero = 0,
     type_attr = 0xEE, offset2 = ucast (drop_bit 16 a)\<rparr>"

lemma gate_offset: "ucast (offset1 (gate a)) OR push_bit 16 (ucast (offset2 (gate a))) = a"
proof -
  have "(0x0000FFFF :: u32) = mask 16" by (simp add: mask_eq_exp_minus_1)
  then have g: "gate a = \<lparr>offset1 = ucast (a AND mask 16), selector = 8, idt_zero = 0, type_attr = 0xEE,
      offset2 = ucast (drop_bit 16 a)\<rparr>"
    by (simp only: gate_def)
  show ?thesis
    unfolding g by (rule bit_word_eqI) (auto simp del: mask_numeral simp: bit_simps not_le)
qed

lemma idt_set_gate:
  assumes "idt_zero (idt_descriptors s ! i) = 0"
  shows "idt_descriptors (idt_set s i a) = (idt_descriptors s)[i := gate a]"
  using assms by (cases "idt_descriptors s ! i") (simp add: idt_set_def gate_def)

lemma idt_set_all_gates:
  assumes "list_all (\<lambda>d. idt_zero d = 0) (idt_descriptors s)" and "i + length as \<le> length (idt_descriptors s)"
  shows "idt_descriptors (idt_set_all i as s)
    = take i (idt_descriptors s) @ map gate as @ drop (i + length as) (idt_descriptors s)"
  using assms
proof (induction as arbitrary: i s)
  case (Cons a as)
  have i: "i < length (idt_descriptors s)" using Cons.prems(2) by simp
  have d: "idt_descriptors (idt_set s i a) = (idt_descriptors s)[i := gate a]"
    using Cons.prems(1) i by (intro idt_set_gate) (simp add: list_all_length)
  have "list_all (\<lambda>d. idt_zero d = 0) (idt_descriptors (idt_set s i a))"
    using Cons.prems(1) i unfolding d list_all_iff
    by (auto simp: gate_def dest: set_update_subset_insert [THEN subsetD])
  then show ?case
    using Cons.IH [of "idt_set s i a" "Suc i"] Cons.prems(2) i
    by (simp add: d take_Suc_conv_app_nth)
qed simp

lemma idt_set_all_keeps [simp]: "isr_handlers (idt_set_all i as s) = isr_handlers s"
  "idtr_limit (idt_set_all i as s) = idtr_limit s" "idtr_base (idt_set_all i as s) = idtr_base s"
  by (induction as arbitrary: i s) (simp_all add: idt_set_def)

lemma idt_set_keeps [simp]: "isr_handlers (idt_set s i a) = isr_handlers s"
  "idtr_limit (idt_set s i a) = idtr_limit s" "idtr_base (idt_set s i a) = idtr_base s"
  by (simp_all add: idt_set_def)

lemma add_no_int_handlers_eq:
  assumes "n \<le> 32"
  shows "add_no_int_handlers n s
    = s\<lparr>isr_handlers := fold (\<lambda>i hs. hs[i := Some No_int_handler]) [32 - n..<32] (isr_handlers s)\<rparr>"
  using assms
proof (induction n arbitrary: s)
  case (Suc n)
  have e: "Suc (32 - Suc n) = 32 - n" "32 - Suc n < 32" using Suc.prems by linarith+
  have u: "[32 - Suc n..<32] = (32 - Suc n) # [32 - n..<32]"
    using upt_conv_Cons [OF e(2)] unfolding e(1) .
  have "nat (32 - int (Suc n)) = 32 - Suc n" by simp
  then show ?case
    using Suc.IH Suc.prems unfolding u by (simp add: idt_add_isr_handler_def)
qed simp

lemma fold_update_prefix:
  "k \<le> length ys \<Longrightarrow> fold (\<lambda>i hs. hs[i := x]) [0..<k] ys = replicate k x @ drop k ys"
proof (induction k)
  case (Suc k)
  then show ?case
    by (simp add: list_update_append Cons_nth_drop_Suc [symmetric] replicate_append_same del: replicate_Suc)
      (simp add: replicate_app_Cons_same)
qed simp

text \<open>The state that \<open>idt_init\<close> leaves, whatever the tables held before.\<close>

lemma idt_set_eq: "idt_set s i a = s\<lparr>idt_descriptors := idt_descriptors (idt_set s i a)\<rparr>"
  by (simp add: idt_set_def)

lemma idt_set_all_eq: "idt_set_all i as s = s\<lparr>idt_descriptors := idt_descriptors (idt_set_all i as s)\<rparr>"
proof (induction as arbitrary: i s)
  case (Cons a as)
  show ?case
    by (simp, subst Cons.IH, subst idt_set_eq) simp
qed simp

lemma idt_init_eq:
  assumes "length stubs = 512"
  shows "idt_init s stubs isr80 table =
    s\<lparr>isr_handlers := replicate 32 (Some No_int_handler) @ replicate 480 None,
      idt_descriptors := (map gate stubs)[0x80 := gate isr80], idtr_limit := 4095, idtr_base := table\<rparr>"
proof -
  define t where "t = s\<lparr>idt_descriptors := replicate 512 null_idt_desc, isr_handlers := replicate 512 None,
    idtr_limit := 4095, idtr_base := table\<rparr>"
  define u where "u = add_no_int_handlers 32 (idt_set_all 0 stubs t)"
  have i: "idt_init s stubs isr80 table = idt_set u 0x80 isr80"
    by (simp add: idt_init_def t_def u_def Let_def)
  have d: "idt_descriptors (idt_set_all 0 stubs t) = map gate stubs"
    using idt_set_all_gates [of t 0 stubs] assms by (simp add: t_def list_all_iff null_idt_desc_def)
  have a: "idt_set_all 0 stubs t = t\<lparr>idt_descriptors := map gate stubs\<rparr>"
    using idt_set_all_eq [of 0 stubs t] unfolding d .
  have u: "u = t\<lparr>idt_descriptors := map gate stubs,
      isr_handlers := replicate 32 (Some No_int_handler) @ replicate 480 None\<rparr>"
    unfolding u_def add_no_int_handlers_eq [OF order_refl] a
    using fold_update_prefix [of 32 "isr_handlers t" "Some No_int_handler"] by (simp add: t_def)
  have "idt_zero (idt_descriptors u ! 0x80) = 0"
    using assms by (simp add: u gate_def)
  then have "idt_descriptors (idt_set u 0x80 isr80) = (map gate stubs)[0x80 := gate isr80]"
    by (simp add: idt_set_gate u)
  then show ?thesis
    unfolding i using idt_set_eq [of u "0x80" isr80] by (simp add: u t_def)
qed

section \<open>Properties\<close>

definition demo_kernel :: kernst where
  "demo_kernel = kbst.extend demo_kb
     \<lparr>idt_descriptors = replicate 512 null_idt_desc, idtr_limit = 0, idtr_base = 0, x80_functions = []\<rparr>"

text \<open>C24: after \<open>idt_init\<close> each of the 512 descriptors is a present 32-bit interrupt gate of the
  kernel code segment that enters the stub of its number, vector 0x80 the system-call stub; the first 32
  vectors have the default handler and the others none; and every gate has privilege level 3, so a task
  can raise each of them with an \<open>int\<close> instruction.\<close>

theorem idt_init_gates:
  assumes "length stubs = 512"
  shows "idt_descriptors (idt_init s stubs isr80 table) = (map gate stubs)[0x80 := gate isr80]
    \<and> isr_handlers (idt_init s stubs isr80 table) = replicate 32 (Some No_int_handler) @ replicate 480 None
    \<and> idtr_base (idt_init s stubs isr80 table) = table \<and> idtr_limit (idt_init s stubs isr80 table) = 4095
    \<and> ucast (offset1 (gate a)) OR push_bit 16 (ucast (offset2 (gate a))) = a
    \<and> drop_bit 5 (type_attr (gate a)) AND 3 = 3"
  unfolding idt_init_eq [OF assms] using gate_offset [of a] by (simp add: gate_def)

theorem idt_init_gates_witness:
  "idt_descriptors (idt_init demo_kernel (replicate 512 0x101234) 0x105678 0x9000) ! 0x21 = gate 0x101234"
proof -
  have "idt_descriptors (idt_init demo_kernel (replicate 512 0x101234) 0x105678 0x9000)
      = (map gate (replicate 512 0x101234))[0x80 := gate 0x105678]"
    using idt_init_gates [of "replicate 512 0x101234" demo_kernel "0x105678" "0x9000"] by simp
  then show ?thesis by simp
qed

definition syscall_table :: "syscall option list" where
  "syscall_table = map Some [X80_PRINT, X80_GETCH, X80_PUTCH, X80_MALLOC, X80_FREE, X80_EXEC, X80_EXIT]
     @ replicate 249 None"

lemma replicate_split: "i < n \<Longrightarrow> (replicate n x)[i := y] = replicate i x @ y # replicate (n - Suc i) x"
  by (simp add: list_eq_iff_nth_eq nth_append nth_Cons' nth_list_update)

lemma x80_init_eq: "x80_init s = Some (s\<lparr>x80_functions := syscall_table\<rparr>)"
proof -
  have r: "replicate 256 None = replicate 7 None @ replicate 249 (None :: syscall option)"
    by (simp flip: replicate_add)
  show ?thesis
    unfolding x80_init_def x80_add_function_def syscall_table_def Let_def r
    by (simp add: eval_nat_numeral)
qed

text \<open>C25: \<open>x80_init\<close> never panics and leaves the seven system calls at the numbers of the
  enumeration; with that table a command is dispatched to its call, and every other command, negative,
  too large or not registered, answers 0 without any effect.\<close>

theorem x80_dispatch:
  "x80_init s = Some (s\<lparr>x80_functions := syscall_table\<rparr>)
    \<and> x80_command_handler (s\<lparr>x80_functions := syscall_table\<rparr>) command
      = (if command \<in> {0..6}
         then call_syscall ([X80_PRINT, X80_GETCH, X80_PUTCH, X80_MALLOC, X80_FREE, X80_EXEC, X80_EXIT] ! nat command)
                (s\<lparr>x80_functions := syscall_table\<rparr>)
         else Some (Returns 0 (s\<lparr>x80_functions := syscall_table\<rparr>)))"
proof
  show "x80_init s = Some (s\<lparr>x80_functions := syscall_table\<rparr>)" by (rule x80_init_eq)
  have n: "syscall_table ! nat command
      = (if command \<le> 6 then Some ([X80_PRINT, X80_GETCH, X80_PUTCH, X80_MALLOC, X80_FREE, X80_EXEC, X80_EXIT] ! nat command)
         else None)" if "0 \<le> command" "command < 256"
    using that by - (simp add: syscall_table_def nth_append del: list.map(2), linarith)
  show "x80_command_handler (s\<lparr>x80_functions := syscall_table\<rparr>) command
      = (if command \<in> {0..6}
         then call_syscall ([X80_PRINT, X80_GETCH, X80_PUTCH, X80_MALLOC, X80_FREE, X80_EXEC, X80_EXIT] ! nat command)
                (s\<lparr>x80_functions := syscall_table\<rparr>)
         else Some (Returns 0 (s\<lparr>x80_functions := syscall_table\<rparr>)))"
    using n by (simp add: x80_command_handler_def)
qed

lemma current_task_directory:
  "mem (change_to_current_task_page_directory s) = mem s" "kheap (change_to_current_task_page_directory s) = kheap s"
  "cur_task (change_to_current_task_page_directory s) = cur_task s"
  "io_log (change_to_current_task_page_directory s) = io_log s"
  "data_segment (change_to_current_task_page_directory s) = 0x23"
  "current_page_directory (change_to_current_task_page_directory s) = vspace_pd (mem s) (task_space (mem s) (cur_task s))"
  "cr3 (change_to_current_task_page_directory s)
    = page_directory_entries (mem s) (vspace_pd (mem s) (task_space (mem s) (cur_task s)))"
  by (simp_all add: change_to_current_task_page_directory_def Let_def load_page_directory_def load_pd_to_cr3_def
      set_all_segments_to_user_data_segment_def)

lemma kernel_directory:
  "mem (change_to_kernel_page_directory s) = mem s" "kheap (change_to_kernel_page_directory s) = kheap s"
  "cur_task (change_to_kernel_page_directory s) = cur_task s"
  "io_log (change_to_kernel_page_directory s) = io_log s"
  "isr_handlers (change_to_kernel_page_directory s) = isr_handlers s"
  by (simp_all add: change_to_kernel_page_directory_def Let_def load_page_directory_def load_pd_to_cr3_def
      set_all_segments_to_kernel_data_segment_def)

lemma outb_sel [simp]:
  "mem (outb s p v) = mem s" "kheap (outb s p v) = kheap s" "cur_task (outb s p v) = cur_task s"
  "data_segment (outb s p v) = data_segment s" "current_page_directory (outb s p v) = current_page_directory s"
  "cr3 (outb s p v) = cr3 s" "io_log (outb s p v) = Out8 p v # io_log s"
  by (simp_all add: outb_def)

text \<open>\<open>switched s s'\<close>: only memory, the history of the ports and the registers that a switch of the address space
  loads may differ.\<close>

definition switched :: "'a mach_scheme \<Rightarrow> 'a mach_scheme \<Rightarrow> bool" where
  "switched s s' \<longleftrightarrow> s' = s\<lparr>mem := mem s', io_log := io_log s', data_segment := data_segment s',
     current_page_directory := current_page_directory s', cr3 := cr3 s'\<rparr>"

lemma switched_trans [trans]: "switched a b \<Longrightarrow> switched b c \<Longrightarrow> switched a c"
  by (cases a, cases b, cases c) (simp add: switched_def)

lemma switched_steps:
  "switched s (change_to_current_task_page_directory s)" "switched s (change_to_kernel_page_directory s)"
  "switched s (outb s p v)" "switched s (no_int_handler s)"
  by (simp_all add: switched_def outb_def no_int_handler_def change_to_current_task_page_directory_def
      change_to_kernel_page_directory_def Let_def load_page_directory_def load_pd_to_cr3_def
      set_all_segments_to_user_data_segment_def set_all_segments_to_kernel_data_segment_def)

lemma save_state_flags:
  assumes "current_task_save_state s f = Some s'"
  shows "load32 (mem s') (cur_task s + 48) = fr_flags f"
  using assms by (auto simp: current_task_save_state_def Let_def set32_set32 apart4_offsets split: if_splits)

lemma save_state_switched: "current_task_save_state s f = Some s' \<Longrightarrow> switched s s'"
  using save_state_mem(1) [of s f s'] by (cases s, cases s') (simp add: switched_def)

lemma save_state_space:
  assumes "current_task_save_state s f = Some s'"
  shows "task_space (mem s') (cur_task s) = task_space (mem s) (cur_task s)"
proof -
  have no: "\<not> e + 4 < 4" if "e < 48" for e :: u32
  proof -
    have "unat (e + 4) = unat e + unat (4 :: u32)"
      using that by (intro unat_add_lem [THEN iffD1]) (simp add: word_less_nat_alt)
    then show ?thesis by (simp add: word_less_nat_alt)
  qed
  have "\<not> within (cur_task s + 4) 48 x" if "within (cur_task s) 4 x" for x
    using no [of "x - (cur_task s + 4)"] that by (auto simp: within_def)
  then show ?thesis
    unfolding task_space_def using save_state_frame [OF assms] by (intro load32_cong) blast
qed

text \<open>C26: an interrupt that only the default handler takes, or none, is transparent: the processor is
  back in the user segments and the page directory of the current task, and no heap block has changed hands.
  Without a handler memory is as it was. With the default handler it is as it was outside the 48 bytes of the
  registers of the current task, and these hold the interrupted frame: entering the task restores it. The
  interrupt controller is acknowledged once by the dispatcher, and a second time by the default handler of
  the first 32 vectors; nothing else of the state changes.\<close>

theorem default_interrupt_transparent:
  assumes "cur_task s \<noteq> 0" and "isr_handlers s ! n \<in> {None, Some No_int_handler}"
  shows "\<exists>s'. general_interrupt_handler s n f = Some s'
      \<and> (if isr_handlers s ! n = None then mem s' = mem s
         else (\<forall>x. within (cur_task s + 4) 48 x \<or> mem s' x = mem s x)
           \<and> enter_task (mem s') (task_registers (cur_task s)) = frame_entry f
           \<and> load32 (mem s') (cur_task s + 48) = fr_flags f)
      \<and> kheap s' = kheap s \<and> cur_task s' = cur_task s \<and> data_segment s' = 0x23
      \<and> current_page_directory s' = vspace_pd (mem s') (task_space (mem s) (cur_task s))
      \<and> cr3 s' = page_directory_entries (mem s') (current_page_directory s')
      \<and> io_log s' = (if isr_handlers s ! n = None then [Out8 0x20 0x20] else [Out8 0x20 0x20, Out8 0x20 0x20]) @ io_log s
      \<and> switched s s'"
proof (cases "isr_handlers s ! n")
  case None
  let ?k = "change_to_kernel_page_directory s"
  let ?s' = "outb (change_to_current_task_page_directory ?k) 0x20 0x20"
  have "general_interrupt_handler s n f = Some ?s'"
    using None assms(1) by (simp add: general_interrupt_handler_def Let_def kernel_directory current_task_def)
  moreover have "switched s ?s'" by (meson switched_steps switched_trans)
  ultimately show ?thesis using None
    by (intro exI [of _ ?s']) (simp add: current_task_directory kernel_directory)
next
  case (Some h)
  then have h: "h = No_int_handler" using assms(2) by simp
  define k where "k = change_to_kernel_page_directory s"
  have k: "mem k = mem s" "kheap k = kheap s" "cur_task k = cur_task s" "io_log k = io_log s"
    "isr_handlers k = isr_handlers s"
    by (simp_all add: k_def kernel_directory)
  obtain t where save: "current_task_save_state k f = Some t"
    using assms(1) k(3) by (simp add: current_task_save_state_def Let_def)
  note m = save_state_mem(1,3) [OF save] and fr = save_state_frame [OF save] and fl = save_state_flags [OF save]
  have t: "kheap t = kheap s" "cur_task t = cur_task s" "io_log t = io_log s"
    by (subst m(1), simp add: k)+
  have ts: "task_space (mem t) (cur_task s) = task_space (mem s) (cur_task s)"
    using save_state_space [OF save] by (simp add: k)
  let ?s' = "outb (change_to_current_task_page_directory (no_int_handler t)) 0x20 0x20"
  have "general_interrupt_handler s n f = Some ?s'"
    using Some h assms(1) save k t(2)
    by (simp add: general_interrupt_handler_def Let_def k_def [symmetric] current_task_def no_int_handler_def)
  moreover have "switched s ?s'"
    using save_state_switched [OF save] unfolding k_def by (meson switched_steps switched_trans)
  moreover have "mem ?s' = mem t" by (simp add: current_task_directory no_int_handler_def)
  moreover have "\<forall>x. within (cur_task s + 4) 48 x \<or> mem t x = mem s x" using fr k(1,3) by auto
  moreover have "io_log ?s' = [Out8 0x20 0x20, Out8 0x20 0x20] @ io_log s" "kheap ?s' = kheap s"
    "cur_task ?s' = cur_task s" "data_segment ?s' = 0x23"
    "current_page_directory ?s' = vspace_pd (mem t) (task_space (mem s) (cur_task s))"
    "cr3 ?s' = page_directory_entries (mem t) (current_page_directory ?s')"
    using t ts by (simp_all add: current_task_directory no_int_handler_def)
  ultimately show ?thesis using Some m(2) fl k(3) by (intro exI [of _ ?s']) simp
qed

text \<open>In use: vector 3 has the default handler, vector \<open>0x21\<close> none.\<close>

definition demo_vectors :: kernst where
  "demo_vectors = demo_kernel\<lparr>isr_handlers := replicate 32 (Some No_int_handler) @ replicate 480 None, cur_task := 0x20000\<rparr>"

theorem default_interrupt_transparent_witness:
  "\<exists>s' s''. general_interrupt_handler demo_vectors 0x21 demo_frame = Some s' \<and> io_log s' = [Out8 0x20 0x20]
     \<and> mem s' = mem demo_vectors
     \<and> general_interrupt_handler demo_vectors 3 demo_frame = Some s'' \<and> u_eip (enter_task (mem s'') 0x20004) = 0x400123
     \<and> mem s'' 0x20000 = mem demo_vectors 0x20000 \<and> io_log s'' = [Out8 0x20 0x20, Out8 0x20 0x20]"
proof -
  let ?s = demo_vectors
  have h: "isr_handlers ?s ! 0x21 = None" "isr_handlers ?s ! 3 = Some No_int_handler"
    by (simp_all add: demo_vectors_def nth_append)
  have c: "cur_task ?s = 0x20000" "io_log ?s = []"
    by (simp_all add: demo_vectors_def demo_kernel_def demo_kb_def kbst.extend_def)
  have "\<exists>s'. general_interrupt_handler ?s 0x21 demo_frame = Some s' \<and> io_log s' = [Out8 0x20 0x20] \<and> mem s' = mem ?s"
    using default_interrupt_transparent [of ?s "0x21" demo_frame] h c by auto
  moreover obtain s'' where s'': "general_interrupt_handler ?s 3 demo_frame = Some s''"
    "\<forall>x. within 0x20004 48 x \<or> mem s'' x = mem ?s x" "enter_task (mem s'') (task_registers 0x20000) = frame_entry demo_frame"
    "io_log s'' = [Out8 0x20 0x20, Out8 0x20 0x20]"
    using default_interrupt_transparent [of ?s 3 demo_frame] h c by auto
  moreover have "mem s'' 0x20000 = mem ?s 0x20000" using s''(2) [rule_format, of "0x20000"] by (simp add: within_def)
  ultimately show ?thesis
    by (auto simp: task_registers_def frame_entry_def demo_frame_def)
qed

end
