(* ===== verification/Gdt.thy ===== *)
theory Gdt
  imports CMem
begin

text \<open>
  The segment descriptors of \<^verbatim>\<open>kernel/gdt/gdt.c\<close> and the table \<open>_gdt_s\<close> of
  \<^verbatim>\<open>kernel/kernel.c\<close>. A descriptor is eight bytes of memory; \<open>seg_base\<close>,
  \<open>seg_limit\<close>, \<open>seg_granular\<close> and \<open>seg_access\<close> are its fields as the processor reads
  them, and \<open>seg_last\<close> the offset of the last byte it admits. A call that ends in \<open>kpanic\<close> is
  \<open>None\<close>.
\<close>

section \<open>Operations\<close>

record gdt_structured =
  base :: u32
  limit :: u32
  attrubutes :: u8

definition gdt_unstructure :: "memory \<Rightarrow> u32 \<Rightarrow> gdt_structured \<Rightarrow> memory option" where
  "gdt_unstructure m target source =
     (if limit source AND 0xFFF00000 \<noteq> 0 then None
      else
        let m = m(target + 6 := 0x40);
            (lim, m) = (if 0xFFFF < limit source
                        then (drop_bit 12 (limit source), m(target + 6 := 0xC0))
                        else (limit source, m));
            m = m(target := ucast (lim AND 0xFF));
            m = m(target + 1 := ucast (drop_bit 8 lim AND 0xFF));
            m = m(target + 6 := m (target + 6) OR ucast (drop_bit 16 lim AND 0x0F));
            m = m(target + 2 := ucast (base source AND 0xFF));
            m = m(target + 3 := ucast (drop_bit 8 (base source) AND 0xFF));
            m = m(target + 4 := ucast (drop_bit 16 (base source) AND 0xFF));
            m = m(target + 7 := ucast (drop_bit 24 (base source) AND 0xFF));
            m = m(target + 5 := attrubutes source)
        in Some m)"

function get_gdt_loop ::
    "memory \<Rightarrow> u32 \<Rightarrow> gdt_structured list \<Rightarrow> u16 \<Rightarrow> u16 \<Rightarrow> memory option" where
  "get_gdt_loop m gdt gdt_s entry gdt_entries =
     (if entry < gdt_entries then
        case gdt_unstructure m (gdt + 8 * ucast entry) (gdt_s ! unat entry) of
          None \<Rightarrow> None
        | Some m \<Rightarrow> get_gdt_loop m gdt gdt_s (entry + 1) gdt_entries
      else Some m)"
  by pat_completeness auto
termination
  by (relation "measure (\<lambda>(m, gdt, gdt_s, entry, n). unat n - unat entry)") (auto simp: unat_loop_dec)

declare get_gdt_loop.simps [simp del, loop_simps]

definition get_gdt_from_structured ::
    "memory \<Rightarrow> u32 \<Rightarrow> gdt_structured list \<Rightarrow> u16 \<Rightarrow> memory option" where
  "get_gdt_from_structured m gdt gdt_s gdt_entries = get_gdt_loop m gdt gdt_s 0 gdt_entries"

text \<open>The table of the kernel; the address of the task state segment is fixed at link time, and
  \<open>sizeof(struct tss)\<close> is 100.\<close>

definition kernel_gdt_s :: "u32 \<Rightarrow> gdt_structured list" where
  "kernel_gdt_s tss =
     [\<lparr>base = 0, limit = 0x00, attrubutes = 0x00\<rparr>,
      \<lparr>base = 0, limit = 0x000FFFFF, attrubutes = 0x9a\<rparr>,
      \<lparr>base = 0, limit = 0x000FFFFF, attrubutes = 0x92\<rparr>,
      \<lparr>base = 0, limit = 0x000FFFFF, attrubutes = 0xf8\<rparr>,
      \<lparr>base = 0, limit = 0x000FFFFF, attrubutes = 0xf2\<rparr>,
      \<lparr>base = tss, limit = 100, attrubutes = 0xe9\<rparr>]"

section \<open>The descriptor as the processor reads it\<close>

definition seg_base :: "memory \<Rightarrow> u32 \<Rightarrow> u32" where
  "seg_base m a = ucast (m (a + 2)) OR push_bit 8 (ucast (m (a + 3)))
     OR push_bit 16 (ucast (m (a + 4))) OR push_bit 24 (ucast (m (a + 7)))"

definition seg_limit :: "memory \<Rightarrow> u32 \<Rightarrow> u32" where
  "seg_limit m a = ucast (m a) OR push_bit 8 (ucast (m (a + 1)))
     OR push_bit 16 (ucast (m (a + 6) AND 0x0F))"

definition seg_granular :: "memory \<Rightarrow> u32 \<Rightarrow> bool" where
  "seg_granular m a \<longleftrightarrow> bit (m (a + 6)) 7"

definition seg_last :: "memory \<Rightarrow> u32 \<Rightarrow> u32" where
  "seg_last m a = (if seg_granular m a then push_bit 12 (seg_limit m a) OR 0xFFF else seg_limit m a)"

definition seg_access :: "memory \<Rightarrow> u32 \<Rightarrow> u8" where
  "seg_access m a = m (a + 5)"

text \<open>The bytes of a descriptor that one encoding writes.\<close>

definition describes :: "memory \<Rightarrow> u32 \<Rightarrow> gdt_structured \<Rightarrow> bool" where
  "describes m a d \<longleftrightarrow> seg_base m a = base d \<and> seg_access m a = attrubutes d
     \<and> seg_last m a = (if 0xFFFF < limit d then limit d OR 0xFFF else limit d)"

lemma bit_mask_int:
  "bit (0xFF :: int) n \<longleftrightarrow> n < 8" "bit (0x0F :: int) n \<longleftrightarrow> n < 4" "bit (0xFFF :: int) n \<longleftrightarrow> n < 12"
proof -
  have m: "(0xFF :: int) = mask 8" "(0x0F :: int) = mask 4" "(0xFFF :: int) = mask 12"
    by (simp_all add: mask_eq_exp_minus_1)
  show "bit (0xFF :: int) n \<longleftrightarrow> n < 8" "bit (0x0F :: int) n \<longleftrightarrow> n < 4" "bit (0xFFF :: int) n \<longleftrightarrow> n < 12"
    unfolding m by (simp_all only: bit_mask_iff possible_bit_def) simp_all
qed

lemma gran_bits_int: "bit (0x40 :: int) n \<longleftrightarrow> n = 6" "bit (0xC0 :: int) n \<longleftrightarrow> n = 6 \<or> n = 7"
proof -
  have m: "(0x40 :: int) = push_bit 6 1" "(0xC0 :: int) = push_bit 6 1 OR push_bit 7 1" by simp_all
  show "bit (0x40 :: int) n \<longleftrightarrow> n = 6" "bit (0xC0 :: int) n \<longleftrightarrow> n = 6 \<or> n = 7"
    unfolding m by (auto simp only: bit_simps) (simp_all add: bit_1_iff)
qed

lemma limit_bits:
  fixes l :: u32
  assumes "l AND 0xFFF00000 = 0" and "20 \<le> n"
  shows "\<not> bit l n"
proof
  assume b: "bit l n"
  then have n: "n < 32" using bit_imp_le_length [OF b] by simp
  have m: "(0xFFF00000 :: u32) = NOT (mask 20)" by (simp add: mask_eq_exp_minus_1)
  have "bit (l AND 0xFFF00000) n"
    unfolding m using b assms(2) n
    by (simp only: bit_and_iff bit_not_iff bit_mask_iff possible_bit_word) simp
  then show False using assms(1) by simp
qed

lemma small_bits:
  fixes l :: u32
  assumes "\<not> 0xFFFF < l" and "16 \<le> n"
  shows "\<not> bit l n"
proof -
  have "unat l < 2 ^ 16" using assms(1) by (simp add: word_less_nat_alt)
  then have "take_bit 16 (unat l) = unat l" by (rule take_bit_nat_eq_self)
  then show ?thesis using assms(2) bit_take_bit_iff [of 16 "unat l" n] by (simp add: bit_unsigned_iff)
qed

lemma ucast_low_byte: "(ucast (x AND 0xFF :: u32) :: u8) = ucast x"
  by (rule bit_word_eqI) (simp add: bit_simps bit_mask_int)

lemma nibble_of_flags: "((if big then 0xC0 else 0x40) OR ucast (x AND 0x0F :: u32) :: u8) AND 0x0F
    = ucast (x AND 0x0F)"
  by (rule bit_word_eqI) (simp add: bit_simps bit_mask_int gran_bits_int, auto?)

lemma limit_split:
  fixes l :: u32
  assumes "\<And>n. 20 \<le> n \<Longrightarrow> \<not> bit l n"
  shows "ucast (ucast l :: u8) OR push_bit 8 (ucast (ucast (drop_bit 8 l) :: u8))
    OR push_bit 16 (ucast (ucast (drop_bit 16 l AND 0x0F) :: u8)) = l"
proof (rule bit_word_eqI)
  fix n assume "n < LENGTH(32)"
  then consider "n < 8" | "8 \<le> n" "n < 16" | "16 \<le> n" "n < 20" | "20 \<le> n" "n < 32" by fastforce
  then show "bit (ucast (ucast l :: u8) OR push_bit 8 (ucast (ucast (drop_bit 8 l) :: u8))
    OR push_bit 16 (ucast (ucast (drop_bit 16 l AND 0x0F) :: u8)) :: u32) n = bit l n"
    by cases (use assms in \<open>auto simp: bit_simps bit_mask_int\<close>)
qed

lemma page_round: "push_bit 12 (drop_bit 12 (l :: u32)) OR 0xFFF = l OR 0xFFF"
proof (rule bit_word_eqI)
  fix n assume "n < LENGTH(32)"
  then show "bit (push_bit 12 (drop_bit 12 l) OR 0xFFF) n = bit (l OR 0xFFF) n"
    by (cases "n < 12") (simp_all add: bit_simps bit_mask_int)
qed

lemma granular_flag: "bit ((if big then 0xC0 else 0x40) OR ucast (x AND 0x0F :: u32) :: u8) 7 = big"
  by (simp add: bit_simps bit_mask_int gran_bits_int)

lemma gdt_unstructure_describes:
  assumes "limit d AND 0xFFF00000 = 0"
  shows "\<exists>m'. gdt_unstructure m a d = Some m' \<and> describes m' a d
    \<and> (\<forall>x. \<not> within a 8 x \<longrightarrow> m' x = m x)"
proof -
  define big where "big \<longleftrightarrow> 0xFFFF < limit d"
  define lim where "lim = (if big then drop_bit 12 (limit d) else limit d)"
  define m' where "m' = m(a + 6 := (if big then 0xC0 else 0x40) OR ucast (drop_bit 16 lim AND 0x0F),
    a := ucast (lim AND 0xFF), a + 1 := ucast (drop_bit 8 lim AND 0xFF),
    a + 2 := ucast (base d AND 0xFF), a + 3 := ucast (drop_bit 8 (base d) AND 0xFF),
    a + 4 := ucast (drop_bit 16 (base d) AND 0xFF), a + 7 := ucast (drop_bit 24 (base d) AND 0xFF),
    a + 5 := attrubutes d)"
  have m': "gdt_unstructure m a d = Some m'"
    using assms by (cases big) (simp_all add: gdt_unstructure_def m'_def big_def lim_def fun_eq_iff)
  have bytes: "m' a = ucast (lim AND 0xFF)" "m' (a + 1) = ucast (drop_bit 8 lim AND 0xFF)"
    "m' (a + 2) = ucast (base d AND 0xFF)" "m' (a + 3) = ucast (drop_bit 8 (base d) AND 0xFF)"
    "m' (a + 4) = ucast (drop_bit 16 (base d) AND 0xFF)"
    "m' (a + 7) = ucast (drop_bit 24 (base d) AND 0xFF)"
    "m' (a + 6) = (if big then 0xC0 else 0x40) OR ucast (drop_bit 16 lim AND 0x0F)"
    "m' (a + 5) = attrubutes d"
    by (simp_all only: m'_def fun_upd_apply) simp_all
  have frame: "m' x = m x" if "\<not> within a 8 x" for x
    using that by (auto simp: within_def m'_def)
  have base: "seg_base m' a = base d"
    unfolding seg_base_def bytes ucast_low_byte by (rule u32_split_bytes)
  have lim20: "\<not> bit lim n" if "20 \<le> n" for n
    using that limit_bits [OF assms] by (auto simp: lim_def bit_simps)
  have lim: "seg_limit m' a = lim"
    unfolding seg_limit_def bytes ucast_low_byte nibble_of_flags by (rule limit_split [OF lim20])
  have gran: "seg_granular m' a = big"
    unfolding seg_granular_def bytes by (rule granular_flag)
  have "seg_last m' a = (if 0xFFFF < limit d then limit d OR 0xFFF else limit d)"
    by (simp add: seg_last_def lim gran lim_def big_def page_round)
  then show ?thesis
    using m' base frame by (auto simp: describes_def seg_access_def bytes)
qed

lemma describes_cong:
  assumes "describes m a d" and "\<And>x. within a 8 x \<Longrightarrow> m' x = m x"
  shows "describes m' a d"
proof -
  have "m' (a + k) = m (a + k)" if "k < 8" for k using that assms(2) by (simp add: within_def)
  then have "m' a = m a" "m' (a + 1) = m (a + 1)" "m' (a + 2) = m (a + 2)" "m' (a + 3) = m (a + 3)"
    "m' (a + 4) = m (a + 4)" "m' (a + 5) = m (a + 5)" "m' (a + 6) = m (a + 6)"
    "m' (a + 7) = m (a + 7)" using assms(2) [of a] by (simp_all add: within_def)
  then have "seg_base m' a = seg_base m a" "seg_limit m' a = seg_limit m a"
    "seg_granular m' a = seg_granular m a" "seg_access m' a = seg_access m a"
    by (simp_all only: seg_base_def seg_limit_def seg_granular_def seg_access_def)
  then show ?thesis using assms(1) by (simp only: describes_def seg_last_def)
qed

text \<open>The slots of a table of at most 65536 descriptors are disjoint.\<close>

lemma unat_slot: "i < 2 ^ 16 \<Longrightarrow> unat (of_nat (8 * i) :: u32) = 8 * i"
  by (intro unat_of_nat_less) simp

lemma within_slot:
  assumes "i < 2 ^ 16"
  shows "within (g + 8 * of_nat i) 8 x \<longleftrightarrow> unat (x - g) div 8 = i"
proof -
  have u: "unat (of_nat (8 * i) :: u32) = 8 * i" by (rule unat_slot [OF assms])
  have e: "x - (g + 8 * of_nat i) = (x - g) - of_nat (8 * i)" by (simp add: algebra_simps)
  have "unat ((x - g) - of_nat (8 * i)) < 8 \<longleftrightarrow> unat (x - g) div 8 = i"
  proof (cases "8 * i \<le> unat (x - g)")
    case True
    then have "unat ((x - g) - of_nat (8 * i)) = unat (x - g) - 8 * i"
      using u by (subst unat_sub) (simp_all only: word_le_nat_alt)
    then show ?thesis using True by auto
  next
    case False
    have "unat ((x - g) - of_nat (8 * i)) = 2 ^ 32 + unat (x - g) - 8 * i"
      using u False by (subst unat_sub_if_size) (simp add: word_size word_le_nat_alt)
    then show ?thesis using False assms by auto
  qed
  then show ?thesis by (simp only: within_def e word_less_nat_alt) simp
qed

lemma get_gdt_loop_describes:
  assumes "\<forall>d\<in>set gdt_s. limit d AND 0xFFF00000 = 0" and "length gdt_s = unat n" and "entry \<le> n"
  shows "\<exists>m'. get_gdt_loop m g gdt_s entry n = Some m'
    \<and> (\<forall>i. unat entry \<le> i \<and> i < unat n \<longrightarrow> describes m' (g + 8 * of_nat i) (gdt_s ! i))
    \<and> (\<forall>x. unat (x - g) < 8 * unat entry \<or> 8 * unat n \<le> unat (x - g) \<longrightarrow> m' x = m x)"
  using assms
proof (induction m g gdt_s entry n rule: get_gdt_loop.induct)
  case (1 m g gdt_s entry n)
  show ?case
  proof (cases "entry < n")
    case False
    then have "entry = n" using 1(4) by simp
    then show ?thesis by (subst get_gdt_loop.simps) auto
  next
    case True
    let ?i = "unat entry"
    let ?a = "g + 8 * ucast entry :: u32"
    have i: "?i < unat n" "?i < 2 ^ 16"
      using True unsigned_less [of entry, where ?'a = nat] by (simp_all add: word_less_nat_alt)
    have a: "?a = g + 8 * of_nat ?i" by simp
    then have slot: "within ?a 8 x \<longleftrightarrow> unat (x - g) div 8 = ?i" for x
      by (simp only: a within_slot [OF i(2)])
    have "limit (gdt_s ! ?i) AND 0xFFF00000 = 0" using 1(2,3) i by simp
    from gdt_unstructure_describes [OF this, of m ?a] obtain m1 where
      m1: "gdt_unstructure m ?a (gdt_s ! ?i) = Some m1" "describes m1 ?a (gdt_s ! ?i)"
        "\<forall>x. \<not> within ?a 8 x \<longrightarrow> m1 x = m x" by blast
    have suc: "unat (entry + 1) = Suc ?i" by (rule unat_Suc_less [OF True])
    have "entry + 1 \<le> n" using i(1) by (simp add: word_le_nat_alt suc)
    from "1.IH" [OF True m1(1) 1(2,3) this] obtain m2 where
      m2: "get_gdt_loop m1 g gdt_s (entry + 1) n = Some m2"
        "\<And>i. Suc ?i \<le> i \<and> i < unat n \<Longrightarrow> describes m2 (g + 8 * of_nat i) (gdt_s ! i)"
        "\<And>x. unat (x - g) < 8 * Suc ?i \<or> 8 * unat n \<le> unat (x - g) \<Longrightarrow> m2 x = m1 x"
      unfolding suc by blast
    have "describes m2 ?a (gdt_s ! ?i)"
      by (rule describes_cong [OF m1(2)]) (rule m2(3), use slot in auto)
    then have here: "describes m2 (g + 8 * of_nat ?i) (gdt_s ! ?i)" by (simp only: a)
    have frame: "m2 x = m x" if "unat (x - g) < 8 * ?i \<or> 8 * unat n \<le> unat (x - g)" for x
      using that m2(3) [of x] m1(3) slot [of x] i(1) by auto
    have "get_gdt_loop m g gdt_s entry n = Some m2"
      using True m1(1) m2(1) by (subst get_gdt_loop.simps) simp
    moreover have "describes m2 (g + 8 * of_nat i) (gdt_s ! i)" if "?i \<le> i" "i < unat n" for i
      using here m2(2) [of i] that by (cases "i = ?i") simp_all
    ultimately show ?thesis using frame by blast
  qed
qed

section \<open>Properties\<close>

text \<open>C27: encoding a table whose limits have at most 20 bits does not panic; the processor then reads
  back each base and access byte, and a limit up to 64 KB exactly, a larger one rounded up to its
  page. Only the bytes of the table change.\<close>

theorem gdt_table_roundtrip:
  assumes "\<forall>d\<in>set gdt_s. limit d AND 0xFFF00000 = 0" and "length gdt_s = unat n"
  shows "\<exists>m'. get_gdt_from_structured m g gdt_s n = Some m'
    \<and> (\<forall>i<length gdt_s. seg_base m' (g + 8 * of_nat i) = base (gdt_s ! i)
        \<and> seg_access m' (g + 8 * of_nat i) = attrubutes (gdt_s ! i)
        \<and> seg_last m' (g + 8 * of_nat i) =
            (if 0xFFFF < limit (gdt_s ! i) then limit (gdt_s ! i) OR 0xFFF else limit (gdt_s ! i)))
    \<and> (\<forall>x. unat (x - g) < 8 * length gdt_s \<or> m' x = m x)"
proof -
  obtain m' where m': "get_gdt_from_structured m g gdt_s n = Some m'"
    "\<And>i. i < unat n \<Longrightarrow> describes m' (g + 8 * of_nat i) (gdt_s ! i)"
    "\<And>x. 8 * unat n \<le> unat (x - g) \<Longrightarrow> m' x = m x"
    using get_gdt_loop_describes [OF assms, of 0 m g] by (auto simp: get_gdt_from_structured_def)
  show ?thesis
    unfolding assms(2) using m' by (intro exI [of _ m']) (simp add: describes_def, metis not_le)
qed

lemma kernel_gdt_limits: "\<forall>d\<in>set (kernel_gdt_s tss). limit d AND 0xFFF00000 = 0"
  by (simp add: kernel_gdt_s_def)

theorem gdt_table_roundtrip_witness:
  "\<exists>m'. get_gdt_from_structured (\<lambda>x. 0) 0x9000 (kernel_gdt_s 0xA000) 6 = Some m'
    \<and> seg_base m' 0x9028 = 0xA000 \<and> seg_last m' 0x9028 = 100"
proof -
  have l: "length (kernel_gdt_s 0xA000) = 6" by (simp add: kernel_gdt_s_def)
  have n: "length (kernel_gdt_s 0xA000) = unat (6 :: u16)" by (simp add: l)
  obtain m' where m': "get_gdt_from_structured (\<lambda>x. 0) 0x9000 (kernel_gdt_s 0xA000) 6 = Some m'"
    "\<forall>i<length (kernel_gdt_s 0xA000). seg_base m' (0x9000 + 8 * of_nat i) = base (kernel_gdt_s 0xA000 ! i)
        \<and> seg_access m' (0x9000 + 8 * of_nat i) = attrubutes (kernel_gdt_s 0xA000 ! i)
        \<and> seg_last m' (0x9000 + 8 * of_nat i) =
            (if 0xFFFF < limit (kernel_gdt_s 0xA000 ! i) then limit (kernel_gdt_s 0xA000 ! i) OR 0xFFF
             else limit (kernel_gdt_s 0xA000 ! i))"
    using gdt_table_roundtrip [OF kernel_gdt_limits n, of "\<lambda>x. 0" "0x9000"] by blast
  show ?thesis
    using m'(1) m'(2) [THEN spec, of 5] by (intro exI [of _ m']) (simp add: kernel_gdt_s_def)
qed

text \<open>With the table of the kernel, the code and data segments of both rings admit exactly the
  first megabyte: the limit \<open>0xFFFFF\<close>, shifted before it is stored, counts bytes and not pages.
  The kernel heap starts at 16 MB and the stack of a task at 4 MB, beyond every one of them.\<close>

theorem kernel_segments_one_megabyte:
  "\<exists>m'. get_gdt_from_structured m g (kernel_gdt_s tss) 6 = Some m'
    \<and> list_all (\<lambda>i. seg_base m' (g + 8 * of_nat i) = 0
        \<and> seg_last m' (g + 8 * of_nat i) = 0xFFFFF
        \<and> seg_last m' (g + 8 * of_nat i) < KERNEL_HEAP_BASE
        \<and> seg_last m' (g + 8 * of_nat i) < TASK_DEFAULT_STACK_END) [1, 2, 3, 4]"
proof -
  have "length (kernel_gdt_s tss) = unat (6 :: u16)" by (simp add: kernel_gdt_s_def)
  from get_gdt_loop_describes [OF kernel_gdt_limits this, of 0 m g] obtain m' where
    m': "get_gdt_from_structured m g (kernel_gdt_s tss) 6 = Some m'"
      "\<And>i. i < 6 \<Longrightarrow> describes m' (g + 8 * of_nat i) (kernel_gdt_s tss ! i)"
    by (auto simp: get_gdt_from_structured_def)
  have d: "seg_base m' (g + 8 * of_nat i) = 0 \<and> seg_last m' (g + 8 * of_nat i) = 0xFFFFF"
    if "i \<in> {1, 2, 3, 4}" for i
  proof -
    have "i < 6" "limit (kernel_gdt_s tss ! i) = 0xFFFFF" "base (kernel_gdt_s tss ! i) = 0"
      using that by (auto simp: kernel_gdt_s_def)
    then show ?thesis using m'(2) [of i] by (simp add: describes_def)
  qed
  have lt: "(0xFFFFF :: u32) < KERNEL_HEAP_BASE" "(0xFFFFF :: u32) < TASK_DEFAULT_STACK_END" by simp_all
  show ?thesis
    using m'(1) d lt by (intro exI [of _ m']) (simp add: list_all_iff)
qed

end
