(* ===== verification/Kernel.thy ===== *)
theory Kernel
  imports Syscall Gdt
begin

text \<open>
  The start of the kernel (\<^verbatim>\<open>kernel/kernel.c\<close>), composed of the initialisers of the
  other components in the order of the C code, in four parts: the tables of the processor, memory,
  the file system, and the shell. The addresses the linker chooses and the registers the processor loads
  are state: \<open>gdtr\<close>, \<open>task_register\<close> and the two flags. Loading the task register reads its descriptor
  and marks it busy. A message is given by its text.
\<close>

section \<open>State\<close>

record kernelst = kernst +
  gdt_addr :: u32
  tss_addr :: u32
  idt_addr :: u32
  interrupt_stubs :: "u32 list"
  isr_0x80_stub :: u32
  gshell_path :: u32
  gdtr :: "u32 \<times> u16"
  task_register :: u16
  irq_enabled :: bool
  paging_enabled :: bool

text \<open>The task state segment as the record of the source; the kernel writes two of its words.\<close>

record tss =
  tss_link :: u32
  tss_esp0 :: u32
  tss_ss0 :: u32
  tss_esp1 :: u32
  tss_esp2 :: u32
  tss_ss2 :: u32
  tss_sr3 :: u32
  tss_eip :: u32
  tss_eflags :: u32
  tss_eax :: u32
  tss_ecx :: u32
  tss_edx :: u32
  tss_ebx :: u32
  tss_esp :: u32
  tss_ebp :: u32
  tss_esi :: u32
  tss_edi :: u32
  tss_es :: u32
  tss_cs :: u32
  tss_ss :: u32
  tss_ds :: u32
  tss_fs :: u32
  tss_gs :: u32
  tss_ldtr :: u32
  tss_iopb :: u32

definition tss_at :: "memory \<Rightarrow> u32 \<Rightarrow> tss" where
  "tss_at m t =
     \<lparr>tss_link = load32 m t, tss_esp0 = load32 m (t + 4), tss_ss0 = load32 m (t + 8),
      tss_esp1 = load32 m (t + 12), tss_esp2 = load32 m (t + 16), tss_ss2 = load32 m (t + 20),
      tss_sr3 = load32 m (t + 24), tss_eip = load32 m (t + 28), tss_eflags = load32 m (t + 32),
      tss_eax = load32 m (t + 36), tss_ecx = load32 m (t + 40), tss_edx = load32 m (t + 44),
      tss_ebx = load32 m (t + 48), tss_esp = load32 m (t + 52), tss_ebp = load32 m (t + 56),
      tss_esi = load32 m (t + 60), tss_edi = load32 m (t + 64), tss_es = load32 m (t + 68),
      tss_cs = load32 m (t + 72), tss_ss = load32 m (t + 76), tss_ds = load32 m (t + 80),
      tss_fs = load32 m (t + 84), tss_gs = load32 m (t + 88), tss_ldtr = load32 m (t + 92),
      tss_iopb = load32 m (t + 96)\<rparr>"

section \<open>Start\<close>

text \<open>\<open>kputs\<close> of a literal: a character at a time.\<close>

definition kputs_literal :: "string \<Rightarrow> 'a vga_scheme \<Rightarrow> 'a vga_scheme" where
  "kputs_literal msg s = fold (\<lambda>c s. kputchar s (of_char c)) msg s"

text \<open>\<open>tss_load\<close>: the instruction \<open>ltr\<close> of \<^verbatim>\<open>tss.s\<close>. The selector picks a descriptor of the loaded table; the
  processor faults (\<open>None\<close>) on the null selector, a selector of the local table, a descriptor past the limit of the
  table, one that is not an available task state segment, and one that is not present. Otherwise it loads the
  register and marks the descriptor busy, in memory.\<close>

definition tss_load :: "u16 \<Rightarrow> 'a kernelst_scheme \<Rightarrow> 'a kernelst_scheme option" where
  "tss_load tss_sel s =
     (let off = ucast (tss_sel AND 0xFFF8) :: u32;
          a = fst (gdtr s) + off + 5;
          access = mem s a
      in if off = 0 \<or> tss_sel AND 4 \<noteq> 0 \<or> unat (snd (gdtr s)) < unat off + 7
          \<or> access AND 0x17 \<noteq> 0x01 \<or> access AND 0x80 = 0 then None
         else Some (s\<lparr>mem := (mem s)(a := access OR 0x02), task_register := tss_sel\<rparr>))"

definition start_tables :: "'a kernelst_scheme \<Rightarrow> 'a kernelst_scheme option" where
  "start_tables s =
     do { let s = kclear_display s;
          let s = s\<lparr>irq_enabled := False\<rparr>;
          let s = vga_init s;
          let s = s\<lparr>mem := memset (mem s) (gdt_addr s) 0 8\<rparr>;
          m \<leftarrow> get_gdt_from_structured (mem s) (gdt_addr s) (kernel_gdt_s (tss_addr s)) (of_nat GDT_ENTRIES);
          let s = kputs_literal ''[KERNEL]: setting up gdt.\<newline>'' (s\<lparr>mem := m\<rparr>);
          let s = s\<lparr>gdtr := (gdt_addr s, 48)\<rparr>;
          let s = kputs_literal ''[KERNEL]: loaded up gdt.\<newline>'' s;
          let s = s\<lparr>mem := memset (mem s) (tss_addr s) 0 100\<rparr>;
          let s = set32 (tss_addr s + 4) 0x600000 s;
          let s = set32 (tss_addr s + 8) (ucast KERNEL_DATA_SELECTOR) s;
          let s = kputs_literal ''[KERNEL]: setting up tss.\<newline>'' s;
          s \<leftarrow> tss_load 0x28 s;
          let s = kputs_literal ''[KERNEL]: loaded up tss.\<newline>'' s;
          let s = idt_init s (interrupt_stubs s) (isr_0x80_stub s) (idt_addr s);
          let s = kputs_literal ''[KERNEL]: initialised idt. \<newline>'' s;
          s \<leftarrow> x80_init s;
          Some (kputs_literal ''[KERNEL]: initialised gammaOS system call handlers. \<newline>'' s) }"

definition start_memory :: "'a kernelst_scheme \<Rightarrow> 'a kernelst_scheme option" where
  "start_memory s =
     do { s \<leftarrow> kheap_init s;
          let s = kputs_literal ''[KERNEL]: initialised kernel heap. \<newline>'' s;
          let s = process_init s;
          let s = kputs_literal ''[KERNEL]: initialised process structures\<newline>'' s;
          let s = keyboard_init s;
          let s = kputs_literal ''[KERNEL]: initialised keyboard drivers. \<newline>'' s;
          (space, s) \<leftarrow> create_virtual_address_space s 7;
          let s = s\<lparr>kernel_space := space\<rparr>;
          if space = 0 then None
          else do {
            let s = kputs_literal ''[KERNEL]: initialised kernel address space. \<newline>'' s;
            let s = load_page_directory s (vspace_pd (mem s) (kernel_space s));
            Some (kputs_literal ''[KERNEL]: loaded kernel page directory. \<newline>'' s) } }"

definition start_files :: "'a kernelst_scheme \<Rightarrow> 'a kernelst_scheme option" where
  "start_files s =
     do { let s = file_init s;
          let s = kputs_literal ''[KERNEL]: initialised virtual filesystem. \<newline>'' s;
          let (fs, s) = fat16_init s;
          let (res, s) = vfs_attach s fs;
          if res < 0 then None
          else do {
            let s = kputs_literal ''[KERNEL]: attached fat16 driver. \<newline>'' s;
            (disk, s) \<leftarrow> disk_init s 0x41;
            if disk = 0 then None
            else do {
              let s = kputs_literal ''[KERNEL]: initialised primary disk. \<newline>'' s;
              let s = s\<lparr>paging_enabled := True\<rparr>;
              Some (kputs_literal ''[KERNEL]: initialised paging. \<newline>'' s) } } }"

definition start_shell :: "'a kernelst_scheme \<Rightarrow> (user_entry \<times> 'a kernelst_scheme) option" where
  "start_shell s =
     do { (proc_gshell, s) \<leftarrow> process_new s (gshell_path s);
          let s = kputs_literal ''[KERNEL]: loading gshell...\<newline>'' s;
          if proc_gshell = 0 then None
          else do {
            let s = s\<lparr>irq_enabled := True\<rparr>;
            let s = kclear_display s;
            gammaos_first_ever_task s } }"

definition kernel_start :: "'a kernelst_scheme \<Rightarrow> (user_entry \<times> 'a kernelst_scheme) option" where
  "kernel_start s =
     do { s \<leftarrow> start_tables s; s \<leftarrow> start_memory s; s \<leftarrow> start_files s; start_shell s }"

end
