(* ===== verification/Kernel_Start.thy ===== *)
theory Kernel_Start
  imports Kernel
begin

text \<open>
  What \<open>kernel_start\<close> has built when it turns to the disk: the descriptor tables, the task state
  segment, the system calls, the heap and the address space of the kernel.
\<close>

section \<open>Messages\<close>

text \<open>\<open>screen s m x y\<close>: the state \<open>s\<close> with the memory \<open>m\<close> and the cursor at \<open>x\<close>, \<open>y\<close>. A message moves
  the cursor and writes into the window of the console; the other steps of the start leave the cursor.\<close>

definition screen :: "'a vga_scheme \<Rightarrow> memory \<Rightarrow> u8 \<Rightarrow> u8 \<Rightarrow> 'a vga_scheme" where
  "screen s m x y = s\<lparr>mem := m, cursor_x := x, cursor_y := y\<rparr>"

lemma screen_sel [simp]: "mem (screen s m x y) = m" "cursor_x (screen s m x y) = x"
  "VGA_BASE (screen s m x y) = VGA_BASE s" "kheap (screen s m x y) = kheap s"
  "(screen s m x y)\<lparr>mem := m'\<rparr> = screen s m' x y" "(screen s m x y)\<lparr>cursor_x := x'\<rparr> = screen s m x' y"
  "(screen s m x y)\<lparr>cursor_y := y'\<rparr> = screen s m x y'"
  by (simp_all add: screen_def)

definition same_outside :: "u32 \<Rightarrow> memory \<Rightarrow> memory \<Rightarrow> bool" where
  "same_outside w m m' \<longleftrightarrow> (\<forall>a. within w 40960 a \<or> m' a = m a)"

lemma same_outsideD: "same_outside w m m' \<Longrightarrow> \<not> within w 40960 a \<Longrightarrow> m' a = m a"
  by (auto simp: same_outside_def)

lemma message:
  assumes "x < 80"
  obtains m' x' y' where "kputs_literal msg (screen s m x y) = screen s m' x' y'" and "x' < 80"
    and "same_outside (VGA_BASE s) m m'"
proof -
  let ?t = "kputs_literal msg (screen s m x y)"
  have "cursor_x (screen s m x y) < 80" using assms by simp
  from con_frame_puts [OF this, of "map of_char msg"] have "con_frame (screen s m x y) ?t"
    by (simp add: kputs_literal_def fold_map comp_def)
  then have t: "cursor_x ?t < 80" "?t = (screen s m x y)\<lparr>mem := mem ?t, cursor_x := cursor_x ?t, cursor_y := cursor_y ?t\<rparr>"
    "\<And>a. \<not> within (VGA_BASE s) 40960 a \<Longrightarrow> mem ?t a = m a"
    unfolding con_frame_def screen_sel by blast+
  have "?t = screen s (mem ?t) (cursor_x ?t) (cursor_y ?t)"
    by (subst t(2)) (simp only: screen_sel)
  moreover have "same_outside (VGA_BASE s) m (mem ?t)" using t(3) by (auto simp: same_outside_def)
  ultimately show thesis using that t(1) by blast
qed

section \<open>The tables of the processor\<close>

text \<open>\<open>boot_tables\<close>: what the first part of the start writes besides memory and the cursor.\<close>

definition boot_tables :: "'a kernelst_scheme \<Rightarrow> 'a kernelst_scheme" where
  "boot_tables s = s\<lparr>irq_enabled := False, VGA_BASE := 0xB8000, gdtr := (gdt_addr s, 48), task_register := 0x28,
     isr_handlers := replicate 32 (Some No_int_handler) @ replicate 480 None,
     idt_descriptors := (map gate (interrupt_stubs s))[0x80 := gate (isr_0x80_stub s)],
     idtr_limit := 4095, idtr_base := idt_addr s, x80_functions := syscall_table\<rparr>"

text \<open>The tables lie outside the window of the console, the heap, and each other.\<close>

definition tables_placed :: "u32 \<Rightarrow> u32 \<Rightarrow> bool" where
  "tables_placed gdt tss \<longleftrightarrow> apart gdt 48 0xB8000 40960 \<and> apart tss 100 0xB8000 40960 \<and> apart gdt 48 tss 100
     \<and> apart gdt 48 0x1000000 0x6400000 \<and> apart tss 100 0x1000000 0x6400000"

definition kernel_tss :: tss where
  "kernel_tss = (tss_at (\<lambda>_. 0) 0)\<lparr>tss_esp0 := 0x600000, tss_ss0 := 0x10\<rparr>"

lemma load32_zero: "(\<And>x. within a 4 x \<Longrightarrow> m x = 0) \<Longrightarrow> load32 m a = 0"
  by (simp add: load32_def within_def)

lemma screen_kernelst:
  "(screen s m x y)\<lparr>irq_enabled := b\<rparr> = screen (s\<lparr>irq_enabled := b\<rparr>) m x y"
  "(screen s m x y)\<lparr>gdtr := g\<rparr> = screen (s\<lparr>gdtr := g\<rparr>) m x y"
  "(screen s m x y)\<lparr>task_register := t\<rparr> = screen (s\<lparr>task_register := t\<rparr>) m x y"
  "gdt_addr (screen s m x y) = gdt_addr s" "tss_addr (screen s m x y) = tss_addr s"
  "idt_addr (screen s m x y) = idt_addr s" "interrupt_stubs (screen s m x y) = interrupt_stubs s"
  "isr_0x80_stub (screen s m x y) = isr_0x80_stub s"
  by (simp_all add: screen_def)

lemma screen_kernst:
  "(screen s m x y)\<lparr>isr_handlers := h, idt_descriptors := d, idtr_limit := l, idtr_base := b\<rparr>
    = screen (s\<lparr>isr_handlers := h, idt_descriptors := d, idtr_limit := l, idtr_base := b\<rparr>) m x y"
  "(screen s m x y)\<lparr>x80_functions := f\<rparr> = screen (s\<lparr>x80_functions := f\<rparr>) m x y"
  by (simp_all add: screen_def)

lemma tss_at_cong:
  assumes "\<And>x. within t 100 x \<Longrightarrow> m' x = m x"
  shows "tss_at m' t = tss_at m t"
proof -
  have l: "load32 m' (t + of_nat c) = load32 m (t + of_nat c)" if "c \<le> 96" for c
    using that assms within_offset [of t c 4 _ 100] by (intro load32_cong) simp
  have n: "load32 m' (t + numeral k) = load32 m (t + numeral k)" if "(numeral k :: nat) \<le> 96" for k
    using l [OF that] by simp
  show ?thesis using l [of 0] by (simp add: tss_at_def n)
qed

lemma describes_in_table:
  assumes "\<And>x. within g 48 x \<Longrightarrow> m' x = m x" and "i < 6" and "describes m (g + 8 * of_nat i) d"
  shows "describes m' (g + 8 * of_nat i) d"
  using within_offset [of g "8 * i" 8 _ 48] assms(1,2) by (intro describes_cong [OF assms(3)]) simp

text \<open>\<open>loaded_gdt_s\<close>: the descriptors once the task register is loaded; the last one is then busy.\<close>

definition loaded_gdt_s :: "u32 \<Rightarrow> gdt_structured list" where
  "loaded_gdt_s tss = (kernel_gdt_s tss)[5 := \<lparr>base = tss, limit = 100, attrubutes = 0xEB\<rparr>]"

lemma tss_load_busy:
  assumes "VGA_BASE s = v" and "gdtr s = (g, 48)" and "describes m (g + 40) \<lparr>base = tss, limit = l, attrubutes = 0xE9\<rparr>"
  shows "tss_load 0x28 (screen s m x y) = Some (screen (s\<lparr>task_register := 0x28\<rparr>) (m(g + 45 := 0xEB)) x y)"
proof -
  have "m (g + 45) = 0xE9" using assms(3) by (simp add: describes_def seg_access_def add.assoc)
  then show ?thesis using assms(2) by (simp add: tss_load_def Let_def screen_def add.assoc)
qed

lemma describes_busy:
  assumes "\<forall>i<6. describes m (g + 8 * of_nat i) (kernel_gdt_s tss ! i)" and "i < 6"
  shows "describes (m(g + 45 := 0xEB)) (g + 8 * of_nat i) (loaded_gdt_s tss ! i)"
proof (cases "i = 5")
  case True
  have "describes m (g + 40) (kernel_gdt_s tss ! 5)" using assms(1) [rule_format, of 5] by simp
  moreover have "seg_base (m(g + 45 := 0xEB)) (g + 40) = seg_base m (g + 40)"
    "seg_last (m(g + 45 := 0xEB)) (g + 40) = seg_last m (g + 40)"
    by (simp_all add: seg_base_def seg_last_def seg_limit_def seg_granular_def add.assoc)
  ultimately show ?thesis
    by (simp add: True describes_def loaded_gdt_s_def kernel_gdt_s_def seg_access_def add.assoc)
next
  case False
  have "describes (m(g + 45 := 0xEB)) (g + 8 * of_nat i) (kernel_gdt_s tss ! i)"
  proof (rule describes_cong)
    show "describes m (g + 8 * of_nat i) (kernel_gdt_s tss ! i)" using assms by simp
    fix x assume x: "within (g + 8 * of_nat i) 8 x"
    have "within (g + 8 * of_nat i) 8 x \<longleftrightarrow> unat (x - g) div 8 = i" using assms(2) by (intro within_slot) simp
    then have "x \<noteq> g + 45" using x False by auto
    then show "(m(g + 45 := 0xEB)) x = m x" by simp
  qed
  then show ?thesis using False by (simp add: loaded_gdt_s_def)
qed

lemma start_tables_state:
  assumes "length (interrupt_stubs s) = 512" and "tables_placed (gdt_addr s) (tss_addr s)"
  obtains x y m where
    "start_tables s = Some ((boot_tables s)\<lparr>mem := m, cursor_x := x, cursor_y := y\<rparr>)" and "x < 80"
    and "\<forall>i<6. describes m (gdt_addr s + 8 * of_nat i) (loaded_gdt_s (tss_addr s) ! i)"
    and "tss_at m (tss_addr s) = kernel_tss"
proof -
  let ?g = "gdt_addr s" and ?t = "tss_addr s"
  define a where "a = s\<lparr>irq_enabled := False, VGA_BASE := 0xB8000\<rparr>"
  have a: "VGA_BASE a = 0xB8000" "gdt_addr a = ?g" "tss_addr a = ?t" "idt_addr a = idt_addr s"
    "interrupt_stubs a = interrupt_stubs s" "isr_0x80_stub a = isr_0x80_stub s"
    by (simp_all add: a_def)
  obtain m0 where "kclear_display s = s\<lparr>cursor_x := 0, cursor_y := 0, mem := m0\<rparr>"
    using kclear_display_eq by blast
  then have m0: "vga_init ((kclear_display s)\<lparr>irq_enabled := False\<rparr>) = screen a m0 0 0"
    by (simp add: vga_init_def screen_def a_def)
  obtain m1 where m1: "get_gdt_from_structured (memset m0 ?g 0 8) ?g (kernel_gdt_s ?t) (of_nat GDT_ENTRIES) = Some m1"
    "\<forall>i<6. describes m1 (?g + 8 * of_nat i) (kernel_gdt_s ?t ! i)"
  proof -
    have "length (kernel_gdt_s ?t) = unat (of_nat GDT_ENTRIES :: u16)" by (simp add: kernel_gdt_s_def)
    from get_gdt_loop_describes [OF kernel_gdt_limits this, of 0 "memset m0 ?g 0 8" ?g] show thesis
      using that by (auto simp: get_gdt_from_structured_def)
  qed
  obtain m2 x2 y2 where 2: "kputs_literal ''[KERNEL]: setting up gdt.\<newline>'' (screen a m1 0 0) = screen a m2 x2 y2"
    "x2 < 80" "same_outside 0xB8000 m1 m2"
    by (rule message [of 0 _ a m1 0, unfolded a], simp) (rule that)
  define b where "b = a\<lparr>gdtr := (?g, 48)\<rparr>"
  have b: "VGA_BASE b = 0xB8000" "tss_addr b = ?t" "idt_addr b = idt_addr s"
    "interrupt_stubs b = interrupt_stubs s" "isr_0x80_stub b = isr_0x80_stub s" by (simp_all add: b_def a)
  obtain m3 x3 y3 where 3: "kputs_literal ''[KERNEL]: loaded up gdt.\<newline>'' (screen b m2 x2 y2) = screen b m3 x3 y3"
    "x3 < 80" "same_outside 0xB8000 m2 m3"
    by (rule message [OF 2(2), of _ b m2 y2, unfolded b]) (rule that)
  define m4 where "m4 = store32 (store32 (memset m3 ?t 0 100) (?t + 4) 0x600000) (?t + 8) (ucast KERNEL_DATA_SELECTOR)"
  obtain m5 x5 y5 where 5: "kputs_literal ''[KERNEL]: setting up tss.\<newline>'' (screen b m4 x3 y3) = screen b m5 x5 y5"
    "x5 < 80" "same_outside 0xB8000 m4 m5"
    by (rule message [OF 3(2), of _ b m4 y3, unfolded b]) (rule that)
  have off5: "m5 p = m4 p" "m3 p = m1 p" if "\<not> within 0xB8000 40960 p" for p
    using that same_outsideD [OF 2(3)] same_outsideD [OF 3(3)] same_outsideD [OF 5(3)] by simp_all
  have gdt5: "m5 p = m1 p" if "within ?g 48 p" for p
  proof -
    have p: "\<not> within 0xB8000 40960 p" "\<not> within ?t 100 p"
      using assms(2) that by (auto simp: tables_placed_def dest: apartD)
    then have "\<not> within (?t + of_nat 4) (of_nat 4) p" "\<not> within (?t + of_nat 8) (of_nat 4) p"
      using within_offset [of ?t 4 4 p 100] within_offset [of ?t 8 4 p 100] by auto
    then show ?thesis using off5 p by (simp add: m4_def store32_other memset_eq)
  qed
  have d5: "\<forall>i<6. describes m5 (?g + 8 * of_nat i) (kernel_gdt_s ?t ! i)"
    using describes_in_table [of ?g m5 m1, OF gdt5] m1(2) by simp
  define m5' where "m5' = m5(?g + 45 := 0xEB)"
  define c where "c = b\<lparr>task_register := 0x28\<rparr>"
  have ltr: "tss_load 0x28 (screen b m5 x5 y5) = Some (screen c m5' x5 y5)"
    using d5 [rule_format, of 5] unfolding c_def m5'_def
    by (intro tss_load_busy [OF b(1), of ?g m5 ?t 100]) (simp_all add: b_def kernel_gdt_s_def)
  have c: "VGA_BASE c = 0xB8000" "tss_addr c = ?t" "idt_addr c = idt_addr s"
    "interrupt_stubs c = interrupt_stubs s" "isr_0x80_stub c = isr_0x80_stub s" by (simp_all add: c_def b)
  obtain m6 x6 y6 where 6: "kputs_literal ''[KERNEL]: loaded up tss.\<newline>'' (screen c m5' x5 y5) = screen c m6 x6 y6"
    "x6 < 80" "same_outside 0xB8000 m5' m6"
    by (rule message [OF 5(2), of _ c m5' y5, unfolded c]) (rule that)
  define d where "d = c\<lparr>isr_handlers := replicate 32 (Some No_int_handler) @ replicate 480 None,
     idt_descriptors := (map gate (interrupt_stubs s))[0x80 := gate (isr_0x80_stub s)],
     idtr_limit := 4095, idtr_base := idt_addr s\<rparr>"
  have d: "VGA_BASE d = 0xB8000" by (simp add: d_def c)
  obtain m7 x7 y7 where 7: "kputs_literal ''[KERNEL]: initialised idt. \<newline>'' (screen d m6 x6 y6) = screen d m7 x7 y7"
    "x7 < 80" "same_outside 0xB8000 m6 m7"
    by (rule message [OF 6(2), of _ d m6 y6, unfolded d]) (rule that)
  define e where "e = d\<lparr>x80_functions := syscall_table\<rparr>"
  have e: "VGA_BASE e = 0xB8000" by (simp add: e_def d)
  obtain m8 x8 y8 where 8: "kputs_literal ''[KERNEL]: initialised gammaOS system call handlers. \<newline>'' (screen e m7 x7 y7)
      = screen e m8 x8 y8" "x8 < 80" "same_outside 0xB8000 m7 m8"
    by (rule message [OF 7(2), of _ e m7 y7, unfolded e]) (rule that)
  have idt: "idt_init (screen c m6 x6 y6) (interrupt_stubs s) (isr_0x80_stub s) (idt_addr s) = screen d m6 x6 y6"
    by (simp add: idt_init_eq [OF assms(1)] screen_kernst d_def)
  have x80: "x80_init (screen d m7 x7 y7) = Some (screen e m7 x7 y7)"
    by (simp add: x80_init_eq screen_kernst e_def)
  have "start_tables s = Some (screen e m8 x8 y8)"
    unfolding start_tables_def Let_def m0 screen_sel screen_kernelst set32_def a b c m1(1) Option.bind.bind_lunit
      2(1) b_def [symmetric] 3(1) m4_def [symmetric] 5(1) ltr 6(1) idt 7(1) x80 8(1) ..
  then have st: "start_tables s = Some ((boot_tables s)\<lparr>mem := m8, cursor_x := x8, cursor_y := y8\<rparr>)"
    by (simp add: boot_tables_def e_def d_def c_def b_def a_def screen_def)
  have off: "m8 p = m5' p" if "\<not> within 0xB8000 40960 p" for p
    using that same_outsideD [OF 6(3)] same_outsideD [OF 7(3)] same_outsideD [OF 8(3)] by simp
  have "\<forall>i<6. describes m5' (?g + 8 * of_nat i) (loaded_gdt_s ?t ! i)"
    unfolding m5'_def using describes_busy [OF d5] by blast
  moreover have "m8 p = m5' p" if "within ?g 48 p" for p
    using that assms(2) by (intro off) (auto simp: tables_placed_def dest: apartD)
  ultimately have d8: "\<forall>i<6. describes m8 (?g + 8 * of_nat i) (loaded_gdt_s ?t ! i)"
    using describes_in_table [of ?g m8 m5'] by simp
  have tss8: "m8 p = m4 p" if "within ?t 100 p" for p
  proof -
    have p: "\<not> within 0xB8000 40960 p" "\<not> within ?g 48 p"
      using assms(2) that by (auto simp: tables_placed_def dest: apartD apartD')
    then have "p \<noteq> ?g + 45" by (auto simp: within_def)
    then show ?thesis using off off5 p by (simp add: m5'_def)
  qed
  have inside: "within ?t 100 p" if "within (?t + of_nat c) 4 p" "c \<le> 96" for c p
    using that within_offset [of ?t c 4 p 100] by simp
  have "load32 (memset m3 ?t 0 100) (?t + of_nat c) = 0" if "c \<le> 96" for c
    using that inside [of c] by (intro load32_zero) (simp add: memset_eq)
  then have n: "load32 (memset m3 ?t 0 100) (?t + numeral k) = 0" if "(numeral k :: nat) \<le> 96" for k
    using that by (metis of_nat_numeral)
  have "load32 (memset m3 ?t 0 100) ?t = 0"
    using inside [of 0] by (intro load32_zero) (simp add: memset_eq)
  then have "tss_at m4 ?t = kernel_tss"
    by (simp add: tss_at_def kernel_tss_def n m4_def apart4_def load32_zero)
  moreover have "tss_at m8 ?t = tss_at m4 ?t"
    by (intro tss_at_cong tss8)
  ultimately have "tss_at m8 ?t = kernel_tss" by simp
  then show thesis using that st 8(2) d8 by blast
qed

section \<open>Memory\<close>

lemma screen_commutes:
  "(screen s m x y)\<lparr>kheap := h\<rparr> = screen (s\<lparr>kheap := h\<rparr>) m x y"
  "process_init (screen t m x y) = screen (process_init t) m x y"
  "keyboard_init (screen u m x y) = screen (keyboard_init u) m x y"
  "(screen v m x y)\<lparr>kernel_space := a\<rparr> = screen (v\<lparr>kernel_space := a\<rparr>) m x y"
  "kernel_space (screen v m x y) = kernel_space v"
  by (simp_all add: screen_def process_init_def keyboard_init_def keyboard_add_def ps2_init_def
      ps2_keyboard_init_def idt_add_isr_handler_def outb_def Let_def split: option.splits keyboard.splits)

lemma keyboard_init_sel:
  "kheap (keyboard_init s) = kheap s" "VGA_BASE (keyboard_init s) = VGA_BASE s"
  "isr_handlers (keyboard_init s) = (isr_handlers s)[0x21 := Some Ps2_interrupt_handler]"
  "process_list (keyboard_init s) = process_list s" "kbst.more (keyboard_init s) = kbst.more s"
  by (simp_all add: keyboard_init_def keyboard_add_def ps2_init_def
      ps2_keyboard_init_def idt_add_isr_handler_def outb_def Let_def split: option.splits keyboard.splits)

lemma empty_heap_room:
  assumes "num_entries h = 25600" and "\<forall>j<25600. \<not> busy h j"
  shows "free_blocks_left h = 25600"
proof -
  have "{i. i < unat (num_entries h) \<and> \<not> busy h i} = {..<25600}" using assms by auto
  then show ?thesis by (simp add: free_blocks_left_def)
qed

text \<open>\<open>boot_memory\<close>: what the second part writes besides memory and the cursor, with the heap \<open>h\<close> and the
  kernel's address space \<open>v\<close>, whose directory structure is at \<open>pd\<close> and its entries at \<open>dir\<close>.\<close>

definition boot_memory :: "'a kernelst_scheme \<Rightarrow> heap \<Rightarrow> u32 \<Rightarrow> u32 \<Rightarrow> u32 \<Rightarrow> 'a kernelst_scheme" where
  "boot_memory s h v pd dir = (keyboard_init (process_init s))
     \<lparr>kheap := h, kernel_space := v, cr3 := dir, current_page_directory := pd\<rparr>"

lemma start_memory_state:
  assumes "x < 80" and "VGA_BASE s = 0xB8000"
  obtains h v m' x' y' where
    "start_memory (screen s m x y) = Some (screen (boot_memory s h v (vspace_pd m' v)
       (page_directory_entries m' (vspace_pd m' v))) m' x' y')"
    and "heap_inv h" and "heap_base h = 0x1000000" and "num_entries h = 25600" and "free_blocks_left h = 24573"
    and "vspace_ok m' v" and "\<forall>q. space_page m' v q \<longrightarrow> q \<in> used h"
    and "\<forall>va. mmu m' (page_directory_entries m' (vspace_pd m' v)) va = Some va"
    and "\<forall>a. within 0xB8000 40960 a \<or> a \<in> used h \<or> m' a = m a"
proof -
  obtain h0 where h0: "kheap_init (screen s m x y) = Some (screen (s\<lparr>kheap := h0\<rparr>) m x y)" "heap_inv h0"
    "num_entries h0 = 25600" "heap_base h0 = 0x1000000" "\<forall>j<25600. \<not> busy h0 j"
    using kheap_init_ready [of "screen s m x y"] screen_commutes(1) by metis
  define a where "a = s\<lparr>kheap := h0\<rparr>"
  obtain m1 x1 y1 where 1: "kputs_literal ''[KERNEL]: initialised kernel heap. \<newline>'' (screen a m x y) = screen a m1 x1 y1"
    "x1 < 80" "same_outside (VGA_BASE a) m m1"
    by (rule message [OF assms(1), of _ a m y]) (rule that)
  define b where "b = process_init a"
  obtain m2 x2 y2 where 2: "kputs_literal ''[KERNEL]: initialised process structures\<newline>'' (screen b m1 x1 y1) = screen b m2 x2 y2"
    "x2 < 80" "same_outside (VGA_BASE b) m1 m2"
    by (rule message [OF 1(2), of _ b m1 y1]) (rule that)
  define c where "c = keyboard_init b"
  obtain m3 x3 y3 where 3: "kputs_literal ''[KERNEL]: initialised keyboard drivers. \<newline>'' (screen c m2 x2 y2) = screen c m3 x3 y3"
    "x3 < 80" "same_outside (VGA_BASE c) m2 m3"
    by (rule message [OF 2(2), of _ c m2 y2]) (rule that)
  let ?t = "screen c m3 x3 y3"
  have kh: "kheap ?t = h0" by (simp add: c_def b_def a_def keyboard_init_sel process_init_def)
  have "kinv ?t" "1027 \<le> kavail ?t" "bit (7 :: u8) 0"
    unfolding kh using h0(2) empty_heap_room [OF h0(3,5)] by simp_all
  from create_space_facts [OF this] obtain v t' where
    v: "create_virtual_address_space ?t 7 = Some (v, t')" "v \<noteq> 0" "kinv t'" "vspace_ok (mem t') v"
    "kavail ?t = kavail t' + 1027"
    "\<And>va. mmu (mem t') (cr3 (load_page_directory t' (vspace_pd (mem t') v))) va = Some va"
    "t' = ?t\<lparr>mem := mem t', kheap := kheap t'\<rparr>"
    "\<And>q. space_page (mem t') v q \<Longrightarrow> q \<in> kused t'"
    "\<And>x. x \<notin> kused t' \<Longrightarrow> mem t' x = mem ?t x" by blast
  let ?h = "kheap t'" and ?m = "mem t'"
  define d where "d = c\<lparr>kheap := ?h, kernel_space := v\<rparr>"
  have vga: "VGA_BASE a = 0xB8000" "VGA_BASE b = 0xB8000" "VGA_BASE c = 0xB8000" "VGA_BASE d = 0xB8000"
    by (simp_all add: d_def c_def b_def a_def keyboard_init_sel process_init_def assms(2))
  have geo: "heap_base ?h = 0x1000000" "num_entries ?h = 25600"
    using rest_eqD(11,12) [OF create_vspace_rest [OF v(1)]] h0(3,4) kh by simp_all
  have t': "t'\<lparr>kernel_space := v\<rparr> = screen d ?m x3 y3"
    by (subst v(7)) (simp add: d_def screen_commutes)
  obtain m4 x4 y4 where 4: "kputs_literal ''[KERNEL]: initialised kernel address space. \<newline>'' (screen d ?m x3 y3) = screen d m4 x4 y4"
    "x4 < 80" "same_outside 0xB8000 ?m m4"
    by (rule message [OF 3(2), of _ d ?m y3, unfolded vga]) (rule that)
  define e where "e = d\<lparr>cr3 := page_directory_entries m4 (vspace_pd m4 v), current_page_directory := vspace_pd m4 v\<rparr>"
  have e: "VGA_BASE e = 0xB8000" by (simp add: e_def vga)
  have load: "load_page_directory (screen d m4 x4 y4) (vspace_pd m4 v) = screen e m4 x4 y4"
    by (simp add: load_page_directory_def load_pd_to_cr3_def e_def screen_def)
  obtain m5 x5 y5 where 5: "kputs_literal ''[KERNEL]: loaded kernel page directory. \<newline>'' (screen e m4 x4 y4) = screen e m5 x5 y5"
    "x5 < 80" "same_outside 0xB8000 m4 m5"
    by (rule message [OF 4(2), of _ e m4 y4, unfolded e]) (rule that)
  have out: "\<not> within 0xB8000 40960 p" if "space_page ?m v (p AND 0xfffff000)" for p
    using heap_page_outside_window [OF v(3) geo(1)] v(8) [OF that] kused_page [OF v(3) refl, of p] by blast
  have ag4: "\<forall>p. space_page ?m v (p AND 0xfffff000) \<longrightarrow> m4 p = ?m p"
    using out same_outsideD [OF 4(3)] by blast
  have ag5: "\<forall>p. space_page ?m v (p AND 0xfffff000) \<longrightarrow> m5 p = ?m p"
    using out same_outsideD [OF 4(3)] same_outsideD [OF 5(3)] by metis
  note a4 = vspace_agree(1,2) [OF v(4) ag4] and a5 = vspace_agree(1,2,4,6) [OF v(4) ag5]
  have f: "e = boot_memory s ?h v (vspace_pd m5 v) (page_directory_entries m5 (vspace_pd m5 v))"
    by (simp add: e_def d_def c_def b_def a_def boot_memory_def a4 a5 process_init_def keyboard_init_def
        keyboard_add_def ps2_init_def ps2_keyboard_init_def idt_add_isr_handler_def outb_def Let_def
        split: option.splits keyboard.splits)
  have st: "start_memory (screen s m x y) = Some (screen e m5 x5 y5)"
    unfolding start_memory_def Let_def h0(1) Option.bind.bind_lunit a_def [symmetric] 1(1) screen_commutes
      b_def [symmetric] 2(1) c_def [symmetric] 3(1) v(1)
    using v(2) 4(1) 5(1) load t' by (simp add: screen_commutes d_def)
  show thesis
  proof (rule that [OF st [unfolded f] v(3) geo])
    show "free_blocks_left ?h = 24573" using v(5) kh empty_heap_room [OF h0(3,5)] by simp
    show "vspace_ok m5 v" by (fact a5(3))
    show "\<forall>q. space_page m5 v q \<longrightarrow> q \<in> used ?h" using v(8) by (simp add: a5(4))
    show "\<forall>va. mmu m5 (page_directory_entries m5 (vspace_pd m5 v)) va = Some va"
      using mmu_agree(1) [OF v(4) ag5] v(6) a5(1,2) by (simp add: load_page_directory_def load_pd_to_cr3_def)
    show "\<forall>p. within 0xB8000 40960 p \<or> p \<in> used ?h \<or> m5 p = m p"
    proof (intro allI, cases)
      fix p assume "within 0xB8000 40960 p"
      then show "within 0xB8000 40960 p \<or> p \<in> used ?h \<or> m5 p = m p" ..
    next
      fix p assume p: "\<not> within 0xB8000 40960 p"
      have "m5 p = ?m p" "m3 p = m p"
        using p same_outsideD [OF 4(3)] same_outsideD [OF 5(3)] same_outsideD [OF 1(3) [unfolded vga]]
          same_outsideD [OF 2(3) [unfolded vga]] same_outsideD [OF 3(3) [unfolded vga]] by simp_all
      then show "within 0xB8000 40960 p \<or> p \<in> used ?h \<or> m5 p = m p"
        using v(9) [of p] by auto
    qed
  qed
qed

section \<open>Properties\<close>

definition demo_boot :: kernelst where
  "demo_boot = kernst.extend demo_kernel
     \<lparr>gdt_addr = 0x120000, tss_addr = 0x121000, idt_addr = 0x122000, interrupt_stubs = replicate 512 0x101234,
      isr_0x80_stub = 0x105678, gshell_path = 0x123000, gdtr = (0, 0), task_register = 0, irq_enabled = True,
      paging_enabled = False\<rparr>"

text \<open>C3: the start reaches the file system with its tables in place. With the 512 interrupt stubs and
  the tables outside the text buffer and the heap, the first two parts of \<open>kernel_start\<close> return: the
  global descriptor table describes the segments of the kernel, the task state segment holds the kernel
  stack, its selector is loaded and its descriptor marked busy, every vector has its gate, the keyboard its handler and the system calls their
  numbers; the heap has 24573 free blocks and the kernel runs in a well-formed address space, made of
  blocks in use, that translates every address to itself.\<close>

theorem kernel_start_ready:
  assumes "length (interrupt_stubs s) = 512" and "tables_placed (gdt_addr s) (tss_addr s)"
  shows "\<exists>s1 s'. start_tables s = Some s1 \<and> start_memory s1 = Some s'
    \<and> (\<forall>i<6. describes (mem s') (gdt_addr s + 8 * of_nat i) (loaded_gdt_s (tss_addr s) ! i))
    \<and> gdtr s' = (gdt_addr s, 48) \<and> tss_at (mem s') (tss_addr s) = kernel_tss \<and> task_register s' = 0x28
    \<and> idt_descriptors s' = (map gate (interrupt_stubs s))[0x80 := gate (isr_0x80_stub s)]
    \<and> isr_handlers s' = (replicate 32 (Some No_int_handler) @ replicate 480 None)[0x21 := Some Ps2_interrupt_handler]
    \<and> x80_functions s' = syscall_table \<and> process_list s' = replicate 16 0
    \<and> heap_inv (kheap s') \<and> kavail s' = 24573 \<and> vspace_ok (mem s') (kernel_space s')
    \<and> (\<forall>va. mmu (mem s') (cr3 s') va = Some va)
    \<and> (\<forall>q. space_page (mem s') (kernel_space s') q \<longrightarrow> q \<in> kused s')"
proof -
  let ?g = "gdt_addr s" and ?t = "tss_addr s"
  obtain x y m where 1: "start_tables s = Some ((boot_tables s)\<lparr>mem := m, cursor_x := x, cursor_y := y\<rparr>)" "x < 80"
    "\<forall>i<6. describes m (?g + 8 * of_nat i) (loaded_gdt_s ?t ! i)" "tss_at m ?t = kernel_tss"
    by (rule start_tables_state [OF assms]) (rule that)
  have b: "VGA_BASE (boot_tables s) = 0xB8000" by (simp add: boot_tables_def)
  obtain h v m' x' y' where 2: "start_memory (screen (boot_tables s) m x y)
      = Some (screen (boot_memory (boot_tables s) h v (vspace_pd m' v) (page_directory_entries m' (vspace_pd m' v))) m' x' y')"
    "heap_inv h" "heap_base h = 0x1000000" "num_entries h = 25600" "free_blocks_left h = 24573"
    "vspace_ok m' v" "\<forall>q. space_page m' v q \<longrightarrow> q \<in> used h"
    "\<forall>va. mmu m' (page_directory_entries m' (vspace_pd m' v)) va = Some va"
    "\<forall>a. within 0xB8000 40960 a \<or> a \<in> used h \<or> m' a = m a"
    by (rule start_memory_state [OF 1(2) b]) (rule that)
  let ?s = "screen (boot_memory (boot_tables s) h v (vspace_pd m' v) (page_directory_entries m' (vspace_pd m' v))) m' x' y'"
  have same: "m' p = m p" if "\<not> within 0xB8000 40960 p" "\<not> within 0x1000000 0x6400000 p" for p
  proof -
    have "p \<notin> used h"
    proof
      assume "p \<in> used h"
      from used_in_heap [OF 2(2) this] have "0x1000000 \<le> unat p" "unat p < 0x7400000" by (simp_all add: 2(3,4))
      then have "unat (p - 0x1000000) < 0x6400000" by (subst unat_sub) (simp_all add: word_le_nat_alt)
      then show False using that(2) by (simp add: within_def word_less_nat_alt)
    qed
    then show ?thesis using 2(9) that(1) by blast
  qed
  have gdt: "m' p = m p" if "within ?g 48 p" for p
    using that assms(2) by (intro same) (auto simp: tables_placed_def dest: apartD)
  have tss: "m' p = m p" if "within ?t 100 p" for p
    using that assms(2) by (intro same) (auto simp: tables_placed_def dest: apartD)
  have d: "\<forall>i<6. describes m' (?g + 8 * of_nat i) (loaded_gdt_s ?t ! i)"
    using describes_in_table [of ?g m' m, OF gdt] 1(3) by simp
  have t: "tss_at m' ?t = kernel_tss" using tss_at_cong [of ?t m' m, OF tss] 1(4) by simp
  have f: "mem ?s = m'" "kheap ?s = h" "gdtr ?s = (?g, 48)" "task_register ?s = 0x28"
    "idt_descriptors ?s = (map gate (interrupt_stubs s))[0x80 := gate (isr_0x80_stub s)]"
    "isr_handlers ?s = (replicate 32 (Some No_int_handler) @ replicate 480 None)[0x21 := Some Ps2_interrupt_handler]"
    "x80_functions ?s = syscall_table" "process_list ?s = replicate 16 0" "kernel_space ?s = v"
    "cr3 ?s = page_directory_entries m' (vspace_pd m' v)"
    by (simp_all add: screen_def boot_memory_def boot_tables_def process_init_def keyboard_init_def keyboard_add_def
        ps2_init_def ps2_keyboard_init_def idt_add_isr_handler_def outb_def Let_def split: option.splits keyboard.splits)
  have m: "start_memory ((boot_tables s)\<lparr>mem := m, cursor_x := x, cursor_y := y\<rparr>) = Some ?s"
    using 2(1) by (simp only: screen_def)
  show ?thesis
    using 1(1) m d t 2(2,5-8)
    by (intro exI [of _ "(boot_tables s)\<lparr>mem := m, cursor_x := x, cursor_y := y\<rparr>"] exI [of _ ?s] conjI)
      (unfold f, (assumption | rule refl)+)
qed

theorem kernel_start_ready_witness:
  "\<exists>s1 s'. start_tables demo_boot = Some s1 \<and> start_memory s1 = Some s' \<and> gdtr s' = (0x120000, 48)
    \<and> seg_access (mem s') 0x120028 = 0xEB \<and> kavail s' = 24573 \<and> mmu (mem s') (cr3 s') 0xB8000 = Some 0xB8000"
proof -
  have "length (interrupt_stubs demo_boot) = 512" by (simp add: demo_boot_def kernst.extend_def)
  moreover have "tables_placed (gdt_addr demo_boot) (tss_addr demo_boot)"
    by (simp add: tables_placed_def demo_boot_def kernst.extend_def apart_below apart_sym [of "0x120000" _ "0xB8000"]
        apart_sym [of "0x121000" _ "0xB8000"])
  ultimately obtain s1 s' where s': "start_tables demo_boot = Some s1" "start_memory s1 = Some s'"
    "\<forall>i<6. describes (mem s') (gdt_addr demo_boot + 8 * of_nat i) (loaded_gdt_s (tss_addr demo_boot) ! i)"
    "gdtr s' = (gdt_addr demo_boot, 48)" "kavail s' = 24573" "\<forall>va. mmu (mem s') (cr3 s') va = Some va"
    using kernel_start_ready [of demo_boot] by blast
  have g: "gdt_addr demo_boot = 0x120000" by (simp add: demo_boot_def kernst.extend_def)
  have "seg_access (mem s') 0x120028 = 0xEB"
    using s'(3) [rule_format, of 5] by (simp add: g describes_def loaded_gdt_s_def kernel_gdt_s_def)
  then show ?thesis using s'(1,2,4,5,6) by (auto simp: g)
qed

end
