(* ===== verification/Task_New.thy ===== *)
theory Task_New
  imports Task
begin

text \<open>
  \<open>new_task\<close>: what a new task is when it enters the list.
\<close>

lemma task_list_add_mem:
  assumes "\<not> within (task_list_tail s + 56) 4 x" and "\<not> within (t + 60) 4 x"
  shows "mem (task_list_add s t) x = mem s x"
  using assms by (simp add: task_list_add_def Let_def set32_def store32_other)

lemma task_list_cong:
  assumes "task_list s ts" and "task_list_head s' = task_list_head s" and "task_list_tail s' = task_list_tail s"
    and "\<forall>t\<in>set ts. \<forall>x. within t 64 x \<longrightarrow> mem s' x = mem s x"
  shows "task_list s' ts"
proof -
  have l: "load32 (mem s') (t + c) = load32 (mem s) (t + c)" if "t \<in> set ts" "c \<le> 60" for t c
    using assms(4) that field_within [of _ t c 60] by (intro load32_cong) (auto simp: within_def)
  have "task_prev (mem s') (ts ! i) = task_prev (mem s) (ts ! i)"
    "task_next (mem s') (ts ! i) = task_next (mem s) (ts ! i)" if "i < length ts" for i
    using l [OF nth_mem [OF that]] by (simp_all add: task_prev_def task_next_def)
  then show ?thesis using assms(1-3) by (simp add: task_list_def)
qed

text \<open>The address at which a process starts, as \<open>init_task\<close> reads it.\<close>

definition process_entry :: "memory \<Rightarrow> u32 \<Rightarrow> u32" where
  "process_entry m p = (if m (p + 8724) = 0 then e_entry m (ELF_get_Ehdr m (load32 m (p + 8712))) else TASK_DEFAULT_START)"

text \<open>The bytes this reads.\<close>

definition entry_bytes :: "memory \<Rightarrow> u32 \<Rightarrow> u32 \<Rightarrow> bool" where
  "entry_bytes m p x \<longleftrightarrow> x = p + 8724 \<or> m (p + 8724) = 0 \<and> (within (p + 8712) 4 x
     \<or> within (load32 m (p + 8712) + 516) 4 x \<or> within (ELF_get_Ehdr m (load32 m (p + 8712)) + 24) 4 x)"

lemma process_entry_cong:
  assumes "\<forall>x. entry_bytes m p x \<longrightarrow> m' x = m x"
  shows "process_entry m' p = process_entry m p" and "entry_bytes m' p = entry_bytes m p"
proof -
  have 1: "m' (p + 8724) = m (p + 8724)" using assms by (simp add: entry_bytes_def)
  have "load32 m' (p + 8712) = load32 m (p + 8712)
      \<and> ELF_get_Ehdr m' (load32 m (p + 8712)) = ELF_get_Ehdr m (load32 m (p + 8712))
      \<and> e_entry m' (ELF_get_Ehdr m (load32 m (p + 8712))) = e_entry m (ELF_get_Ehdr m (load32 m (p + 8712)))"
    if z: "m (p + 8724) = 0"
  proof (intro conjI)
    show "load32 m' (p + 8712) = load32 m (p + 8712)"
      using assms z by (intro load32_cong) (simp add: entry_bytes_def)
    show "ELF_get_Ehdr m' (load32 m (p + 8712)) = ELF_get_Ehdr m (load32 m (p + 8712))"
      unfolding ELF_get_Ehdr_def elf_data_def using assms z by (intro load32_cong) (simp add: entry_bytes_def)
    show "e_entry m' (ELF_get_Ehdr m (load32 m (p + 8712))) = e_entry m (ELF_get_Ehdr m (load32 m (p + 8712)))"
      unfolding e_entry_def using assms z by (intro load32_cong) (simp add: entry_bytes_def)
  qed
  then show "process_entry m' p = process_entry m p" "entry_bytes m' p = entry_bytes m p"
    by (auto simp: process_entry_def entry_bytes_def 1 fun_eq_iff)
qed

text \<open>The stores of \<open>init_task\<close> into the 64 zero bytes of the new task.\<close>

definition task_filled :: "memory \<Rightarrow> u32 \<Rightarrow> u32 \<Rightarrow> u32 \<Rightarrow> u32 \<Rightarrow> memory" where
  "task_filled m t space ip p = store32 (store32 (store32 (store32 (store32 (store32 m t space) (t + 36) ip)
     (t + 28) TASK_DEFAULT_STACK_BEGIN) (t + 44) USER_DATA_SELECTOR) (t + 40) USER_CODE_SELECTOR) (t + 52) p"

definition fresh_registers :: "u32 \<Rightarrow> reg" where
  "fresh_registers ip = \<lparr>r_eax = 0, r_ebx = 0, r_ecx = 0, r_edx = 0, r_esi = 0, r_edi = 0, r_esp = 0x3FF000,
     r_ebp = 0, r_ip = ip, r_cs = 0x1B, r_ss = 0x23, r_flags = 0\<rparr>"

lemma task_filled_at:
  assumes "\<forall>x. within t 64 x \<longrightarrow> m x = 0"
  shows "task_at (task_filled m t space ip p) t
    = \<lparr>t_space = space, t_registers = fresh_registers ip, t_process = p, t_next = 0, t_prev = 0\<rparr>"
proof -
  have z: "load32 m (t + of_nat c) = 0" if "c \<le> 60" for c
  proof -
    have "m x = 0" if "within (t + of_nat c) 4 x" for x
      using assms that within_offset [of t c 4 x 64] \<open>c \<le> 60\<close> by simp
    then show ?thesis by (simp add: load32_def within_def)
  qed
  have n: "load32 m (t + numeral k) = 0" if "(numeral k :: nat) \<le> 60" for k
    using z [OF that] by simp
  show ?thesis
    by (simp add: task_at_def reg_at_def fresh_registers_def task_filled_def task_space_def task_registers_def
        task_process_def task_next_def task_prev_def apart4_def n add.assoc)
qed

lemma task_filled_other: "\<not> within t 64 x \<Longrightarrow> task_filled m t space ip p x = m x"
proof -
  assume x: "\<not> within t 64 x"
  have "\<not> within (t + of_nat c) 4 x" if "c \<le> 60" for c
    using x that within_offset [of t c 4 x 64] by auto
  from this [of 0] this [of 36] this [of 28] this [of 44] this [of 40] this [of 52]
  show ?thesis by (simp add: task_filled_def store32_other)
qed

lemma task_at_cong:
  assumes "\<And>x. within t 64 x \<Longrightarrow> m' x = m x"
  shows "task_at m' t = task_at m t"
proof -
  have l: "load32 m' (t + of_nat c) = load32 m (t + of_nat c)" if "c \<le> 60" for c
    using that assms within_offset [of t c 4 _ 64] by (intro load32_cong) simp
  have n: "load32 m' (t + numeral k) = load32 m (t + numeral k)" if "(numeral k :: nat) \<le> 60" for k
    using l [OF that] by simp
  show ?thesis
    using l [of 0] by (simp add: task_at_def reg_at_def task_space_def task_registers_def task_process_def
        task_next_def task_prev_def n add.assoc)
qed

text \<open>The entry point that \<open>init_task\<close> stores, under its name.\<close>

lemma init_task_entry:
  "init_task s t p =
     do { (space, s) \<leftarrow> create_virtual_address_space s 5;
          let s = set32 t space s;
          if space = 0 then Some (- errno ERR_TASK_FAIL, s)
          else Some (errno SUCCESS, set32 (t + 52) p (set32 (t + 40) USER_CODE_SELECTOR (set32 (t + 44) USER_DATA_SELECTOR
                 (set32 (t + 28) TASK_DEFAULT_STACK_BEGIN (set32 (t + 36) (process_entry (mem s) p) s))))) }"
  by (simp only: init_task_def process_entry_def Let_def)

text \<open>\<open>init_task\<close> on a zeroed block that is in use.\<close>

lemma init_task_fills:
  fixes s :: "'a taskst_scheme"
  assumes inv: "kinv s" and room: "1027 \<le> kavail s"
    and tu: "\<forall>x. within t 64 x \<longrightarrow> x \<in> kused s \<and> mem s x = 0"
    and pu: "\<forall>x. entry_bytes (mem s) p x \<longrightarrow> x \<in> kused s \<and> \<not> within t 64 x"
  obtains v s' where "init_task s t p = Some (0, s')" and "kinv s'" and "kavail s = kavail s' + 1027"
    and "kused s \<subseteq> kused s'" and "rest s' = rest s" and "s' = s\<lparr>mem := mem s', kheap := kheap s'\<rparr>"
    and "task_at (mem s') t = \<lparr>t_space = v, t_registers = fresh_registers (process_entry (mem s) p),
           t_process = p, t_next = 0, t_prev = 0\<rparr>"
    and "vspace_ok (mem s') v" and "\<forall>q. space_page (mem s') v q \<longrightarrow> q \<notin> kused s"
    and "\<forall>va. pte (mem s') (vspace_pd (mem s') v) va = (va AND 0xfffff000) OR 5"
    and "\<forall>va. mmu (mem s') (page_directory_entries (mem s') (vspace_pd (mem s') v)) va = Some va"
    and "\<forall>x. x \<in> kused s \<and> \<not> within t 64 x \<longrightarrow> mem s' x = mem s x"
proof -
  have b: "bit (5 :: u8) 0" by simp
  from create_space_facts [OF inv room b] obtain v s1 where
    c: "create_virtual_address_space s 5 = Some (v, s1)" "v \<noteq> 0" "kinv s1" "vspace_ok (mem s1) v"
    "kavail s = kavail s1 + 1027" "\<And>va. pte (mem s1) (vspace_pd (mem s1) v) va = (va AND 0xfffff000) OR ucast (5 :: u8)"
    "\<And>va. mmu (mem s1) (cr3 (load_page_directory s1 (vspace_pd (mem s1) v))) va = Some va"
    "\<And>x. x \<notin> kused s \<or> mem s1 x = mem s x" "s1 = s\<lparr>mem := mem s1, kheap := kheap s1\<rparr>" "kused s \<subseteq> kused s1"
    "\<And>q. space_page (mem s1) v q \<Longrightarrow> q \<in> kused s1 \<and> q \<notin> kused s" by blast
  let ?e = "process_entry (mem s) p"
  let ?m = "task_filled (mem s1) t v ?e p"
  have out: "?m x = mem s1 x" if "\<not> within t 64 x" for x by (rule task_filled_other [OF that])
  have t4: "within t 64 x" if "within t 4 x" for x using within_head [of 4 64 t x] that by simp
  have "\<forall>x. entry_bytes (mem s) p x \<longrightarrow> store32 (mem s1) t v x = mem s x"
  proof (intro allI impI)
    fix x assume x: "entry_bytes (mem s) p x"
    then have "\<not> within t 4 x" "x \<in> kused s" using pu t4 by blast+
    then show "store32 (mem s1) t v x = mem s x" using c(8) [of x] by (simp add: store32_other)
  qed
  from process_entry_cong(1) [OF this] have e: "process_entry (store32 (mem s1) t v) p = ?e" .
  have init: "init_task s t p = Some (0, s1\<lparr>mem := ?m\<rparr>)"
    using c(2) by (simp add: init_task_entry c(1) set32_set32 task_filled_def e)
  have z: "\<forall>x. within t 64 x \<longrightarrow> mem s1 x = 0" using tu c(8) by metis
  have "\<forall>x. space_page (mem s1) v (x AND 0xfffff000) \<longrightarrow> ?m x = mem s1 x"
    using c(11) kused_page [OF inv] tu out by metis
  note ag = vspace_agree [OF c(4) this] and mm = mmu_agree [OF c(4) this]
  show thesis
  proof (rule that [of "s1\<lparr>mem := ?m\<rparr>" v])
    show "init_task s t p = Some (0, s1\<lparr>mem := ?m\<rparr>)" by (rule init)
    show "kinv (s1\<lparr>mem := ?m\<rparr>)" "kavail s = kavail (s1\<lparr>mem := ?m\<rparr>) + 1027" "kused s \<subseteq> kused (s1\<lparr>mem := ?m\<rparr>)"
      using c(3,5,10) by simp_all
    show "rest (s1\<lparr>mem := ?m\<rparr>) = rest s" using create_vspace_rest [OF c(1)] by simp
    show "s1\<lparr>mem := ?m\<rparr> = s\<lparr>mem := mem (s1\<lparr>mem := ?m\<rparr>), kheap := kheap (s1\<lparr>mem := ?m\<rparr>)\<rparr>"
      by (subst c(9)) simp
    show "task_at (mem (s1\<lparr>mem := ?m\<rparr>)) t = \<lparr>t_space = v, t_registers = fresh_registers ?e,
           t_process = p, t_next = 0, t_prev = 0\<rparr>" using task_filled_at [OF z] by simp
    show "vspace_ok (mem (s1\<lparr>mem := ?m\<rparr>)) v" using ag(4) by simp
    show "\<forall>q. space_page (mem (s1\<lparr>mem := ?m\<rparr>)) v q \<longrightarrow> q \<notin> kused s" using ag(6) c(11) by simp
    show "\<forall>va. pte (mem (s1\<lparr>mem := ?m\<rparr>)) (vspace_pd (mem (s1\<lparr>mem := ?m\<rparr>)) v) va = (va AND 0xfffff000) OR 5"
      using ag(1,5) c(6) by simp
    show "\<forall>va. mmu (mem (s1\<lparr>mem := ?m\<rparr>)) (page_directory_entries (mem (s1\<lparr>mem := ?m\<rparr>))
        (vspace_pd (mem (s1\<lparr>mem := ?m\<rparr>)) v)) va = Some va"
      using mm(1) ag(1,2) c(7) by (simp add: load_page_directory_def load_pd_to_cr3_def)
    show "\<forall>x. x \<in> kused s \<and> \<not> within t 64 x \<longrightarrow> mem (s1\<lparr>mem := ?m\<rparr>) x = mem s x"
    proof (intro allI impI)
      fix x assume x: "x \<in> kused s \<and> \<not> within t 64 x"
      then show "mem (s1\<lparr>mem := ?m\<rparr>) x = mem s x" using out [of x] c(8) [of x] by simp
    qed
  qed
qed

section \<open>A new task in the list\<close>

text \<open>What the two stores of \<open>task_list_add\<close> leave of the new task: all but its last link.\<close>

lemma task_list_add_task_at:
  assumes "task_list s ts" and "\<forall>i < length ts. apart (ts ! i) 64 t 64"
  shows "task_at (mem (task_list_add s t)) t
    = (task_at (mem s) t)\<lparr>t_prev := if ts = [] then t_prev (task_at (mem s) t) else last ts\<rparr>"
proof (cases "ts = []")
  case True
  then show ?thesis using assms(1) by (simp add: task_list_add_def task_list_def)
next
  case False
  then have k: "length ts - 1 < length ts" "ts ! (length ts - 1) = last ts" by (simp_all add: last_conv_nth)
  then have ap: "apart (last ts) 64 t 64" using assms(2) by metis
  have h: "task_list_head s \<noteq> 0" "task_list_tail s = last ts"
    using assms(1) False by (auto simp: task_list_def split: list.splits)
  have o: "apart4 (last ts + 56) (t + c)" if "c \<le> 60" for c
    using apart_fields [OF ap, of 56 c] that by simp
  have "apart4 (last ts + 56) t" using o [of 0] by simp
  then show ?thesis using False h
    by (simp add: task_list_add_def Let_def set32_def task_at_def reg_at_def task_space_def task_registers_def
        task_process_def task_next_def task_prev_def o apart4_offsets add.assoc) (simp add: apart4_def)
qed

text \<open>The addition writes into the tasks of the list and into the new one only.\<close>

lemma task_list_add_frame:
  assumes "task_list s ts" and "\<forall>u\<in>set ts. \<not> within u 64 x" and "\<not> within t 64 x"
  shows "mem (task_list_add s t) x = mem s x"
proof (cases "ts = []")
  case True
  then show ?thesis using assms(1) by (simp add: task_list_add_def task_list_def)
next
  case False
  then have "\<not> within (task_list_tail s) 64 x" using assms(1,2) by (simp add: task_list_def)
  then show ?thesis
    using assms(3) within_part [of 56 x "task_list_tail s"] within_part [of 60 x t]
    by (intro task_list_add_mem) (auto simp: within_def)
qed

text \<open>C16: \<open>new_task\<close>, when the heap has the pages for it, answers a fresh task at the end of the task
  list, the current one if it is the first: its address space maps every page to itself, readable by the
  user and by no means writable, its registers are those of a program at its entry point (the one of the
  ELF header, or \<open>0x400000\<close>) with an empty stack and the selectors of the user, its process is the one
  given. It costs 1028 pages of the heap.\<close>

theorem new_task_ready:
  assumes "kinv s" and "1028 \<le> kavail s" and "task_list s ts"
    and "\<forall>u\<in>set ts. \<forall>x. within u 64 x \<longrightarrow> x \<in> kused s"
    and "\<forall>x. entry_bytes (mem s) p x \<longrightarrow> x \<in> kused s"
  shows "\<exists>t v s'. new_task s p = Some (t, s') \<and> t \<noteq> 0 \<and> task_list s' (ts @ [t])
    \<and> cur_task s' = (if ts = [] then t else cur_task s)
    \<and> task_at (mem s') t = \<lparr>t_space = v, t_registers = fresh_registers (process_entry (mem s) p), t_process = p,
          t_next = 0, t_prev = (if ts = [] then 0 else last ts)\<rparr>
    \<and> vspace_ok (mem s') v \<and> (\<forall>va. pte (mem s') (vspace_pd (mem s') v) va = (va AND 0xfffff000) OR 5)
    \<and> (\<forall>va. mmu (mem s') (page_directory_entries (mem s') (vspace_pd (mem s') v)) va = Some va)
    \<and> kinv s' \<and> kavail s = kavail s' + 1028"
proof -
  have n: "0 < kavail s" "(0 :: u32) < 64" "(64 :: u32) \<le> 4096" using assms(2) by simp_all
  obtain t s1 where k: "kzalloc s 64 = Some (t, s1)" "t \<noteq> 0" "kinv s1" "kavail s = Suc (kavail s1)"
    "kused s \<subseteq> kused s1" "\<forall>x. within t 64 x \<longrightarrow> x \<notin> kused s \<and> x \<in> kused s1"
    "\<forall>x. x \<in> kused s \<longrightarrow> mem s1 x = mem s x"
    by (rule pages.alloc_pageE [OF assms(1) n]) (rule that)
  have s1: "s1 = s\<lparr>mem := mem s1, kheap := kheap s1\<rparr>" by (rule kzalloc_frame [OF k(1)])
  have z: "\<forall>x. within t 64 x \<longrightarrow> x \<in> kused s1 \<and> mem s1 x = 0"
    using k(6) kz.alloc_zeroed [OF assms(1) k(1,2)] by blast
  have "\<forall>x. entry_bytes (mem s) p x \<longrightarrow> mem s1 x = mem s x" using assms(5) k(7) by blast
  note e = process_entry_cong [OF this]
  have pu: "\<forall>x. entry_bytes (mem s1) p x \<longrightarrow> x \<in> kused s1 \<and> \<not> within t 64 x"
    unfolding e(2) using assms(5) k(5,6) by blast
  have room: "1027 \<le> kavail s1" using assms(2) k(4) by simp
  obtain v s2 where i: "init_task s1 t p = Some (0, s2)" "kinv s2" "kavail s1 = kavail s2 + 1027"
    "kused s1 \<subseteq> kused s2" "s2 = s1\<lparr>mem := mem s2, kheap := kheap s2\<rparr>"
    "task_at (mem s2) t = \<lparr>t_space = v, t_registers = fresh_registers (process_entry (mem s1) p),
       t_process = p, t_next = 0, t_prev = 0\<rparr>"
    "vspace_ok (mem s2) v" "\<forall>q. space_page (mem s2) v q \<longrightarrow> q \<notin> kused s1"
    "\<forall>va. pte (mem s2) (vspace_pd (mem s2) v) va = (va AND 0xfffff000) OR 5"
    "\<forall>va. mmu (mem s2) (page_directory_entries (mem s2) (vspace_pd (mem s2) v)) va = Some va"
    "\<forall>x. x \<in> kused s1 \<and> \<not> within t 64 x \<longrightarrow> mem s2 x = mem s1 x"
    by (rule init_task_fills [OF k(3) room z pu]) (rule that)
  have ap: "\<forall>i < length ts. apart (ts ! i) 64 t 64"
    using assms(4) k(6) nth_mem unfolding apart_def by blast
  have hd: "task_list_head s2 = task_list_head s" "task_list_tail s2 = task_list_tail s" "cur_task s2 = cur_task s"
    by (subst i(5), subst s1, simp)+
  have keep: "\<forall>u\<in>set ts. \<forall>x. within u 64 x \<longrightarrow> mem s2 x = mem s x"
    using assms(4) i(11) k(5-7) by (metis subsetD)
  have l2: "task_list s2 ts" by (rule task_list_cong [OF assms(3) hd(1,2) keep])
  have links: "task_next (mem s2) t = 0" "task_prev (mem s2) t = 0" using i(6) by (simp_all add: task_at_def)
  let ?s3 = "task_list_add s2 t"
  note add = task_list_add_append [OF l2 k(2) ap links]
  have new: "new_task s p = Some (t, ?s3)" using k(1,2) i(1) by (simp add: new_task_def)
  have "mem ?s3 x = mem s2 x" if x: "space_page (mem s2) v (x AND 0xfffff000)" for x
  proof (rule task_list_add_frame [OF l2])
    have "x \<notin> kused s1" using i(8) x kused_page [OF k(3) refl, of x] by blast
    then show "\<forall>u\<in>set ts. \<not> within u 64 x" "\<not> within t 64 x" using z assms(4) k(5) by blast+
  qed
  then have ag: "\<forall>x. space_page (mem s2) v (x AND 0xfffff000) \<longrightarrow> mem ?s3 x = mem s2 x" by blast
  note va = vspace_agree [OF i(7) ag] and mm = mmu_agree [OF i(7) ag]
  have kh: "kheap ?s3 = kheap s2" by (simp add: task_list_add_def Let_def set32_def)
  have "task_at (mem ?s3) t = \<lparr>t_space = v, t_registers = fresh_registers (process_entry (mem s) p), t_process = p,
      t_next = 0, t_prev = (if ts = [] then 0 else last ts)\<rparr>"
    unfolding task_list_add_task_at [OF l2 ap] i(6) e(1) by simp
  then show ?thesis
    using new k(2) add hd(3) va(4) va(1,5) i(9) mm(1) va(2) i(10) i(2,3) k(4) kh
    by (intro exI [of _ t] exI [of _ v] exI [of _ ?s3]) simp
qed

text \<open>A process of an ELF file that starts at \<open>0x400100\<close>, and one task in the list.\<close>

definition demo_new :: taskst where
  "demo_new = \<lparr>mem = store32 (store32 (store32 (\<lambda>_. 0) 0x1002208 0x1003400) 0x1003604 0x1003800) 0x1003818 0x400100,
     kheap = four_blocks,
     VGA_BASE = 0xB8000, cursor_x = 0, cursor_y = 0, device = (\<lambda>h p. 0), io_log = [], cr3 = 0,
     data_segment = 0x10, current_page_directory = 0, kernel_space = 0, local_addr = (\<lambda>l. 0x1FE000),
     fs_list = [], fd_list = [], disks = [], disks_already_initialised = 0, fat16_object = 0,
     cur_task = 0x1003000, task_list_head = 0x1003000, task_list_tail = 0x1003000\<rparr>"

theorem new_task_ready_witness:
  "\<exists>t s'. new_task demo_new 0x1000000 = Some (t, s') \<and> task_list s' [0x1003000, t] \<and> cur_task s' = 0x1003000
     \<and> r_ip (t_registers (task_at (mem s') t)) = 0x400100 \<and> t_prev (task_at (mem s') t) = 0x1003000"
proof -
  have kh: "kheap demo_new = four_blocks" by (simp add: demo_new_def)
  have pre: "kinv demo_new" "1028 \<le> kavail demo_new" by (simp_all add: kh four_blocks)
  have z: "load32 (mem demo_new) 0x1003038 = 0" "load32 (mem demo_new) 0x100303C = 0"
    by (simp_all add: demo_new_def apart4_def) (simp_all add: load32_def)
  have l: "task_list demo_new [0x1003000]"
    using z by (simp add: task_list_def demo_new_def task_next_def task_prev_def)
  have u: "x \<in> kused demo_new" if "within a k x" "0x1000000 \<le> a" "unat a + unat k \<le> 0x1004000" for a k x
    unfolding kh by (rule four_blocks_used [OF that])
  have tu: "\<forall>v\<in>set [0x1003000 :: u32]. \<forall>x. within v 64 x \<longrightarrow> x \<in> kused demo_new"
    using u [of "0x1003000" 64] by simp
  have m: "mem demo_new 0x1002214 = 0" "load32 (mem demo_new) 0x1002208 = 0x1003400"
    "load32 (mem demo_new) 0x1003604 = 0x1003800" "load32 (mem demo_new) 0x1003818 = 0x400100"
    by (simp_all add: demo_new_def apart4_def) (simp add: store32_def)
  have eu: "\<forall>x. entry_bytes (mem demo_new) 0x1000000 x \<longrightarrow> x \<in> kused demo_new"
    using u [of "0x1002208" 4] u [of "0x1003604" 4] u [of "0x1003818" 4] u [of "0x1002214" 1]
    by (auto simp: entry_bytes_def m ELF_get_Ehdr_def elf_data_def) (simp add: within_def)
  have e: "process_entry (mem demo_new) 0x1000000 = 0x400100"
    by (simp add: process_entry_def m ELF_get_Ehdr_def elf_data_def e_entry_def)
  have c: "cur_task demo_new = 0x1003000" by (simp add: demo_new_def)
  from new_task_ready [OF pre l tu eu] show ?thesis
    by (elim exE conjE) (intro exI conjI, assumption, simp_all add: e c fresh_registers_def)
qed

end
