(* ===== verification/Process_Mem.thy ===== *)
theory Process_Mem
  imports Process
begin

text \<open>
  What \<open>process_malloc\<close> and \<open>process_free\<close> do to the address space of a process: which
  pages of the space the allocation maps, and that the structures of the process stay well formed.
\<close>

section \<open>Well-formed processes\<close>

definition heap_below_top :: "heap \<Rightarrow> bool" where
  "heap_below_top h \<longleftrightarrow> unat (heap_base h) + 4096 * unat (num_entries h) < 2 ^ 32"

lemma heap_below_top_same:
  assumes "\<And>f. h'\<lparr>entries := f\<rparr> = h\<lparr>entries := f\<rparr>"
  shows "heap_below_top h' = heap_below_top h"
  using assms [of "\<lambda>_. 0"] by (cases h, cases h') (simp add: heap_below_top_def)

text \<open>The structures of a process \<open>p\<close>: the heap ends before the last page, its address space is well formed and in use, and its own
  block and the first word of its task are in use away from the pages of the space.\<close>

definition process_wf :: "'a procst_scheme \<Rightarrow> u32 \<Rightarrow> bool" where
  "process_wf s p \<longleftrightarrow>
     (let v = process_space (mem s) p; t = process_task (mem s) p
      in kinv s \<and> heap_below_top (kheap s) \<and> vspace_ok (mem s) v \<and> (\<forall>q. space_page (mem s) v q \<longrightarrow> q \<in> kused s)
       \<and> (\<forall>x. within p process_size x \<longrightarrow> x \<in> kused s \<and> \<not> space_page (mem s) v (x AND 0xfffff000))
       \<and> (\<forall>x. within t 4 x \<longrightarrow> x \<in> kused s \<and> \<not> space_page (mem s) v (x AND 0xfffff000)
            \<and> \<not> within p process_size x))"

lemma process_wfD:
  assumes "process_wf s p"
  shows "kinv s" and "vspace_ok (mem s) (process_space (mem s) p)"
    and "space_page (mem s) (process_space (mem s) p) q \<Longrightarrow> q \<in> kused s"
    and "within p process_size x \<Longrightarrow> x \<in> kused s"
    and "within p process_size x \<Longrightarrow> \<not> space_page (mem s) (process_space (mem s) p) (x AND 0xfffff000)"
    and "within (process_task (mem s) p) 4 x \<Longrightarrow> x \<in> kused s"
    and "within (process_task (mem s) p) 4 x \<Longrightarrow> \<not> space_page (mem s) (process_space (mem s) p) (x AND 0xfffff000)"
    and "within (process_task (mem s) p) 4 x \<Longrightarrow> \<not> within p process_size x"
    and "heap_below_top (kheap s)"
  using assms unfolding process_wf_def Let_def by blast+

section \<open>The cells of a process\<close>

lemma apart4_nat:
  assumes "a + 4 \<le> b" and "b < 65536"
  shows "apart4 (p + of_nat a) (p + of_nat b)" and "apart4 (p + of_nat b) (p + of_nat a)"
proof -
  have u: "unat (of_nat a :: u32) = a" "unat (of_nat b :: u32) = b"
    using assms by (auto intro: unat_of_nat_less)
  have le: "(of_nat a :: u32) \<le> of_nat b" using assms u by (simp add: word_le_nat_alt)
  have "unat (of_nat b - of_nat a :: u32) = b - a" using u unat_sub [OF le] by simp
  then have d: "4 \<le> (of_nat b - of_nat a :: u32)" "of_nat b - of_nat a \<le> (65536 :: u32)"
    using assms by (simp_all add: word_le_nat_alt)
  have "4 \<le> - d" if "4 \<le> d" "d \<le> 65536" for d :: u32
    using that unat_sub_if_size [of 0 d] by (simp add: word_le_nat_alt word_size)
  from this [OF d] have "4 \<le> (of_nat a - of_nat b :: u32)" by simp
  then show "apart4 (p + of_nat a) (p + of_nat b)" "apart4 (p + of_nat b) (p + of_nat a)"
    using d(1) by (simp_all add: apart4_def)
qed

lemma within_nat_field:
  assumes "within (p + of_nat a) 4 x" and "a \<le> 9756"
  shows "within p process_size x"
proof -
  have "unat (of_nat a :: u32) = a" using assms(2) by (intro unat_of_nat_less) simp
  then have "(of_nat a :: u32) \<le> 9756" using assms(2) by (simp add: word_le_nat_alt)
  with assms(1) show ?thesis
    using field_within [of x p "of_nat a" 9756] by (simp add: within_def)
qed

lemma slot_offsets:
  "alloc_slot p i = p + of_nat (520 + 4 * i)" "alloc_size_slot p i = p + of_nat (4616 + 4 * i)"
  "p + 516 = p + of_nat 516"
  by (simp_all add: alloc_slot_def alloc_size_slot_def)

lemma slots_within:
  assumes "i < 1024" and "within (alloc_slot p i) 4 x \<or> within (alloc_size_slot p i) 4 x"
  shows "within p process_size x"
  using assms(2) unfolding slot_offsets(1,2) by (rule disjE) (erule within_nat_field, use assms(1) in simp)+

lemma slots_apart:
  assumes "i < 1024"
  shows "apart4 (alloc_slot p i) (p + 516)" "apart4 (alloc_size_slot p i) (p + 516)"
    "apart4 (alloc_size_slot p i) (alloc_slot p i)"
  unfolding slot_offsets using assms by (rule_tac [!] apart4_nat) simp_all

lemma find_alloc_Some:
  "find_alloc m p a i n = Some k \<Longrightarrow> i \<le> k \<and> k < i + n \<and> load32 m (alloc_slot p k) = a
     \<and> (\<forall>j. i \<le> j \<and> j < k \<longrightarrow> load32 m (alloc_slot p j) \<noteq> a)"
proof (induction n arbitrary: i)
  case (Suc n)
  show ?case
  proof (cases "load32 m (alloc_slot p i) = a")
    case False
    then have "find_alloc m p a (Suc i) n = Some k" using Suc.prems by simp
    note ih = Suc.IH [OF this]
    have "load32 m (alloc_slot p j) \<noteq> a" if "i \<le> j" "j < k" for j
      using that ih False by (cases "j = i") simp_all
    then show ?thesis using ih by simp
  qed (use Suc.prems in auto)
qed simp

lemma find_alloc_None:
  "find_alloc m p a i n = None \<Longrightarrow> i \<le> j \<Longrightarrow> j < i + n \<Longrightarrow> load32 m (alloc_slot p j) \<noteq> a"
proof (induction n arbitrary: i)
  case (Suc n)
  then show ?case by (cases "j = i") (auto split: if_splits)
qed simp

text \<open>The entry that the tables of the process hold for an address.\<close>

definition process_pte :: "memory \<Rightarrow> u32 \<Rightarrow> u32 \<Rightarrow> u32" where
  "process_pte m p va = pte m (vspace_pd m (process_space m p)) va"

text \<open>A change of the memory that keeps the two pointers and the pages of the space keeps the process
  well formed, whatever the heap hands out meanwhile.\<close>

lemma process_wf_frame:
  assumes wf: "process_wf s p" and inv: "kinv s'" and top: "heap_below_top (kheap s')" and us: "kused s \<subseteq> kused s'"
    and task: "process_task (mem s') p = process_task (mem s) p"
    and space: "\<forall>x. within (process_task (mem s) p) 4 x
        \<or> space_page (mem s) (process_space (mem s) p) (x AND 0xfffff000) \<longrightarrow> mem s' x = mem s x"
  shows "process_wf s' p" and "process_space (mem s') p = process_space (mem s) p"
    and "process_pte (mem s') p va = process_pte (mem s) p va"
proof -
  let ?v = "process_space (mem s) p"
  have v: "process_space (mem s') p = ?v"
    unfolding process_space_def task task_space_def by (rule load32_cong) (use space in blast)
  have "\<forall>x. space_page (mem s) ?v (x AND 0xfffff000) \<longrightarrow> mem s' x = mem s x" using space by blast
  note a = vspace_agree [OF process_wfD(2) [OF wf] this]
  show "process_space (mem s') p = ?v" by (rule v)
  show "process_pte (mem s') p va = process_pte (mem s) p va"
    by (simp add: process_pte_def v a(1,5))
  show "process_wf s' p"
    unfolding process_wf_def Let_def v task a(6)
    using inv top a(4) process_wfD(3-8) [OF wf] us by blast
qed

section \<open>Allocation\<close>

text \<open>The mapping that follows the bookkeeping, on any memory that holds the process.\<close>

lemma aligned_add_pages: "a mod 4096 = 0 \<Longrightarrow> (a + n * 4096) mod 4096 = 0" for a n :: u32
  by (simp add: mod_4096_add_mult)

lemma align_same:
  "a mod 4096 = 0 \<Longrightarrow> paging_align_to_page_lower a = a"
  "a mod 4096 = 0 \<Longrightarrow> paging_align_to_page_upper a = a"
  by (simp_all add: paging_align_to_page_lower_def paging_align_to_page_upper_def)

lemma page_base_dist:
  assumes "a mod 4096 = 0"
  shows "a + of_nat (page_dist a va) * 4096 = va AND 0xfffff000"
proof -
  have "(of_nat (unat ((va AND 0xfffff000) - a)) :: u32) = of_nat (page_dist a va) * 4096"
    unfolding unat_page_dist [OF assms] by simp
  then have "(va AND 0xfffff000) - a = of_nat (page_dist a va) * 4096" by simp
  then show ?thesis by (simp add: algebra_simps)
qed

definition pages_mapped :: "u32 \<Rightarrow> u32 \<Rightarrow> nat \<Rightarrow> u32 \<Rightarrow> (u32 \<Rightarrow> u32) \<Rightarrow> u32 \<Rightarrow> u32" where
  "pages_mapped va pa n fl t x =
     (if page_dist va x < n then (pa + of_nat (page_dist va x) * 4096) OR fl else t x)"

text \<open>One range mapped into the space of a process: the entries of its pages change, the directory, the
  structures of the process and the rest of memory do not.\<close>

lemma map_pages:
  assumes wf: "process_wf s p" and al: "va mod 4096 = 0" "pa mod 4096 = 0" "e mod 4096 = 0" and le: "pa \<le> e"
  obtains m' where
    "paging_map_range (mem s) (process_space (mem s) p) va pa e fl = (0, m')"
    and "process_wf (s\<lparr>mem := m'\<rparr>) p" and "process_space m' p = process_space (mem s) p"
    and "space_page m' (process_space (mem s) p) = space_page (mem s) (process_space (mem s) p)"
    and "process_pte m' p = pages_mapped va pa (unat (e - pa) div 4096) fl (process_pte (mem s) p)"
    and "\<And>x. \<not> space_page (mem s) (process_space (mem s) p) (x AND 0xfffff000) \<Longrightarrow> m' x = mem s x"
    and "pde_present m' (process_space (mem s) p) = pde_present (mem s) (process_space (mem s) p)"
    and "page_directory_entries m' (vspace_pd m' (process_space (mem s) p))
      = page_directory_entries (mem s) (vspace_pd (mem s) (process_space (mem s) p))"
    and "pde m' (process_space (mem s) p) = pde (mem s) (process_space (mem s) p)"
proof -
  let ?m = "mem s" and ?v = "process_space (mem s) p"
  note D = process_wfD [OF wf]
  obtain m' where m: "paging_map_range ?m ?v va pa e fl = (errno SUCCESS, m')" "vspace_ok m' ?v"
    "vspace_pd m' ?v = vspace_pd ?m ?v"
    "\<And>va'. pte m' (vspace_pd ?m ?v) va' = (if page_dist va va' < unat (e - pa) div 4096
      then (pa + of_nat (page_dist va va') * 4096) OR fl else pte ?m (vspace_pd ?m ?v) va')"
    "\<And>x. (\<forall>j<1024. x AND 0xfffff000 \<noteq> pt_of ?m (vspace_pd ?m ?v) j) \<Longrightarrow> m' x = ?m x"
    by (rule paging_map_range_ok [OF D(2) al le, of fl]) (rule that)
  have fr: "m' x = ?m x" if "\<not> space_page ?m ?v (x AND 0xfffff000)" for x
    using m(5) [of x] that by (auto simp: space_page_def)
  note ok = D(2) [unfolded vspace_ok_def Let_def]
  have al: "vspace_pd ?m ?v mod 4096 = 0" "page_directory_entries ?m (vspace_pd ?m ?v) mod 4096 = 0"
    using ok by blast+
  have npt: "\<forall>j<1024. vspace_pd ?m ?v \<noteq> pt_of ?m (vspace_pd ?m ?v) j"
    "\<forall>j<1024. page_directory_entries ?m (vspace_pd ?m ?v) \<noteq> pt_of ?m (vspace_pd ?m ?v) j"
    using ok by metis+
  have cell: "load32 m' (q + 4 * of_nat k) = load32 ?m (q + 4 * of_nat k)"
    if "q mod 4096 = 0" "k < 1024" "\<forall>j<1024. q \<noteq> pt_of ?m (vspace_pd ?m ?v) j" for q k
    by (rule load32_page [OF that(1,2)]) (rule m(5), use that(3) in simp)
  have dir: "page_directory_entries m' (vspace_pd ?m ?v) = page_directory_entries ?m (vspace_pd ?m ?v)"
    using cell [of "vspace_pd ?m ?v" 0] al npt by (simp add: page_directory_entries_def)
  have pts: "pt_of m' (vspace_pd ?m ?v) j = pt_of ?m (vspace_pd ?m ?v) j" if "j < 1024" for j
    using cell [OF al(2) that npt(2)] by (simp add: pt_of_def dir)
  have sp: "space_page m' ?v = space_page ?m ?v"
    using pts by (auto simp: space_page_def fun_eq_iff m(3) dir)
  have t: "process_task m' p = process_task ?m p"
    unfolding process_task_def
    by (rule load32_cong, rule fr, rule D(5), rule within_nat_field [of p 516]) simp_all
  have v: "process_space m' p = ?v"
    unfolding process_space_def t task_space_def by (rule load32_cong, rule fr, rule D(7))
  show ?thesis
  proof (rule that)
    show "paging_map_range ?m ?v va pa e fl = (0, m')" using m(1) by simp
    show "process_space m' p = ?v" by (rule v)
    show "space_page m' ?v = space_page ?m ?v" by (rule sp)
    show "process_wf (s\<lparr>mem := m'\<rparr>) p"
      using D m(2) by (simp add: process_wf_def v t sp)
    show "process_pte m' p = pages_mapped va pa (unat (e - pa) div 4096) fl (process_pte ?m p)"
      by (simp add: fun_eq_iff process_pte_def pages_mapped_def v m(3,4))
    show "pde_present m' ?v = pde_present ?m ?v"
      using cell [OF al(2) va_indices(1) npt(2)] by (simp add: fun_eq_iff pde_present_def m(3) dir)
    show "page_directory_entries m' (vspace_pd m' ?v) = page_directory_entries ?m (vspace_pd ?m ?v)"
      by (simp add: m(3) dir)
    show "pde m' ?v = pde ?m ?v"
      using cell [OF al(2) va_indices(1) npt(2)] by (simp add: fun_eq_iff pde_def m(3) dir)
  qed (rule fr)
qed

lemma map_identity:
  assumes wf: "process_wf s p" and a: "a mod 4096 = 0" and room: "unat a + 4096 * unat n < 2 ^ 32"
  obtains m' where
    "paging_map_range (mem s) (process_space (mem s) p) a a (a + n * 4096) fl = (0, m')"
    and "process_wf (s\<lparr>mem := m'\<rparr>) p" and "process_space m' p = process_space (mem s) p"
    and "\<And>va. process_pte m' p va = (if page_dist a va < unat n then (va AND 0xfffff000) OR fl
           else process_pte (mem s) p va)"
    and "\<And>x. \<not> space_page (mem s) (process_space (mem s) p) (x AND 0xfffff000) \<Longrightarrow> m' x = mem s x"
    and "space_page m' (process_space (mem s) p) = space_page (mem s) (process_space (mem s) p)"
    and "pde m' (process_space (mem s) p) = pde (mem s) (process_space (mem s) p)"
proof -
  let ?e = "a + n * 4096"
  have un: "unat (n * 4096) = 4096 * unat n"
    using room unat_word_ariths(2) [of n 4096] by (simp add: mult.commute)
  have "unat ?e = unat a + 4096 * unat n"
    using room un unat_word_ariths(1) [of a "n * 4096"] by simp
  then have le: "a \<le> ?e" by (simp add: word_le_nat_alt)
  show ?thesis
  proof (rule map_pages [OF wf a a aligned_add_pages [OF a] le, of fl])
    fix m'
    assume m: "paging_map_range (mem s) (process_space (mem s) p) a a ?e fl = (0, m')"
      "process_wf (s\<lparr>mem := m'\<rparr>) p" "process_space m' p = process_space (mem s) p"
      "process_pte m' p = pages_mapped a a (unat (?e - a) div 4096) fl (process_pte (mem s) p)"
      "\<And>x. \<not> space_page (mem s) (process_space (mem s) p) (x AND 0xfffff000) \<Longrightarrow> m' x = mem s x"
      "space_page m' (process_space (mem s) p) = space_page (mem s) (process_space (mem s) p)"
      "pde m' (process_space (mem s) p) = pde (mem s) (process_space (mem s) p)"
    show thesis
      by (rule that [OF m(1-3) _ m(5-7)]) (use un in \<open>simp_all add: m(4) pages_mapped_def page_base_dist [OF a]\<close>)
  qed
qed

text \<open>Both operations write the two words of a slot.\<close>

definition set_slot :: "u32 \<Rightarrow> nat \<Rightarrow> u32 \<Rightarrow> u32 \<Rightarrow> memory \<Rightarrow> memory" where
  "set_slot p i a sz m = store32 (store32 m (alloc_slot p i) a) (alloc_size_slot p i) sz"

lemma set_slot_outside:
  assumes "i < 1024" and "\<not> within p process_size x"
  shows "set_slot p i a sz m x = m x"
proof -
  have "\<not> within (alloc_slot p i) 4 x" "\<not> within (alloc_size_slot p i) 4 x"
    using slots_within [OF assms(1), of p x] assms(2) by blast+
  then show ?thesis by (simp add: set_slot_def store32_other)
qed

lemma set_slot_read [simp]:
  "i < 1024 \<Longrightarrow> load32 (set_slot p i a sz m) (alloc_slot p i) = a"
  "load32 (set_slot p i a sz m) (alloc_size_slot p i) = sz"
  using slots_apart(3) [of i p] by (simp_all add: set_slot_def)

lemma set_slot_wf:
  assumes wf: "process_wf s p" and i: "i < 1024" and inv: "kinv s1" and top: "heap_below_top (kheap s1)"
    and us: "kused s \<subseteq> kused s1" and keep: "\<forall>x. x \<in> kused s \<longrightarrow> mem s1 x = mem s x"
  shows "process_wf (s1\<lparr>mem := set_slot p i a sz (mem s1)\<rparr>) p"
    and "process_space (set_slot p i a sz (mem s1)) p = process_space (mem s) p"
    and "process_pte (set_slot p i a sz (mem s1)) p va = process_pte (mem s) p va"
    and "space_page (set_slot p i a sz (mem s1)) (process_space (mem s) p)
      = space_page (mem s) (process_space (mem s) p)"
    and "pde (set_slot p i a sz (mem s1)) (process_space (mem s) p) va = pde (mem s) (process_space (mem s) p) va"
proof -
  let ?v = "process_space (mem s) p" and ?m2 = "set_slot p i a sz (mem s1)"
  let ?s2 = "s1\<lparr>mem := ?m2\<rparr>"
  note D = process_wfD [OF wf] and ap = slots_apart [OF i, of p]
  have "process_task ?m2 p = process_task (mem s1) p"
    using ap(1,2) by (simp add: process_task_def set_slot_def)
  also have "\<dots> = process_task (mem s) p"
    unfolding process_task_def
    by (rule load32_cong, rule keep [rule_format], rule D(4), rule within_nat_field [of p 516]) simp_all
  finally have task: "process_task (mem ?s2) p = process_task (mem s) p" by simp
  have same: "mem ?s2 x = mem s x"
    if "within (process_task (mem s) p) 4 x \<or> space_page (mem s) ?v (x AND 0xfffff000)" for x
  proof -
    have "\<not> within p process_size x" using that D(5,8) by blast
    moreover have "x \<in> kused s" using that D(3,6) kused_page [OF D(1), of x] by blast
    ultimately show ?thesis using set_slot_outside [OF i] keep by simp
  qed
  then have "\<forall>x. within (process_task (mem s) p) 4 x \<or> space_page (mem s) ?v (x AND 0xfffff000)
      \<longrightarrow> mem ?s2 x = mem s x" by blast
  note fr = process_wf_frame [OF wf _ _ _ task this]
  show "process_wf ?s2 p" by (rule fr(1)) (use inv us top in simp_all)
  show "process_space ?m2 p = ?v" using fr(2) inv us top by simp
  show "process_pte ?m2 p va = process_pte (mem s) p va" using fr(3) inv us top by simp
  show "space_page ?m2 ?v = space_page (mem s) ?v"
    by (rule vspace_agree(6) [OF D(2)]) (use same in simp)
  show "pde ?m2 ?v va = pde (mem s) ?v va"
    by (rule pde_agree [OF D(2)]) (use same in simp)
qed

definition pages_of :: "u32 \<Rightarrow> u32" where
  "pages_of sz = (sz + PAGE_SIZE - 1) div PAGE_SIZE"

text \<open>One allocation, whether the heap has room for it or answers null.\<close>

lemma process_malloc_facts:
  assumes wf: "process_wf s (current_process s)"
    and i: "find_alloc (mem s) (current_process s) 0 0 1024 = Some i"
    and k: "kzalloc s sz = Some (a, s1)"
    and room: "unat a + 4096 * unat (pages_of sz) < 2 ^ 32"
  obtains s' where "process_malloc s sz = Some (a, s')"
    and "s' = s1\<lparr>mem := mem s'\<rparr>" and "process_wf s' (current_process s)"
    and "load32 (mem s') (alloc_slot (current_process s) i) = a"
    and "load32 (mem s') (alloc_size_slot (current_process s) i) = sz"
    and "\<And>va. process_pte (mem s') (current_process s) va =
      (if page_dist a va < unat (pages_of sz) then (va AND 0xfffff000) OR 7
       else process_pte (mem s) (current_process s) va)"
    and "\<And>x. \<not> space_page (mem s) (process_space (mem s) (current_process s)) (x AND 0xfffff000) \<Longrightarrow>
      \<not> within (current_process s) process_size x \<Longrightarrow> mem s' x = mem s1 x"
    and "process_space (mem s') (current_process s) = process_space (mem s) (current_process s)"
    and "space_page (mem s') (process_space (mem s) (current_process s))
      = space_page (mem s) (process_space (mem s) (current_process s))"
    and "\<And>va. pde (mem s') (process_space (mem s) (current_process s)) va
      = pde (mem s) (process_space (mem s) (current_process s)) va"
proof -
  let ?p = "current_process s" and ?v = "process_space (mem s) (current_process s)"
  note D = process_wfD [OF wf]
  have a: "a mod 4096 = 0" by (rule kz.alloc_aligned [OF D(1) k])
  have i1: "i < 1024" using find_alloc_Some [OF i] by simp
  let ?m2 = "set_slot ?p i a sz (mem s1)"
  let ?s2 = "s1\<lparr>mem := ?m2\<rparr>"
  have top: "heap_below_top (kheap s1)"
    using D(9) heap_below_top_same [OF malloc_geometry [OF kzalloc_kheap [OF k]]] by simp
  have "\<forall>x. x \<in> kused s \<longrightarrow> mem s1 x = mem s x"
    using kz.alloc_keeps_used [OF D(1) k] by blast
  note w = set_slot_wf [OF wf i1 kz.alloc_inv [OF D(1) k] top kz.alloc_mono [OF D(1) k] this, of a sz]
  obtain m' where m: "paging_map_range (mem ?s2) (process_space (mem ?s2) ?p) a a (a + pages_of sz * 4096) 7 = (0, m')"
    "process_wf (?s2\<lparr>mem := m'\<rparr>) ?p" "process_space m' ?p = process_space (mem ?s2) ?p"
    "\<And>va. process_pte m' ?p va = (if page_dist a va < unat (pages_of sz) then (va AND 0xfffff000) OR 7
           else process_pte (mem ?s2) ?p va)"
    "\<And>x. \<not> space_page (mem ?s2) (process_space (mem ?s2) ?p) (x AND 0xfffff000) \<Longrightarrow> m' x = mem ?s2 x"
    "space_page m' (process_space (mem ?s2) ?p) = space_page (mem ?s2) (process_space (mem ?s2) ?p)"
    "pde m' (process_space (mem ?s2) ?p) = pde (mem ?s2) (process_space (mem ?s2) ?p)"
    by (rule map_identity [OF w(1) a room]) (rule that)
  have mo: "m' x = ?m2 x" if "within ?p process_size x" for x
    using m(5) [of x] D(5) [OF that] by (simp add: w(2,4))
  have c1: "load32 m' (alloc_slot ?p i) = load32 ?m2 (alloc_slot ?p i)"
    by (rule load32_cong, rule mo, rule slots_within [OF i1, of ?p]) simp
  have c2: "load32 m' (alloc_size_slot ?p i) = load32 ?m2 (alloc_size_slot ?p i)"
    by (rule load32_cong, rule mo, rule slots_within [OF i1, of ?p]) simp
  show ?thesis
  proof (rule that [of "s1\<lparr>mem := m'\<rparr>"])
    show "process_malloc s sz = Some (a, s1\<lparr>mem := m'\<rparr>)"
      using i k m(1) align_same [OF a] align_same [OF aligned_add_pages [OF a, of "pages_of sz"]]
      by (simp add: process_malloc_def process_current_def set32_def Let_def pages_of_def set_slot_def)
    show "process_wf (s1\<lparr>mem := m'\<rparr>) ?p" using m(2) by simp
    show "load32 (mem (s1\<lparr>mem := m'\<rparr>)) (alloc_slot ?p i) = a" using c1 i1 by simp
    show "load32 (mem (s1\<lparr>mem := m'\<rparr>)) (alloc_size_slot ?p i) = sz" using c2 by simp
    show "process_pte (mem (s1\<lparr>mem := m'\<rparr>)) ?p va =
      (if page_dist a va < unat (pages_of sz) then (va AND 0xfffff000) OR 7 else process_pte (mem s) ?p va)" for va
      using m(4) [of va] by (simp add: w(3))
    show "mem (s1\<lparr>mem := m'\<rparr>) x = mem s1 x"
      if "\<not> space_page (mem s) ?v (x AND 0xfffff000)" "\<not> within ?p process_size x" for x
      using m(5) [of x] that set_slot_outside [OF i1 that(2)] by (simp add: w(2,4))
    show "process_space (mem (s1\<lparr>mem := m'\<rparr>)) ?p = ?v" "space_page (mem (s1\<lparr>mem := m'\<rparr>)) ?v = space_page (mem s) ?v"
      "pde (mem (s1\<lparr>mem := m'\<rparr>)) ?v va = pde (mem s) ?v va" for va
      using m(3,6,7) by (simp_all add: w(2,4,5))
  qed simp
qed

text \<open>A release maps again what it should unmap: \<open>(size + 4095) / size\<close> pages from the base.\<close>

definition pages_to_free :: "u32 \<Rightarrow> u32" where
  "pages_to_free n = (n + PAGE_SIZE - 1) div n"

lemma process_free_facts:
  assumes wf: "process_wf s (current_process s)"
    and i: "find_alloc (mem s) (current_process s) a 0 1024 = Some i"
    and n: "load32 (mem s) (alloc_size_slot (current_process s) i) = n" "n \<noteq> 0"
    and a: "a mod 4096 = 0" and room: "unat a + 4096 * unat (pages_to_free n) < 2 ^ 32"
  obtains s' where "process_free s a = Some (a, s')" and "kheap s' = free (kheap s) a"
    and "load32 (mem s') (alloc_slot (current_process s) i) = 0"
    and "\<And>va. process_pte (mem s') (current_process s) va =
      (if page_dist a va < unat (pages_to_free n) then (va AND 0xfffff000) OR 7
       else process_pte (mem s) (current_process s) va)"
proof -
  let ?p = "current_process s"
  note D = process_wfD [OF wf]
  have i1: "i < 1024" using find_alloc_Some [OF i] by simp
  let ?m2 = "set_slot ?p i 0 0 (mem s)"
  let ?s2 = "s\<lparr>mem := ?m2\<rparr>"
  have "\<forall>x. x \<in> kused s \<longrightarrow> mem s x = mem s x" by simp
  note w = set_slot_wf [OF wf i1 D(1,9) subset_refl this, of 0 0]
  obtain m' where m: "paging_map_range (mem ?s2) (process_space (mem ?s2) ?p) a a (a + pages_to_free n * 4096) 7 = (0, m')"
    "process_wf (?s2\<lparr>mem := m'\<rparr>) ?p" "process_space m' ?p = process_space (mem ?s2) ?p"
    "\<And>va. process_pte m' ?p va = (if page_dist a va < unat (pages_to_free n) then (va AND 0xfffff000) OR 7
           else process_pte (mem ?s2) ?p va)"
    "\<And>x. \<not> space_page (mem ?s2) (process_space (mem ?s2) ?p) (x AND 0xfffff000) \<Longrightarrow> m' x = mem ?s2 x"
    by (rule map_identity [OF w(1) a room]) (rule that)
  have mo: "m' x = ?m2 x" if "within ?p process_size x" for x
    using m(5) [of x] D(5) [OF that] by (simp add: w(2,4))
  have c1: "load32 m' (alloc_slot ?p i) = load32 ?m2 (alloc_slot ?p i)"
    by (rule load32_cong, rule mo, rule slots_within [OF i1, of ?p]) simp
  have "load32 (store32 (mem s) (alloc_slot ?p i) 0) (alloc_size_slot ?p i) = n"
    using slots_apart(3) [OF i1, of ?p] n(1) by (simp add: apart4_sym)
  then have "process_free s a = Some (a, kfree (s\<lparr>mem := m'\<rparr>) a)"
    using i n m(1) align_same [OF a]
    by (simp add: process_free_def process_current_def set32_def Let_def pages_to_free_def set_slot_def)
  then show ?thesis
  proof (rule that)
    show "process_pte (mem (kfree (s\<lparr>mem := m'\<rparr>) a)) ?p va = (if page_dist a va < unat (pages_to_free n)
       then (va AND 0xfffff000) OR 7 else process_pte (mem s) ?p va)" for va
      using m(4) [of va] by (simp add: w(3))
  qed (use c1 i1 in \<open>simp_all add: kfree_def\<close>)
qed

lemma pages_of_eq: "unat sz \<le> 2 ^ 32 - 4096 \<Longrightarrow> unat (pages_of sz) = (unat sz + 4095) div 4096"
proof -
  assume "unat sz \<le> 2 ^ 32 - 4096"
  then have "unat (sz + 4095) = unat sz + 4095" using unat_word_ariths(1) [of sz 4095] by simp
  moreover have "sz + 4096 - 1 = sz + 4095" by simp
  ultimately show ?thesis unfolding pages_of_def unat_div_4096 by metis
qed

text \<open>A block that the heap hands out does not reach the end of memory.\<close>

lemma malloc_room:
  assumes "heap_inv h" and "heap_below_top h" and "malloc h sz = Some (a, h')" and "a \<noteq> 0"
  shows "unat a + 4096 * unat (pages_of sz) < 2 ^ 32 \<and> unat sz \<le> 2 ^ 32 - 4096"
  using assms(1,3)
proof (cases rule: malloc_cases)
  case (ok i)
  have c: "unat sz \<le> 2 ^ 32 - 4096" "blocks_of sz = (unat sz + 4095) div 4096"
    using ok(4) unfolding blocks_of_eq by (simp_all split: if_splits)
  have "i < unat (num_entries h)" using ok(4,7) by simp
  from unat_block_addr [OF assms(1) this]
  have "unat a = unat (heap_base h) + 4096 * i" using ok(1) by simp
  moreover have "4096 * i + 4096 * blocks_of sz \<le> 4096 * unat (num_entries h)" using ok(7) by simp
  moreover have "unat (heap_base h) + 4096 * unat (num_entries h) < 2 ^ 32"
    using assms(2) by (simp only: heap_below_top_def)
  ultimately have "unat a + 4096 * blocks_of sz < 2 ^ 32" by linarith
  moreover have "unat (pages_of sz) = blocks_of sz" using c pages_of_eq [of sz] by metis
  ultimately show ?thesis using c(1) by simp
qed (use assms(4) in auto)

lemma pages_of_room: "4096 * unat (pages_of sz) < 2 ^ 32"
proof -
  have "unat (pages_of sz) = unat (sz + 4096 - 1) div 4096" by (simp only: pages_of_def unat_div_4096)
  moreover have "unat (sz + 4096 - 1) < 2 ^ 32" using unsigned_less [of "sz + 4096 - 1", where ?'a = nat] by simp
  ultimately show ?thesis by (simp add: less_mult_imp_div_less)
qed

lemma page_dist_zero: "page_dist 0 va = unat va div 4096"
  by (simp add: page_dist_def unat_page_base)

section \<open>A small process\<close>

text \<open>Four blocks are in use: three of a process at \<open>0x1000000\<close>, one of its task at
  \<open>0x1003000\<close>; the space is the one that \<open>init_task\<close> creates.\<close>

definition demo_proc :: procst where
  "demo_proc = \<lparr>mem = store32 (\<lambda>_. 0) 0x1000204 0x1003000,
     kheap = four_blocks,
     VGA_BASE = 0xB8000, cursor_x = 0, cursor_y = 0, device = (\<lambda>h p. 0), io_log = [], cr3 = 0,
     data_segment = 0x10, current_page_directory = 0, kernel_space = 0, local_addr = (\<lambda>l. 0x1FE000),
     fs_list = [], fd_list = [], disks = [], disks_already_initialised = 0, fat16_object = 0,
     cur_task = 0, task_list_head = 0, task_list_tail = 0,
     current_process = 0x1000000, process_list = replicate 16 0\<rparr>"

lemma demo_proc_heap:
  "kinv demo_proc" "kavail demo_proc = 25596" "heap_below_top (kheap demo_proc)"
  "x \<in> kused demo_proc \<longleftrightarrow> within 0x1000000 0x4000 x"
  by (simp_all add: demo_proc_def four_blocks heap_below_top_def)

lemma demo_process:
  obtains s where "process_wf s (current_process s)" and "current_process s = 0x1000000"
    and "kavail s = 24569" and "\<forall>i<1024. load32 (mem s) (alloc_slot (current_process s) i) = 0"
    and "\<And>va. process_pte (mem s) (current_process s) va = (va AND 0xfffff000) OR 5"
    and "rest s = rest demo_proc" and "0x1000000 \<in> kused s"
    and "\<And>va. pde_present (mem s) (process_space (mem s) (current_process s)) va"
proof -
  let ?d = demo_proc and ?p = "0x1000000 :: u32" and ?t = "0x1003000 :: u32"
  have "1027 \<le> kavail ?d" "bit (5 :: u8) 0" by (simp_all add: demo_proc_heap)
  from create_space_facts [OF demo_proc_heap(1) this] obtain v s' where
    c: "create_virtual_address_space ?d 5 = Some (v, s')" "v \<noteq> 0" "kinv s'" "vspace_ok (mem s') v"
    "kavail ?d = kavail s' + 1027"
    "\<And>va. pte (mem s') (vspace_pd (mem s') v) va = (va AND 0xfffff000) OR ucast (5 :: u8)"
    "\<And>x. x \<notin> kused ?d \<or> mem s' x = mem ?d x" "s' = ?d\<lparr>mem := mem s', kheap := kheap s'\<rparr>"
    "kused ?d \<subseteq> kused s'" "\<And>q. space_page (mem s') v q \<Longrightarrow> q \<in> kused s' \<and> q \<notin> kused ?d"
    "\<And>va. mmu (mem s') (cr3 (load_page_directory s' (vspace_pd (mem s') v))) va = Some va" by blast
  let ?m = "store32 (mem s') ?t v"
  let ?s = "s'\<lparr>mem := ?m\<rparr>"
  note us = demo_proc_heap(4)
  have tp: "x \<in> kused ?d" if "within ?t 4 x" for x
    using within_tail [of "0x3000" "0x4000" ?p x] within_head [of 4 "0x1000" ?t x] that by (simp add: us)
  have pp: "x \<in> kused ?d" if "within ?p process_size x" for x
    using within_head [of 9760 "0x4000" ?p x] that by (simp add: us)
  have ntp: "\<not> within ?p process_size x" if "within ?t 4 x" for x
  proof
    assume "within ?p process_size x"
    moreover have "x - ?p = (x - ?t) + 0x3000" by simp
    moreover have "\<not> d + 0x3000 < 9760" if "d < 4" for d :: u32
      using that unat_word_ariths(1) [of d "0x3000"] by (simp add: word_less_nat_alt)
    ultimately show False using that by (simp only: within_def)
  qed
  have nsp: "\<not> space_page (mem s') v (x AND 0xfffff000)" if "x \<in> kused ?d" for x
    using c(10) [of "x AND 0xfffff000"] kused_page [OF demo_proc_heap(1), of x] that by blast
  have "\<forall>x. space_page (mem s') v (x AND 0xfffff000) \<longrightarrow> ?m x = mem s' x"
    using nsp tp store32_other by metis
  note ag = vspace_agree [OF c(4) this] and mg = mmu_agree(2) [OF c(4) this]
  have "pde_present (mem s') v va" for va
    using c(11) [of va] mmu_pte [OF c(4), of va]
    by (auto simp: load_page_directory_def load_pd_to_cr3_def split: if_splits)
  then have pde: "pde_present ?m v va" for va by (simp add: mg)
  have low: "load32 ?m a = load32 (mem ?d) a"
    if "\<And>x. within a 4 x \<Longrightarrow> within ?p process_size x" for a
    by (rule load32_cong) (use that pp ntp c(7) store32_other in metis)
  have task: "process_task ?m ?p = ?t"
    unfolding process_task_def
    by (subst low) (use within_nat_field [of ?p 516] in \<open>simp_all add: demo_proc_def\<close>)
  have space: "process_space ?m ?p = v" by (simp add: process_space_def task task_space_def)
  have cp: "current_process ?s = ?p" "rest ?s = rest ?d"
    using create_vspace_rest [OF c(1)] by (subst c(8), simp add: demo_proc_def, simp)
  have top: "heap_below_top (kheap s')"
    using rest_eqD(11,12) [OF create_vspace_rest [OF c(1)]] demo_proc_heap(3) by (simp add: heap_below_top_def)
  have wf: "process_wf ?s ?p"
    unfolding process_wf_def Let_def using c(3,9,10) top ag(4,6) pp tp ntp nsp
    by (auto simp: space task)
  have slot: "load32 ?m (alloc_slot ?p i) = 0" if "i < 1024" for i
  proof -
    have "load32 ?m (alloc_slot ?p i) = load32 (mem ?d) (alloc_slot ?p i)"
      by (rule low) (rule slots_within [OF that], simp)
    also have "\<dots> = load32 (\<lambda>_. 0) (alloc_slot ?p i)"
      using slots_apart(1) [OF that, of ?p] by (simp add: demo_proc_def apart4_sym)
    finally show ?thesis by (simp add: load32_def)
  qed
  show ?thesis
  proof (rule that [of ?s])
    show "kavail ?s = 24569" using c(5) by (simp add: demo_proc_heap)
    show "process_pte (mem ?s) (current_process ?s) va = (va AND 0xfffff000) OR 5" for va
      unfolding cp(1) using c(6) [of va] ag(1,5) by (simp add: process_pte_def space)
    show "?p \<in> kused ?s" using c(9) pp [of ?p] by (auto simp: within_def)
    show "pde_present (mem ?s) (process_space (mem ?s) (current_process ?s)) va" for va
      unfolding cp(1) using pde by (simp add: space)
  qed (use wf cp slot in simp_all)
qed

lemma demo_find:
  assumes "\<forall>i<1024. load32 m (alloc_slot p i) = 0"
  shows "find_alloc m p 0 0 1024 = Some 0"
  using assms find_alloc.simps(2) [of m p 0 0 1023] by simp

lemma process_malloc_cases:
  assumes "process_malloc s sz = Some (a, s')"
  obtains "a = 0" and "s' = s" and "\<forall>i<1024. load32 (mem s) (alloc_slot (current_process s) i) \<noteq> 0"
  | i s1 where "find_alloc (mem s) (current_process s) 0 0 1024 = Some i" and "kzalloc s sz = Some (a, s1)"
proof (cases "find_alloc (mem s) (current_process s) 0 0 1024")
  case None
  then show ?thesis
    using assms that(1) find_alloc_None [OF None] by (simp add: process_malloc_def process_current_def)
next
  case (Some i)
  then obtain b s1 where "kzalloc s sz = Some (b, s1)"
    using assms by (auto simp: process_malloc_def process_current_def Let_def elim!: option_bindE)
  then show ?thesis
    using Some assms that(2) by (simp add: process_malloc_def process_current_def Let_def)
qed

section \<open>Properties\<close>

text \<open>C10: \<open>process_malloc\<close> keeps the structures of the current process well formed, whether the heap
  serves the request, refuses it, or no slot is left.\<close>

theorem process_malloc_keeps_process:
  assumes "process_wf s (current_process s)" and "process_malloc s sz = Some (a, s')"
  shows "process_wf s' (current_process s) \<and> current_process s' = current_process s"
  using assms(2)
proof (cases rule: process_malloc_cases)
  case 1
  then show ?thesis using assms(1) by simp
next
  case (2 i s1)
  note D = process_wfD [OF assms(1)]
  have "unat a + 4096 * unat (pages_of sz) < 2 ^ 32"
    using malloc_room [OF D(1,9) kzalloc_kheap [OF 2(2)]] pages_of_room [of sz] by (cases "a = 0") simp_all
  from process_malloc_facts [OF assms(1) 2 this] obtain s'' where s: "process_malloc s sz = Some (a, s'')"
    "s'' = s1\<lparr>mem := mem s''\<rparr>" "process_wf s'' (current_process s)" by metis
  have "current_process s1 = current_process s" by (subst kzalloc_frame [OF 2(2)]) simp
  then have "current_process s'' = current_process s" by (subst s(2)) simp
  then show ?thesis using s(1,3) assms(2) by simp
qed

theorem process_malloc_keeps_process_witness:
  "\<exists>(s :: procst) s'. process_malloc s 100 = Some (fst (the (process_malloc s 100)), s') \<and> process_wf s' (current_process s)"
proof -
  obtain s :: procst where d: "process_wf s (current_process s)"
    "\<forall>i<1024. load32 (mem s) (alloc_slot (current_process s) i) = 0"
    by (rule demo_process) blast
  obtain a s1 where k: "kzalloc s 100 = Some (a, s1)" using kz.alloc_total [OF process_wfD(1) [OF d(1)]] by blast
  then obtain s' where "process_malloc s 100 = Some (a, s')"
    by (simp add: process_malloc_def process_current_def Let_def demo_find [OF d(2)])
  then show ?thesis using process_malloc_keeps_process [OF d(1)] by force
qed

text \<open>C9: when the heap serves it, \<open>process_malloc\<close> returns a page-aligned block of zero bytes that no
  one else uses, records it with its size in a slot that was free, and maps exactly the pages of the
  block, each to itself and writable by the user; every other page keeps its entry.\<close>

theorem process_malloc_maps_block:
  assumes "process_wf s (current_process s)" and "process_malloc s sz = Some (a, s')" and "a \<noteq> 0"
  shows "a mod 4096 = 0
    \<and> (\<forall>x. \<not> within a sz x \<or> mem s' x = 0 \<and> x \<notin> kused s \<and> x \<in> kused s')
    \<and> (\<exists>i<1024. load32 (mem s) (alloc_slot (current_process s) i) = 0
          \<and> load32 (mem s') (alloc_slot (current_process s) i) = a
          \<and> load32 (mem s') (alloc_size_slot (current_process s) i) = sz)
    \<and> (\<forall>va. process_pte (mem s') (current_process s) va =
          (if page_dist a va < (unat sz + 4095) div 4096 then (va AND 0xfffff000) OR 7
           else process_pte (mem s) (current_process s) va))"
  using assms(2)
proof (cases rule: process_malloc_cases)
  case 1
  then show ?thesis using assms(3) by simp
next
  case (2 i s1)
  note D = process_wfD [OF assms(1)] and room = malloc_room [OF process_wfD(1,9) [OF assms(1)] kzalloc_kheap [OF 2(2)] assms(3)]
  from process_malloc_facts [OF assms(1) 2 conjunct1 [OF room]] obtain s'' where
    s: "process_malloc s sz = Some (a, s'')" "s'' = s1\<lparr>mem := mem s''\<rparr>"
    "load32 (mem s'') (alloc_slot (current_process s) i) = a"
    "load32 (mem s'') (alloc_size_slot (current_process s) i) = sz"
    "\<And>va. process_pte (mem s'') (current_process s) va =
      (if page_dist a va < unat (pages_of sz) then (va AND 0xfffff000) OR 7
       else process_pte (mem s) (current_process s) va)"
    "\<And>x. \<not> space_page (mem s) (process_space (mem s) (current_process s)) (x AND 0xfffff000) \<Longrightarrow>
      \<not> within (current_process s) process_size x \<Longrightarrow> mem s'' x = mem s1 x" by metis
  have e: "s'' = s'" using s(1) assms(2) by simp
  have "kheap s'' = kheap s1" by (subst s(2)) simp
  then have "mem s' x = 0 \<and> x \<notin> kused s \<and> x \<in> kused s'" if "within a sz x" for x
    using kz.alloc_zeroed [OF D(1) 2(2) assms(3) that] kz.alloc_fresh [OF D(1) 2(2) assms(3) that]
      kz.alloc_used [OF D(1) 2(2) assms(3) that] s(6) [of x] D(3,4) kused_page [OF D(1), of x] e by auto
  moreover have "unat (pages_of sz) = (unat sz + 4095) div 4096" using room pages_of_eq by blast
  ultimately show ?thesis
    using kz.alloc_aligned [OF D(1) 2(2)] find_alloc_Some [OF 2(1)] s(3-5) unfolding e by auto
qed

theorem process_malloc_maps_block_witness:
  "\<exists>(s :: procst) a s'. process_malloc s 100 = Some (a, s') \<and> a \<noteq> 0 \<and> mem s' (a + 99) = 0
     \<and> process_pte (mem s) (current_process s) a = a OR 5 \<and> process_pte (mem s') (current_process s) a = a OR 7"
proof -
  obtain s :: procst where d: "process_wf s (current_process s)" "kavail s = 24569"
    "\<forall>i<1024. load32 (mem s) (alloc_slot (current_process s) i) = 0"
    "\<And>va. process_pte (mem s) (current_process s) va = (va AND 0xfffff000) OR 5"
    by (rule demo_process) blast
  have "0 < kavail s" "(0 :: u32) < 100" "(100 :: u32) \<le> 4096" by (simp_all add: d(2))
  from pages.alloc_pageE [OF process_wfD(1) [OF d(1)] this] obtain a s1 where
    k: "kzalloc s 100 = Some (a, s1)" "a \<noteq> 0" by metis
  then obtain s' where m: "process_malloc s 100 = Some (a, s')"
    by (simp add: process_malloc_def process_current_def Let_def demo_find [OF d(3)])
  note t = process_malloc_maps_block [OF d(1) m k(2)]
  have a: "a AND 0xfffff000 = a" by (rule aligned_page_base [OF conjunct1 [OF t]])
  have "within a 100 (a + 99)" by (simp add: within_def)
  moreover have "page_dist a a = 0" using page_dist_0 [OF conjunct1 [OF t]] a by simp
  ultimately have "mem s' (a + 99) = 0" "process_pte (mem s') (current_process s) a = a OR 7"
    using t a by auto
  then show ?thesis using m k(2) d(4) [of a] a by metis
qed

text \<open>C34: when the heap cannot serve it, \<open>process_malloc\<close> answers null and all the same maps the
  first \<open>size\<close> bytes of physical memory into the process, page by page and writable by the user.\<close>

theorem process_malloc_failure_opens_memory:
  assumes "process_wf s (current_process s)" and "i < 1024"
    and "load32 (mem s) (alloc_slot (current_process s) i) = 0"
    and "kzalloc s sz = Some (0, s1)" and "unat sz \<le> 2 ^ 32 - 4096"
  shows "\<exists>s'. process_malloc s sz = Some (0, s')
    \<and> (\<forall>va. process_pte (mem s') (current_process s) va =
          (if unat va div 4096 < (unat sz + 4095) div 4096 then (va AND 0xfffff000) OR 7
           else process_pte (mem s) (current_process s) va))"
proof -
  obtain k where k: "find_alloc (mem s) (current_process s) 0 0 1024 = Some k"
    using find_alloc_None [of "mem s" "current_process s" 0 0 1024 i] assms(2,3)
    by (cases "find_alloc (mem s) (current_process s) 0 0 1024") auto
  have "unat (0 :: u32) + 4096 * unat (pages_of sz) < 2 ^ 32" using pages_of_room [of sz] by simp
  from process_malloc_facts [OF assms(1) k assms(4) this] show ?thesis
    by (metis page_dist_zero pages_of_eq [OF assms(5)])
qed

lemma malloc_whole_memory:
  assumes "kinv s" and "x \<in> kused s"
  shows "malloc (kheap s) 0xFFFFF000 = Some (0, kheap s)"
proof -
  obtain a h where m: "malloc (kheap s) 0xFFFFF000 = Some (a, h)" using malloc_total [OF assms(1)] by blast
  show ?thesis
    using assms(1) m
  proof (cases rule: malloc_cases)
    case (ok j)
    have b: "blocks_of 0xFFFFF000 = 1048575" by (simp add: blocks_of_eq)
    have n: "0 < unat (heap_base (kheap s))" using assms(1) by (simp add: heap_inv_def unat_gt_0)
    have "unat (num_entries (kheap s)) < 1048576" using assms(1) n by (simp add: heap_inv_def)
    then have "j = 0" "unat (num_entries (kheap s)) = 1048575" using ok(7) b by simp_all
    then have "run_free (kheap s) 0 (unat (num_entries (kheap s)))" using ok(5) b by simp
    then show ?thesis using assms(2) by (auto simp: run_free_def used_def)
  qed (use m in simp)
qed

theorem process_malloc_failure_opens_memory_witness:
  "\<exists>(s :: procst) s'. process_malloc s 0xFFFFF000 = Some (0, s')
     \<and> process_pte (mem s) (current_process s) 0x100000 = 0x100005
     \<and> process_pte (mem s') (current_process s) 0x100000 = 0x100007"
proof -
  obtain s :: procst where d: "process_wf s (current_process s)"
    "\<forall>i<1024. load32 (mem s) (alloc_slot (current_process s) i) = 0"
    "\<And>va. process_pte (mem s) (current_process s) va = (va AND 0xfffff000) OR 5" "0x1000000 \<in> kused s"
    by (rule demo_process) blast
  have "kzalloc s 0xFFFFF000 = Some (0, s)"
    using malloc_whole_memory [OF process_wfD(1) [OF d(1)] d(4)] by (simp add: kzalloc_def)
  from process_malloc_failure_opens_memory [OF d(1) _ _ this, of 0] d(2) obtain s' where
    "process_malloc s 0xFFFFF000 = Some (0, s')"
    "\<And>va. process_pte (mem s') (current_process s) va =
      (if unat va div 4096 < (unat (0xFFFFF000 :: u32) + 4095) div 4096 then (va AND 0xfffff000) OR 7
       else process_pte (mem s) (current_process s) va)" by auto
  then show ?thesis using d(3) [of "0x100000"] by (intro exI [of _ s] exI [of _ s']) simp
qed

text \<open>\<open>process_free\<close> of a block of \<open>n\<close> bytes gives its first block back to the heap and maps
  \<open>(n + 4095) / n\<close> pages from its base into the process again, writable by the user. For
  \<open>n = 1\<close> these are 4096 pages, 16 MB, of which one was allocated.\<close>

theorem process_free_maps_again:
  assumes "process_wf s (current_process s)"
    and "find_alloc (mem s) (current_process s) a 0 1024 = Some i"
    and "load32 (mem s) (alloc_size_slot (current_process s) i) = n" and "n \<noteq> 0"
    and "a mod 4096 = 0" and "unat a + 4096 * unat ((n + 4095) div n) < 2 ^ 32"
  shows "\<exists>s'. process_free s a = Some (a, s') \<and> kheap s' = free (kheap s) a
    \<and> load32 (mem s') (alloc_slot (current_process s) i) = 0
    \<and> (\<forall>va. process_pte (mem s') (current_process s) va =
          (if page_dist a va < unat ((n + 4095) div n) then (va AND 0xfffff000) OR 7
           else process_pte (mem s) (current_process s) va))"
proof -
  have e: "(n + 4095) div n = pages_to_free n" by (simp add: pages_to_free_def algebra_simps)
  show ?thesis
    using process_free_facts [OF assms(1-5) assms(6) [unfolded e]] unfolding e by metis
qed

text \<open>A process allocates one byte, frees it, and can then write 16 MB of the kernel heap.\<close>

theorem process_free_maps_again_witness:
  "\<exists>(s :: procst) a s1 s2. process_malloc s 1 = Some (a, s1) \<and> a \<noteq> 0 \<and> process_free s1 a = Some (a, s2)
     \<and> process_pte (mem s1) (current_process s) (a + 0xFFF000) = (a + 0xFFF000) OR 5
     \<and> process_pte (mem s2) (current_process s) (a + 0xFFF000) = (a + 0xFFF000) OR 7"
proof -
  obtain s :: procst where d: "process_wf s (current_process s)" "kavail s = 24569"
    "\<forall>i<1024. load32 (mem s) (alloc_slot (current_process s) i) = 0"
    "\<And>va. process_pte (mem s) (current_process s) va = (va AND 0xfffff000) OR 5" "rest s = rest demo_proc"
    by (rule demo_process) blast
  let ?p = "current_process s"
  note D = process_wfD [OF d(1)]
  have "0 < kavail s" "(0 :: u32) < 1" "(1 :: u32) \<le> 4096" by (simp_all add: d(2))
  from pages.alloc_pageE [OF D(1) this] obtain a s1 where
    k: "kzalloc s 1 = Some (a, s1)" "a \<noteq> 0" "kinv s1" "a \<in> kused s1" by metis
  have r: "unat a + 4096 * unat (pages_of 1) < 2 ^ 32"
    using malloc_room [OF D(1,9) kzalloc_kheap [OF k(1)] k(2)] by simp
  obtain s2 where m: "process_malloc s 1 = Some (a, s2)" "s2 = s1\<lparr>mem := mem s2\<rparr>" "process_wf s2 ?p"
    "load32 (mem s2) (alloc_slot ?p 0) = a" "load32 (mem s2) (alloc_size_slot ?p 0) = 1"
    "\<And>va. process_pte (mem s2) ?p va =
      (if page_dist a va < unat (pages_of 1) then (va AND 0xfffff000) OR 7 else process_pte (mem s) ?p va)"
    by (rule process_malloc_facts [OF d(1) demo_find [OF d(3)] k(1) r]) (rule that)
  have c: "current_process s2 = ?p" by (subst m(2), subst kzalloc_frame [OF k(1)]) simp
  have wf: "process_wf s2 (current_process s2)" using m(3) c by simp
  have f: "find_alloc (mem s2) (current_process s2) a 0 1024 = Some 0"
    using find_alloc.simps(2) [of "mem s2" "current_process s2" a 0 1023] m(4) by (simp add: c)
  have sz: "load32 (mem s2) (alloc_size_slot (current_process s2) 0) = 1" using m(5) by (simp add: c)
  have a: "a mod 4096 = 0" by (rule kz.alloc_aligned [OF D(1) k(1)])
  have "num_entries (kheap s1) = 25600" "heap_base (kheap s1) = 0x1000000"
    using rest_eqD(11,12) [OF kzalloc_rest [OF k(1)]] rest_eqD(11,12) [OF d(5)] by (simp_all add: demo_proc_def)
  then have "unat a < 0x7400000" using used_in_heap [OF k(3,4)] by simp
  then have room: "unat a + 4096 * unat ((1 + 4095 :: u32) div 1) < 2 ^ 32" by simp
  let ?x = "a + 0xFFF000"
  have x: "?x AND 0xfffff000 = ?x" using mod_4096_add_mult [of a "0xFFF"] a by (intro aligned_page_base) simp
  then have "page_dist a ?x = 4095" by (simp add: page_dist_def)
  moreover have "unat (pages_of 1) = 1" by (simp add: pages_of_def)
  moreover obtain s3 where s3: "process_free s2 a = Some (a, s3)"
    "\<And>va. process_pte (mem s3) ?p va = (if page_dist a va < unat ((1 + 4095 :: u32) div 1)
       then (va AND 0xfffff000) OR 7 else process_pte (mem s2) ?p va)"
    using process_free_maps_again [OF wf f sz _ a room] by (auto simp: c)
  ultimately have "process_pte (mem s2) ?p ?x = ?x OR 5" "process_pte (mem s3) ?p ?x = ?x OR 7"
    using m(6) [of ?x] s3(2) [of ?x] d(4) [of ?x] x by simp_all
  then show ?thesis using m(1) k(2) s3(1) by metis
qed

end
