(* ===== verification/Process_Image.thy ===== *)
theory Process_Image
  imports Process_Mem
begin

text \<open>
  The memory image of a process: what \<open>process_map_memory\<close> (\<^verbatim>\<open>process.c\<close>)
  makes of the address space of a new process, as a function of the program headers of its file, and
  what the processor then finds at the addresses of a segment.
\<close>

section \<open>What a mapping keeps\<close>

definition space_kept :: "memory \<Rightarrow> memory \<Rightarrow> u32 \<Rightarrow> bool" where
  "space_kept m m' p \<longleftrightarrow> process_space m' p = process_space m p
     \<and> space_page m' (process_space m p) = space_page m (process_space m p)
     \<and> pde_present m' (process_space m p) = pde_present m (process_space m p)
     \<and> page_directory_entries m' (vspace_pd m' (process_space m p))
         = page_directory_entries m (vspace_pd m (process_space m p))
     \<and> (\<forall>x. space_page m (process_space m p) (x AND 0xfffff000) \<or> m' x = m x)"

lemma space_kept_refl: "space_kept m m p"
  by (simp add: space_kept_def)

lemma space_kept_trans: "space_kept m1 m2 p \<Longrightarrow> space_kept m2 m3 p \<Longrightarrow> space_kept m1 m3 p"
  by (simp add: space_kept_def) metis

lemma space_kept_mem:
  "space_kept m m' p \<Longrightarrow> \<not> space_page m (process_space m p) (x AND 0xfffff000) \<Longrightarrow> m' x = m x"
  by (simp add: space_kept_def) metis

lemma map_pages_kept:
  assumes "process_wf (s\<lparr>mem := m\<rparr>) p" and "va mod 4096 = 0" "pa mod 4096 = 0" "e mod 4096 = 0" and "pa \<le> e"
  shows "\<exists>m'. paging_map_range m (process_space m p) va pa e fl = (0, m') \<and> process_wf (s\<lparr>mem := m'\<rparr>) p
    \<and> space_kept m m' p \<and> process_pte m' p = pages_mapped va pa (unat (e - pa) div 4096) fl (process_pte m p)"
proof (rule map_pages [OF assms, of fl])
  fix m'
  assume "paging_map_range (mem (s\<lparr>mem := m\<rparr>)) (process_space (mem (s\<lparr>mem := m\<rparr>)) p) va pa e fl = (0, m')"
    "process_wf (s\<lparr>mem := m\<rparr>\<lparr>mem := m'\<rparr>) p" and m: "process_space m' p = process_space (mem (s\<lparr>mem := m\<rparr>)) p"
    "space_page m' (process_space (mem (s\<lparr>mem := m\<rparr>)) p) = space_page (mem (s\<lparr>mem := m\<rparr>)) (process_space (mem (s\<lparr>mem := m\<rparr>)) p)"
    "process_pte m' p = pages_mapped va pa (unat (e - pa) div 4096) fl (process_pte (mem (s\<lparr>mem := m\<rparr>)) p)"
    and fr: "\<And>x. \<not> space_page (mem (s\<lparr>mem := m\<rparr>)) (process_space (mem (s\<lparr>mem := m\<rparr>)) p) (x AND 0xfffff000) \<Longrightarrow> m' x = mem (s\<lparr>mem := m\<rparr>) x"
    and "pde_present m' (process_space (mem (s\<lparr>mem := m\<rparr>)) p) = pde_present (mem (s\<lparr>mem := m\<rparr>)) (process_space (mem (s\<lparr>mem := m\<rparr>)) p)"
    and "page_directory_entries m' (vspace_pd m' (process_space (mem (s\<lparr>mem := m\<rparr>)) p))
      = page_directory_entries (mem (s\<lparr>mem := m\<rparr>)) (vspace_pd (mem (s\<lparr>mem := m\<rparr>)) (process_space (mem (s\<lparr>mem := m\<rparr>)) p))"
  then show ?thesis using fr by (intro exI [of _ m']) (auto simp: space_kept_def)
qed

section \<open>Segments\<close>

lemma align_lower_eq: "paging_align_to_page_lower x = x AND 0xfffff000"
proof -
  have "x - x mod 4096 = x AND 0xfffff000" using page_base_split [of x] by (simp add: algebra_simps)
  then show ?thesis
    unfolding paging_align_to_page_lower_def by (metis diff_zero)
qed

lemma align_upper_aligned: "paging_align_to_page_upper x mod 4096 = 0"
proof (cases "x mod 4096 = 0")
  case False
  have "paging_align_to_page_upper x = (x AND 0xfffff000) + 1 * 4096"
    using False page_base_split [of x] by (simp add: paging_align_to_page_upper_def algebra_simps)
  then show ?thesis by (simp only: aligned_add_pages page_base_aligned)
qed (simp add: paging_align_to_page_upper_def)

text \<open>One program header: the pages of the file that its bytes touch, mapped from the page of its
  virtual address on; writable only with the flag \<open>PF_W\<close>.\<close>

definition segment_flags :: "Elf32_Phdr \<Rightarrow> u32" where
  "segment_flags h = (if ph_flags h AND 2 \<noteq> 0 then 7 else 5)"

definition segment_first :: "u32 \<Rightarrow> Elf32_Phdr \<Rightarrow> u32" where
  "segment_first data h = (data + ph_offset h) AND 0xfffff000"

definition segment_end :: "u32 \<Rightarrow> Elf32_Phdr \<Rightarrow> u32" where
  "segment_end data h = paging_align_to_page_upper (data + ph_offset h + ph_memsz h)"

definition segment_pages :: "u32 \<Rightarrow> Elf32_Phdr \<Rightarrow> nat" where
  "segment_pages data h = unat (segment_end data h - segment_first data h) div 4096"

definition segment_mapped :: "u32 \<Rightarrow> Elf32_Phdr \<Rightarrow> (u32 \<Rightarrow> u32) \<Rightarrow> u32 \<Rightarrow> u32" where
  "segment_mapped data h = pages_mapped (ph_vaddr h AND 0xfffff000) (segment_first data h)
     (segment_pages data h) (segment_flags h)"

text \<open>The only segments refused are those whose last page would be past the end of memory.\<close>

definition segment_fits :: "u32 \<Rightarrow> Elf32_Phdr \<Rightarrow> bool" where
  "segment_fits data h \<longleftrightarrow> segment_first data h \<le> segment_end data h"

definition headers_apart :: "memory \<Rightarrow> u32 \<Rightarrow> u32 \<Rightarrow> bool" where
  "headers_apart m p f \<longleftrightarrow> (\<forall>x. header_byte m f x \<longrightarrow> \<not> space_page m (process_space m p) (x AND 0xfffff000))"

lemma headers_kept:
  assumes "space_kept m m' p" and "headers_apart m p f"
  shows "elf_data m' f = elf_data m f" and "e_phnum m' (elf_data m f) = e_phnum m (elf_data m f)"
    and "segments m' f = segments m f" and "headers_apart m' p f"
proof -
  have "\<And>x. header_byte m f x \<Longrightarrow> m' x = m x"
    using assms(2) space_kept_mem [OF assms(1)] by (auto simp: headers_apart_def)
  note h = headers_cong [OF this]
  show "elf_data m' f = elf_data m f" "e_phnum m' (elf_data m f) = e_phnum m (elf_data m f)"
    "segments m' f = segments m f" by (simp_all add: h)
  show "headers_apart m' p f" using assms by (simp add: headers_apart_def space_kept_def h)
qed

lemma map_elf_loop_spec:
  assumes "process_wf (s\<lparr>mem := m\<rparr>) p" and "d = elf_data m f" and "headers_apart m p f"
    and "\<forall>h\<in>set (drop i (segments m f)). segment_fits d h"
  shows "\<exists>m'. map_elf_loop m p f d i = (0, m') \<and> process_wf (s\<lparr>mem := m'\<rparr>) p \<and> space_kept m m' p
    \<and> process_pte m' p = fold (segment_mapped d) (drop i (segments m f)) (process_pte m p)"
  using assms
proof (induction m p f d i rule: map_elf_loop.induct)
  case (1 m p f d i)
  show ?case
  proof (cases "i < unat (e_phnum m d)")
    case False
    then show ?thesis
      using 1(2,3) by (subst map_elf_loop.simps) (simp add: segments_def space_kept_refl)
  next
    case True
    let ?h = "segments m f ! i" and ?a = "ELF_get_Phdr m f (of_nat i)"
    have len: "i < length (segments m f)" and h: "?h = phdr_at m ?a"
      using True 1(3) by (simp_all add: segments_def)
    have dr: "drop i (segments m f) = ?h # drop (i + 1) (segments m f)"
      using Cons_nth_drop_Suc [OF len] by simp
    have "segment_fits d ?h" using 1(5) dr by simp
    then have le: "segment_first d ?h \<le> segment_end d ?h" by (simp add: segment_fits_def)
    obtain m1 where m1: "paging_map_range m (process_space m p) (ph_vaddr ?h AND 0xfffff000) (segment_first d ?h)
          (segment_end d ?h) (segment_flags ?h) = (0, m1)" "process_wf (s\<lparr>mem := m1\<rparr>) p" "space_kept m m1 p"
      "process_pte m1 p = segment_mapped d ?h (process_pte m p)"
      using map_pages_kept [OF 1(2) _ _ _ le, of "ph_vaddr ?h AND 0xfffff000" "segment_flags ?h"]
      by (auto simp: segment_mapped_def segment_pages_def segment_first_def segment_end_def align_upper_aligned)
    have call: "paging_map_range m (process_space m p) (paging_align_to_page_lower (p_vaddr m ?a))
        (paging_align_to_page_lower (elf_data m f + p_offset m ?a))
        (paging_align_to_page_upper (elf_data m f + p_offset m ?a + p_memsz m ?a))
        (if p_flags m ?a AND 2 \<noteq> 0 then PAGE_PRESENT OR PAGE_USER_ACCESS OR PAGE_WRITE_ACCESS
         else PAGE_PRESENT OR PAGE_USER_ACCESS) = (0, m1)"
      using m1(1) 1(3) unfolding h segment_first_def segment_end_def segment_flags_def align_lower_eq
      by (simp add: phdr_at_def split: if_splits)
    have step: "map_elf_loop m p f d i = map_elf_loop m1 p f d (i + 1)"
      using True call by (subst map_elf_loop.simps) (simp add: Let_def)
    note hk = headers_kept [OF m1(3) 1(4)]
    have "\<exists>m'. map_elf_loop m1 p f d (i + 1) = (0, m') \<and> process_wf (s\<lparr>mem := m'\<rparr>) p \<and> space_kept m1 m' p
      \<and> process_pte m' p = fold (segment_mapped d) (drop (i + 1) (segments m1 f)) (process_pte m1 p)"
    proof (rule "1.IH" [OF True refl refl refl call [symmetric] refl])
      show "process_wf (s\<lparr>mem := m1\<rparr>) p" by (rule m1(2))
    qed (use 1(3,5) dr hk in simp_all)
    then show ?thesis
      using space_kept_trans [OF m1(3)] by (auto simp: step dr hk m1(4))
  qed
qed

section \<open>The image\<close>

definition process_image :: "memory \<Rightarrow> u32 \<Rightarrow> u32 \<Rightarrow> u32" where
  "process_image m p =
     (let t = process_pte m p; data = process_data m p;
          t = (if process_file_type m p = PROCESS_BIN_FILE
               then pages_mapped TASK_DEFAULT_START data
                 (unat (paging_align_to_page_upper (data + process_data_size m p) - data) div 4096) 7 t
               else if process_file_type m p = PROCESS_ELF_FILE
               then fold (segment_mapped (elf_data m data)) (segments m data) t
               else t)
      in pages_mapped TASK_DEFAULT_STACK_END (process_stack m p) 4 7 t)"

text \<open>What the callers have set up: a page-aligned stack, and data that the loader can map.\<close>

definition image_ready :: "memory \<Rightarrow> u32 \<Rightarrow> bool" where
  "image_ready m p \<longleftrightarrow>
     (let data = process_data m p
      in process_stack m p mod 4096 = 0 \<and> unat (process_stack m p) + 16384 < 2 ^ 32
       \<and> (process_file_type m p = PROCESS_BIN_FILE \<longrightarrow> data mod 4096 = 0
            \<and> data \<le> paging_align_to_page_upper (data + process_data_size m p))
       \<and> (process_file_type m p = PROCESS_ELF_FILE \<longrightarrow> headers_apart m p data
            \<and> (\<forall>h\<in>set (segments m data). segment_fits (elf_data m data) h)))"

lemma process_fields_kept:
  assumes "process_wf (s\<lparr>mem := m\<rparr>) p" and "space_kept m m' p"
  shows "process_stack m' p = process_stack m p" and "process_data m' p = process_data m p"
    and "process_data_size m' p = process_data_size m p" and "process_file_type m' p = process_file_type m p"
proof -
  have w: "m' x = m x" if "within p process_size x" for x
    using process_wfD(5) [OF assms(1) that] space_kept_mem [OF assms(2)] by simp
  have c: "load32 m' (p + of_nat k) = load32 m (p + of_nat k)" if "k \<le> 9756" for k
    by (rule load32_cong, rule w, erule within_nat_field) (rule that)
  show "process_stack m' p = process_stack m p" "process_data m' p = process_data m p"
    "process_data_size m' p = process_data_size m p"
    using c [of 8712] c [of 8716] c [of 8720] by (simp_all add: process_stack_def process_data_def process_data_size_def)
  have "within p process_size (p + 8724)" by (simp add: within_def)
  then show "process_file_type m' p = process_file_type m p" by (simp add: process_file_type_def w)
qed

lemma process_map_stack_spec:
  assumes "process_wf (s\<lparr>mem := m\<rparr>) p" and "process_stack m p mod 4096 = 0"
    and "unat (process_stack m p) + 16384 < 2 ^ 32"
  shows "\<exists>m'. process_map_stack m p = (0, m') \<and> process_wf (s\<lparr>mem := m'\<rparr>) p \<and> space_kept m m' p
    \<and> process_pte m' p = pages_mapped TASK_DEFAULT_STACK_END (process_stack m p) 4 7 (process_pte m p)"
proof -
  let ?a = "process_stack m p"
  have e: "(?a + 4 * 4096) mod 4096 = 0" by (rule aligned_add_pages [OF assms(2)])
  have le: "?a \<le> ?a + 4 * 4096"
    using assms(3) unat_word_ariths(1) [of ?a "4 * 4096"] by (simp add: word_le_nat_alt)
  have al: "(0x3FB000 :: u32) mod 4096 = 0" by simp
  from map_pages_kept [OF assms(1) al assms(2) e le, of 7] show ?thesis
    using align_same(2) [OF e] by (auto simp: process_map_stack_def)
qed

lemma process_map_memory_builds_image:
  assumes "process_wf s p" and "image_ready (mem s) p"
  shows "\<exists>m'. process_map_memory (mem s) p = (0, m') \<and> process_wf (s\<lparr>mem := m'\<rparr>) p
    \<and> space_kept (mem s) m' p \<and> process_pte m' p = process_image (mem s) p"
proof -
  let ?m = "mem s" and ?d = "process_data (mem s) p"
  have wf: "process_wf (s\<lparr>mem := ?m\<rparr>) p" using assms(1) by simp
  note r = assms(2) [unfolded image_ready_def Let_def]
  define t1 where "t1 = (if process_file_type ?m p = PROCESS_BIN_FILE
               then pages_mapped TASK_DEFAULT_START ?d
                 (unat (paging_align_to_page_upper (?d + process_data_size ?m p) - ?d) div 4096) 7 (process_pte ?m p)
               else if process_file_type ?m p = PROCESS_ELF_FILE
               then fold (segment_mapped (elf_data ?m ?d)) (segments ?m ?d) (process_pte ?m p)
               else process_pte ?m p)"
  consider "process_file_type ?m p = 1" | "process_file_type ?m p = 0"
    | "process_file_type ?m p \<noteq> 1" "process_file_type ?m p \<noteq> 0" by blast
  then obtain m1 where m1: "process_wf (s\<lparr>mem := m1\<rparr>) p" "space_kept ?m m1 p" "process_pte m1 p = t1"
    "process_map_memory ?m p = process_map_stack m1 p"
  proof cases
    case 1
    then have d: "?d mod 4096 = 0" "?d \<le> paging_align_to_page_upper (?d + process_data_size ?m p)" using r by simp_all
    have al: "(0x400000 :: u32) mod 4096 = 0" by simp
    from map_pages_kept [OF wf al d(1) align_upper_aligned d(2), of 7] obtain m1 where
      m1: "process_map_binary ?m p = (0, m1)" "process_wf (s\<lparr>mem := m1\<rparr>) p" "space_kept ?m m1 p"
      "process_pte m1 p = t1"
      by (auto simp: process_map_binary_def t1_def 1)
    then show ?thesis
      using that 1 process_fields_kept(4) [OF wf m1(3)] by (simp add: process_map_memory_def)
  next
    case 2
    then have "headers_apart ?m p ?d" "\<forall>h\<in>set (drop 0 (segments ?m ?d)). segment_fits (elf_data ?m ?d) h"
      using r by simp_all
    from map_elf_loop_spec [OF wf refl this] obtain m1 where
      m1: "process_map_elf ?m p = (0, m1)" "process_wf (s\<lparr>mem := m1\<rparr>) p" "space_kept ?m m1 p"
      "process_pte m1 p = t1"
      by (auto simp: process_map_elf_def t1_def 2 ELF_get_Ehdr_def)
    then show ?thesis using that 2 by (simp add: process_map_memory_def)
  next
    case 3
    then show ?thesis
      using that [of ?m] wf space_kept_refl by (simp add: process_map_memory_def t1_def)
  qed
  note f = process_fields_kept [OF wf m1(2)]
  have "process_stack m1 p mod 4096 = 0" "unat (process_stack m1 p) + 16384 < 2 ^ 32"
    using r f(1) by simp_all
  from process_map_stack_spec [OF m1(1) this] show ?thesis
    using space_kept_trans [OF m1(2)] m1(3,4) f(1)
    by (auto simp: process_image_def Let_def t1_def)
qed

section \<open>What the processor finds\<close>

lemma page_add:
  fixes b w :: u32
  assumes "b mod 4096 = 0"
  shows "(b + w) AND 0xfffff000 = b + (w AND 0xfffff000)" and "(b + w) mod 4096 = w mod 4096"
proof -
  have al: "(b + (w AND 0xfffff000)) mod 4096 = 0"
  proof -
    have "w AND 0xfffff000 = drop_bit 12 w * 4096" by (simp add: page_base_shift push_bit_eq_mult)
    then show ?thesis using aligned_add_pages [OF assms] by simp
  qed
  have lt: "w mod 4096 < 4096" by (rule word_mod_less_divisor) simp
  have e: "b + w = (b + (w AND 0xfffff000)) + w mod 4096"
    using page_base_split [of w] by (simp only: add.assoc)
  show "(b + w) AND 0xfffff000 = b + (w AND 0xfffff000)" "(b + w) mod 4096 = w mod 4096"
    using page_offset(2,3) [OF al lt] unfolding e [symmetric] by simp_all
qed

lemma unat_align_upper: "unat x \<le> 2 ^ 32 - 4096 \<Longrightarrow> unat x \<le> unat (paging_align_to_page_upper x)"
proof (cases "x mod 4096 = 0")
  case False
  assume x: "unat x \<le> 2 ^ 32 - 4096"
  have e: "paging_align_to_page_upper x = (x AND 0xfffff000) + 4096"
    using False page_base_split [of x] by (simp add: paging_align_to_page_upper_def algebra_simps)
  have "unat x mod 4096 \<noteq> 0" using False unat_mod_4096 [of x] by (metis unat_eq_0)
  then have "unat x \<noteq> 2 ^ 32 - 4096" by auto
  then have "unat x div 4096 < 2 ^ 20 - 1" using x by simp
  then have "unat ((x AND 0xfffff000) + 4096) = unat x div 4096 * 4096 + 4096"
    using unat_word_ariths(1) [of "x AND 0xfffff000" 4096] by (simp add: unat_page_base)
  then show ?thesis unfolding e using mod_div_mult_eq [of "unat x" 4096] mod_less_divisor [of 4096 "unat x"] by linarith
qed (simp add: paging_align_to_page_upper_def)

lemma segment_entry:
  fixes k :: u32
  assumes cong: "(d + ph_offset h) mod 4096 = ph_vaddr h mod 4096" and k: "k < ph_memsz h"
    and room: "unat (d + ph_offset h) + unat (ph_memsz h) \<le> 2 ^ 32 - 4096"
  shows "segment_mapped d h t (ph_vaddr h + k) = ((d + ph_offset h + k) AND 0xfffff000) OR segment_flags h"
    and "(ph_vaddr h + k) mod 4096 = (d + ph_offset h + k) mod 4096"
proof -
  let ?P = "d + ph_offset h" and ?V = "ph_vaddr h"
  let ?Pb = "?P AND 0xfffff000" and ?Vb = "?V AND 0xfffff000" and ?w = "?V mod 4096 + k"
  let ?e = "segment_end d h"
  have V: "?V + k = ?Vb + ?w" and P: "?P + k = ?Pb + ?w"
    using page_base_split [of ?V] page_base_split [of ?P] cong by (simp_all add: add.assoc [symmetric])
  show "(?V + k) mod 4096 = (?P + k) mod 4096" unfolding V P by (simp add: page_add)
  have uP: "unat ?P = unat ?Pb + unat (?V mod 4096)"
    using page_offset(1) [OF page_base_aligned, of "?P mod 4096" ?P] page_base_split [of ?P] cong
    by (simp add: word_mod_less_divisor)
  have uk: "unat k < unat (ph_memsz h)" using k by (simp add: word_less_nat_alt)
  have w: "unat ?w = unat (?V mod 4096) + unat k"
    using unat_word_ariths(1) [of "?V mod 4096" k] uP uk room by simp
  have "unat (?P + ph_memsz h) = unat ?P + unat (ph_memsz h)"
    using unat_word_ariths(1) [of ?P "ph_memsz h"] room by simp
  then have e: "unat ?P + unat (ph_memsz h) \<le> unat ?e"
    using unat_align_upper [of "?P + ph_memsz h"] room by (simp add: segment_end_def)
  then have le: "?Pb \<le> ?e" using uP by (simp add: word_le_nat_alt)
  have "?e - ?Pb = (?e AND 0xfffff000) - ?Pb"
    using aligned_page_base [OF align_upper_aligned] by (simp add: segment_end_def)
  then have m: "unat (?e - ?Pb) = 4096 * segment_pages d h"
    using unat_page_dist [OF page_base_aligned [of ?P], of ?e]
    by (simp add: segment_pages_def segment_first_def page_dist_def)
  have "unat ?w < unat (?e - ?Pb)" using w e uP uk unat_sub [OF le] by simp
  then have lt: "unat ?w div 4096 < segment_pages d h" unfolding m by (simp add: less_mult_imp_div_less mult.commute)
  have dist: "page_dist ?Vb (?V + k) = unat ?w div 4096"
    unfolding V by (simp add: page_dist_def page_add unat_page_base)
  have "(of_nat (unat ?w div 4096) * 4096 :: u32) = ?w AND 0xfffff000"
    using arg_cong [OF unat_page_base [of ?w], of "of_nat :: nat \<Rightarrow> u32"] by simp
  then show "segment_mapped d h t (?V + k) = ((?P + k) AND 0xfffff000) OR segment_flags h"
    unfolding P using lt by (simp add: segment_mapped_def pages_mapped_def dist segment_first_def page_add)
qed

lemma fold_segments_outside:
  assumes "\<forall>g\<in>set gs. \<not> page_dist (ph_vaddr g AND 0xfffff000) va < segment_pages d g"
  shows "fold (segment_mapped d) gs t va = t va"
  using assms by (induction gs arbitrary: t) (simp_all add: segment_mapped_def pages_mapped_def)

section \<open>A process with a file\<close>

text \<open>The file of \<^const>\<open>demo_elf\<close> with a second header, of a segment of the frame at
  \<open>0x100000\<close>.\<close>

definition demo_file :: memory where
  "demo_file = fold (\<lambda>(a, v) m. store32 m a v)
     [(0x2054, 1), (0x2058, 0xFE000), (0x205C, 0x500000), (0x2068, 1), (0x206C, 2)] demo_elf"

lemma demo_file:
  "elf_data demo_file 0x1000 = 0x2000" "e_phnum demo_file 0x2000 = 2" "ELF_get_Phdr demo_file 0x1000 0 = 0x2034"
  "segments demo_file 0x1000 =
     [\<lparr>ph_type = 1, ph_offset = 0x1000, ph_vaddr = 0x400000, ph_paddr = 0, ph_filesz = 0x20, ph_memsz = 0x20,
       ph_flags = 5, ph_align = 0\<rparr>,
      \<lparr>ph_type = 1, ph_offset = 0xFE000, ph_vaddr = 0x500000, ph_paddr = 0, ph_filesz = 0, ph_memsz = 1,
       ph_flags = 2, ph_align = 0\<rparr>]"
  by code_simp+

lemma demo_file_bytes: "header_byte demo_file 0x1000 x \<Longrightarrow> within 0x1000 0x2000 x"
  using within_offset [of "0x1000" "0x204" 4 x "0x2000"] within_offset [of "0x1000" "0x1000" 52 x "0x2000"]
    within_offset [of "0x1000" "0x1034" 64 x "0x2000"]
  by (auto simp: header_byte_def demo_file)

lemma demo_image:
  obtains s :: procst where "process_wf s (current_process s)" and "image_ready (mem s) (current_process s)"
    and "process_file_type (mem s) (current_process s) = 0"
    and "elf_data (mem s) (process_data (mem s) (current_process s)) = 0x2000"
    and "segments (mem s) (process_data (mem s) (current_process s)) = segments demo_file 0x1000"
    and "\<And>va. pde_present (mem s) (process_space (mem s) (current_process s)) va"
proof -
  obtain s :: procst where d: "process_wf s (current_process s)" "rest s = rest demo_proc"
    "\<And>va. pde_present (mem s) (process_space (mem s) (current_process s)) va"
    "current_process s = 0x1000000"
    by (rule demo_process) blast
  let ?p = "0x1000000 :: u32" and ?v = "process_space (mem s) 0x1000000"
  let ?m1 = "store32 (store32 ((mem s)(0x1002214 := 0)) 0x1002208 0x1000) 0x100220C 0x2000000"
  let ?m = "\<lambda>x. if within 0x1000 0x2000 x then demo_file x else ?m1 x"
  let ?s = "s\<lparr>mem := ?m\<rparr>"
  have wf: "process_wf s ?p" using d(1,4) by simp
  note D = process_wfD [OF wf]
  have geo: "heap_base (kheap s) = 0x1000000" "num_entries (kheap s) = 25600"
    using rest_eqD(11,12) [OF d(2)] by (simp_all add: demo_proc_def)
  have low: "x \<notin> kused s" if "within 0x1000 0x2000 x" for x
  proof -
    define y where "y = x - 0x1000"
    have "unat y < 0x2000" using that by (simp add: within_def word_less_nat_alt y_def)
    then have "0xFF001000 \<le> unat (y + 0xFF001000)" using unat_word_ariths(1) [of y "0xFF001000"] by simp
    moreover have "x - 0x1000000 = y + 0xFF001000" by (simp add: y_def)
    ultimately have "0xFF001000 \<le> unat (x - 0x1000000)" by (simp only:)
    then have "25600 \<le> unat (x - 0x1000000) div 4096" by simp
    then show ?thesis by (simp add: used_def block_of_def geo)
  qed
  have m1: "?m1 x = mem s x" if "\<not> within ?p process_size x" for x
  proof -
    have "x \<noteq> 0x1002214" using that by (auto simp: within_def)
    moreover have "\<not> within 0x1002208 4 x" "\<not> within 0x100220C 4 x"
      using that within_offset [of ?p 8712 4 x 9760] within_offset [of ?p 8716 4 x 9760] by auto
    ultimately show ?thesis by (simp add: store32_other)
  qed
  have keep: "?m x = mem s x"
    if "within (process_task (mem s) ?p) 4 x \<or> space_page (mem s) ?v (x AND 0xfffff000)" for x
  proof -
    have "x \<in> kused s" "\<not> within ?p process_size x"
      using that D(3,5-8) kused_page [OF D(1), of x] by blast+
    then show ?thesis using low [of x] m1 by auto
  qed
  have own: "?m x = ?m1 x" if "within ?p process_size x" for x
    using low [of x] D(4) [OF that] by auto
  have ld: "load32 ?m (?p + of_nat k) = load32 ?m1 (?p + of_nat k)" if "k \<le> 9756" for k
    by (rule load32_cong, rule own, erule within_nat_field) (rule that)
  have f: "process_data ?m ?p = 0x1000" "process_stack ?m ?p = 0x2000000" "process_file_type ?m ?p = 0"
    using ld [of 8712] ld [of 8716] own [of "0x1002214"]
    by (simp_all add: process_data_def process_stack_def process_file_type_def apart4_def within_def store32_other)
  have "process_task ?m ?p = process_task (mem s) ?p"
    using ld [of 516] by (simp add: process_task_def apart4_def) (rule load32_cong, auto simp: within_def)
  then have task: "process_task (mem ?s) ?p = process_task (mem s) ?p" by simp
  have top: "kinv ?s" "heap_below_top (kheap ?s)" "kused s \<subseteq> kused ?s" using D(1,9) by simp_all
  note fr = process_wf_frame [OF wf top task]
  have sp: "\<forall>x. space_page (mem s) ?v (x AND 0xfffff000) \<longrightarrow> ?m x = mem s x" using keep by blast
  note ag = vspace_agree [OF D(2) sp] and mg = mmu_agree(2) [OF D(2) sp]
  have v: "process_space ?m ?p = ?v" using fr(2) keep by simp
  have hb: "\<And>x. header_byte demo_file 0x1000 x \<Longrightarrow> ?m x = demo_file x" using demo_file_bytes by simp
  have hc: "elf_data ?m 0x1000 = elf_data demo_file 0x1000" "segments ?m 0x1000 = segments demo_file 0x1000"
    "header_byte ?m 0x1000 = header_byte demo_file 0x1000"
    by (rule headers_cong, erule hb)+
  have "headers_apart ?m ?p 0x1000"
    unfolding headers_apart_def v ag(6) hc(3)
    using demo_file_bytes low D(3) kused_page [OF D(1)] by blast
  then have "image_ready ?m ?p"
    by (simp add: image_ready_def f hc demo_file segment_fits_def segment_first_def segment_end_def
        paging_align_to_page_upper_def)
  moreover have "process_wf ?s ?p" using fr(1) keep by simp
  moreover have "pde_present ?m ?v va" for va using d(3,4) mg by simp
  ultimately show ?thesis
    using that [of ?s] d(4) f hc v by (simp add: demo_file(1))
qed

text \<open>C11: a process can read its file. The virtual address of a byte of a segment, whose offset in the
  file and virtual address agree modulo the page size, translates to the byte of the file in kernel
  memory, when no later segment and not the stack was mapped over it.\<close>

theorem elf_segment_translated:
  assumes "process_wf s p" and "image_ready (mem s) p" and "process_file_type (mem s) p = 0"
    and "d = elf_data (mem s) (process_data (mem s) p)"
    and "segments (mem s) (process_data (mem s) p) = hs @ h # gs"
    and "(d + ph_offset h) mod 4096 = ph_vaddr h mod 4096" and "k < ph_memsz h"
    and "unat (d + ph_offset h) + unat (ph_memsz h) \<le> 2 ^ 32 - 4096"
    and "\<forall>g\<in>set gs. \<not> page_dist (ph_vaddr g AND 0xfffff000) (ph_vaddr h + k) < segment_pages d g"
    and "\<not> page_dist TASK_DEFAULT_STACK_END (ph_vaddr h + k) < 4"
    and "pde_present (mem s) (process_space (mem s) p) (ph_vaddr h + k)"
  shows "\<exists>m'. process_map_memory (mem s) p = (0, m')
    \<and> mmu m' (page_directory_entries m' (vspace_pd m' (process_space m' p))) (ph_vaddr h + k)
        = Some (d + ph_offset h + k)"
proof -
  let ?va = "ph_vaddr h + k" and ?pa = "d + ph_offset h + k" and ?v = "process_space (mem s) p"
  obtain m' where m: "process_map_memory (mem s) p = (0, m')" "process_wf (s\<lparr>mem := m'\<rparr>) p"
    "space_kept (mem s) m' p" "process_pte m' p = process_image (mem s) p"
    using process_map_memory_builds_image [OF assms(1,2)] by blast
  note e = segment_entry [OF assms(6-8)]
  have "process_image (mem s) p ?va = (?pa AND 0xfffff000) OR segment_flags h"
    using assms(3,4,9,10) e(1) fold_segments_outside [of gs ?va d]
    by (simp add: process_image_def Let_def assms(5) pages_mapped_def)
  then have pte: "pte m' (vspace_pd m' ?v) ?va = (?pa AND 0xfffff000) OR segment_flags h"
    using m(3,4) by (simp add: process_pte_def space_kept_def fun_eq_iff)
  have fl: "bit (segment_flags h) 0" "segment_flags h < 4096"
    by (simp_all add: segment_flags_def bit_0)
  have v: "process_space m' p = ?v" "pde_present m' ?v ?va" using m(3) assms(11) by (simp_all add: space_kept_def)
  have ok: "vspace_ok m' ?v" using process_wfD(2) [OF m(2)] v by simp
  have "?va AND 0xfff = ?pa AND 0xfff"
    using e(2) by (simp only: mod_4096_take_bit page_masks take_bit_eq_mask)
  then have "mmu m' (page_directory_entries m' (vspace_pd m' ?v)) ?va = Some ?pa"
    using mmu_pte [OF ok, of ?va] v(2) present_or [OF fl(1), of "?pa AND 0xfffff000"] entry_base [OF page_base_aligned fl(2), of ?pa]
      va_recompose [of ?pa] by (simp add: pte)
  then show ?thesis using m(1) v(1) by auto
qed

theorem elf_segment_translated_witness:
  "\<exists>(s :: procst) m'. process_map_memory (mem s) (current_process s) = (0, m')
     \<and> mmu m' (page_directory_entries m' (vspace_pd m' (process_space m' (current_process s)))) 0x400004 = Some 0x3004"
proof -
  obtain s :: procst where d: "process_wf s (current_process s)" "image_ready (mem s) (current_process s)"
    "process_file_type (mem s) (current_process s) = 0"
    "elf_data (mem s) (process_data (mem s) (current_process s)) = 0x2000"
    "segments (mem s) (process_data (mem s) (current_process s)) = segments demo_file 0x1000"
    "\<And>va. pde_present (mem s) (process_space (mem s) (current_process s)) va"
    by (rule demo_image) blast
  let ?h = "segments demo_file 0x1000 ! 0" and ?g = "segments demo_file 0x1000 ! 1"
  have sg: "segments (mem s) (process_data (mem s) (current_process s)) = [] @ ?h # [?g]"
    by (simp add: d(5) demo_file)
  have e: "page_dist 0x500000 0x400004 = 0xFFF00" "page_dist 0x3FB000 0x400004 = 5" "segment_pages 0x2000 ?g = 1"
    by (simp_all add: page_dist_def demo_file segment_pages_def segment_end_def segment_first_def
        paging_align_to_page_upper_def)
  have "\<exists>m'. process_map_memory (mem s) (current_process s) = (0, m')
    \<and> mmu m' (page_directory_entries m' (vspace_pd m' (process_space m' (current_process s)))) (ph_vaddr ?h + 4)
        = Some (0x2000 + ph_offset ?h + 4)"
    by (rule elf_segment_translated [OF d(1-3) d(4) [symmetric] sg])
      (use d(6) e in \<open>simp_all add: demo_file\<close>)
  then show ?thesis by (auto simp: demo_file)
qed

text \<open>C40: the loader believes the file. A program header with an offset of the file's choice (it is not
  compared with the size of the file, and the sum with the address of the data wraps) makes any page of
  physical memory, the kernel's own included, writable for the process.\<close>

theorem elf_header_opens_any_frame:
  assumes "process_wf s p" and "image_ready (mem s) p" and "process_file_type (mem s) p = 0"
    and "d = elf_data (mem s) (process_data (mem s) p)"
    and "segments (mem s) (process_data (mem s) p) = hs @ h # gs"
    and "ph_offset h = frame - d" and "frame mod 4096 = 0" and "unat frame \<le> 2 ^ 32 - 8192"
    and "ph_vaddr h mod 4096 = 0" and "ph_memsz h = 1" and "ph_flags h = 2"
    and "\<forall>g\<in>set gs. \<not> page_dist (ph_vaddr g AND 0xfffff000) (ph_vaddr h) < segment_pages d g"
    and "\<not> page_dist TASK_DEFAULT_STACK_END (ph_vaddr h) < 4"
  shows "\<exists>m'. process_map_memory (mem s) p = (0, m') \<and> process_pte m' p (ph_vaddr h) = frame OR 7"
proof -
  have e: "d + ph_offset h = frame" by (simp add: assms(6))
  have "(d + ph_offset h) mod 4096 = ph_vaddr h mod 4096" "(0 :: u32) < ph_memsz h"
    "unat (d + ph_offset h) + unat (ph_memsz h) \<le> 2 ^ 32 - 4096"
    unfolding e using assms(7-10) by simp_all
  note se = segment_entry(1) [OF this, unfolded e add_0_right, where t = "fold (segment_mapped d) hs (process_pte (mem s) p)"]
  have "process_image (mem s) p (ph_vaddr h) = frame OR 7"
    using se assms(3,4,11-13) fold_segments_outside [of gs "ph_vaddr h" d] aligned_page_base [OF assms(7)]
    by (simp add: process_image_def Let_def assms(5) pages_mapped_def segment_flags_def)
  then show ?thesis using process_map_memory_builds_image [OF assms(1,2)] by auto
qed

theorem elf_header_opens_any_frame_witness:
  "\<exists>(s :: procst) m'. process_map_memory (mem s) (current_process s) = (0, m')
     \<and> process_pte m' (current_process s) 0x500000 = 0x100007"
proof -
  obtain s :: procst where d: "process_wf s (current_process s)" "image_ready (mem s) (current_process s)"
    "process_file_type (mem s) (current_process s) = 0"
    "elf_data (mem s) (process_data (mem s) (current_process s)) = 0x2000"
    "segments (mem s) (process_data (mem s) (current_process s)) = segments demo_file 0x1000"
    by (rule demo_image) blast
  let ?h = "segments demo_file 0x1000 ! 1"
  have sg: "segments (mem s) (process_data (mem s) (current_process s)) = [segments demo_file 0x1000 ! 0] @ ?h # []"
    by (simp add: d(5) demo_file)
  have e: "page_dist 0x3FB000 0x500000 = 0x105" by (simp add: page_dist_def)
  have "\<exists>m'. process_map_memory (mem s) (current_process s) = (0, m')
    \<and> process_pte m' (current_process s) (ph_vaddr ?h) = 0x100000 OR 7"
    by (rule elf_header_opens_any_frame [OF d(1-3) d(4) [symmetric] sg])
      (use e in \<open>simp_all add: demo_file\<close>)
  then show ?thesis by (auto simp: demo_file)
qed

end
