(* ===== verification/Fat16_Files.thy ===== *)
theory Fat16_Files
  imports Fat16
begin

text \<open>
  What the FAT16 driver reads and writes: the table entry that \<open>fat16_get_entry\<close> looks at, the
  bytes that \<open>fat16_read\<close> delivers, and the names that \<open>fat16_get_full_relative_name\<close> builds
  from the 8.3 fields of a directory entry.
\<close>

section \<open>A read through a freshly positioned stream\<close>

lemma seek_read:
  assumes "ata_serves (device s) img sectors" and "sectors \<le> 2 ^ 23"
    and "(unat p + unat n) div 512 < sectors" and "stream_ok s st buf n"
  obtains s' where "disk_stream_read (disk_stream_seek s st p) st buf n = Some s'"
    and "s' = s\<lparr>mem := mem s', io_log := io_log s'\<rparr>"
    and "\<And>x. within buf n x \<Longrightarrow> mem s' x = img (p + (x - buf))"
    and "\<And>x. \<not> within buf n x \<Longrightarrow> \<not> within (local_addr s Temp_buffer) 512 x \<Longrightarrow> \<not> within st 4 x
      \<Longrightarrow> mem s' x = mem s x"
proof -
  let ?s = "disk_stream_seek s st p"
  have e: "?s = s\<lparr>mem := store32 (mem s) st p\<rparr>" by (simp add: disk_stream_seek_def set_streamer_pos_def)
  have p: "streamer_pos (mem ?s) st = p" by (simp add: e streamer_pos_def)
  have "ata_serves (device ?s) img sectors" "stream_ok ?s st buf n"
    "(unat (streamer_pos (mem ?s) st) + unat n) div 512 < sectors"
    using assms by (simp_all add: p) (simp_all add: e stream_ok_def)
  from disk_stream_read_flat [OF this(1,3) assms(2) this(2)] obtain m h where
    r: "disk_stream_read ?s st buf n = Some (?s\<lparr>mem := m, io_log := h\<rparr>)"
    "\<And>x. within buf n x \<Longrightarrow> m x = img (p + (x - buf))"
    "\<And>x. \<not> within buf n x \<Longrightarrow> \<not> within (local_addr ?s Temp_buffer) 512 x \<Longrightarrow> \<not> within st 4 x
      \<Longrightarrow> m x = mem ?s x" unfolding p by blast
  show ?thesis
  proof (rule that [OF r(1)])
    show "mem (?s\<lparr>mem := m, io_log := h\<rparr>) x = mem s x"
      if "\<not> within buf n x" "\<not> within (local_addr s Temp_buffer) 512 x" "\<not> within st 4 x" for x
      using r(3) [OF that(1) _ that(3)] that(2,3) by (simp add: e store32_other)
  qed (use r(2) in \<open>simp_all add: e\<close>)
qed

section \<open>The entry of a cluster\<close>

text \<open>The position is the product of the start of the table, the cluster and 2, not their sum: only
  for one cluster number in the whole table would the two agree.\<close>

lemma fat16_get_entry_reads:
  fixes s :: "'a mach_scheme" and disk :: u32
  defines "priv \<equiv> disk_private (mem s) disk"
  assumes "ata_serves (device s) img sectors" and "sectors \<le> 2 ^ 23"
    and "p = bpb_reserved_sectors (mem s) priv * disk_sector_size (mem s) disk * cluster * 2"
    and "(unat p + 2) div 512 < sectors"
    and "stream_ok s (fat_streamer (mem s) priv) (local_addr s Fat16_entry) 2"
  shows "\<exists>s'. fat16_get_entry s disk cluster = Some (ucast (img p) OR push_bit 8 (ucast (img (p + 1))), s')"
proof -
  let ?st = "fat_streamer (mem s) priv" and ?e = "local_addr s Fat16_entry"
  let ?s = "s\<lparr>mem := store16 (mem s) ?e 0\<rparr>"
  have "disk_stream_seek s ?st p\<lparr>mem := store16 (mem (disk_stream_seek s ?st p)) ?e 0\<rparr>
      = disk_stream_seek ?s ?st p"
  proof -
    have "store16 (store32 (mem s) ?st p) ?e 0 = store32 (store16 (mem s) ?e 0) ?st p"
    proof
      fix x
      have ap: "apart ?e 2 ?st 4" using assms(6) by (simp add: stream_ok_def)
      have w: "within ?e 2 ?e" "within ?e 2 (?e + 1)" by (simp_all add: within_def)
      show "store16 (store32 (mem s) ?st p) ?e 0 x = store32 (store16 (mem s) ?e 0) ?st p x"
      proof (cases "within ?st 4 x")
        case True
        then have "x \<noteq> ?e" "x \<noteq> ?e + 1" using apartD [OF ap w(1)] apartD [OF ap w(2)] by auto
        then show ?thesis by (simp add: store16_def store32_def)
      next
        case False
        then show ?thesis by (simp add: store32_other [OF False] store16_def)
      qed
    qed
    then show ?thesis by (simp add: disk_stream_seek_def set_streamer_pos_def)
  qed
  moreover have "(unat p + unat (2 :: u32)) div 512 < sectors" using assms(5) by simp
  have "ata_serves (device ?s) img sectors" "stream_ok ?s ?st ?e 2"
    using assms(2,6) by (simp_all add: stream_ok_def)
  from seek_read [OF this(1) assms(3) \<open>(unat p + unat 2) div 512 < sectors\<close> this(2)] obtain s' where
    r: "disk_stream_read (disk_stream_seek ?s ?st p) ?st ?e 2 = Some s'"
    "s' = ?s\<lparr>mem := mem s', io_log := io_log s'\<rparr>"
    "\<And>x. within ?e 2 x \<Longrightarrow> mem s' x = img (p + (x - ?e))" by metis
  have la: "local_addr s' = local_addr s" by (subst r(2)) simp
  have b: "mem s' ?e = img p" "mem s' (?e + 1) = img (p + 1)"
    using r(3) [of ?e] r(3) [of "?e + 1"] by (simp_all add: within_def)
  ultimately show ?thesis
    using r(1) assms(4) by (simp add: fat16_get_entry_def priv_def [symmetric] Let_def la load16_def
        disk_stream_seek_def set_streamer_pos_def)
qed

section \<open>The bytes of a file\<close>

definition cluster_bytes :: "memory \<Rightarrow> u32 \<Rightarrow> u32" where
  "cluster_bytes m disk = bpb_sectors_per_cluster m (disk_private m disk) * disk_sector_size m disk"

text \<open>Where the first byte of a cluster is on the disk.\<close>

definition cluster_start :: "memory \<Rightarrow> u32 \<Rightarrow> u32 \<Rightarrow> u32" where
  "cluster_start m disk c = fat16_cluster_to_sector m (disk_private m disk) c * disk_sector_size m disk"

text \<open>A read of at most one cluster: the whole offset is added to the start of the cluster that the
  chain of the table gives for it, also when that is not the first one.\<close>

lemma read_from_disk_one:
  fixes s t :: "'a mach_scheme"
  assumes "ata_serves (device s) img sectors" and "sectors \<le> 2 ^ 23"
    and walk: "fat16_get_cluster_from_offset s disk first off = Some (k, t)"
    and sz: "sz \<le> cluster_bytes (mem s) disk"
    and p: "p = fat16_cluster_to_sector (mem t) (disk_private (mem s) disk) k * disk_sector_size (mem t) disk + off"
    and "(unat p + unat sz) div 512 < sectors"
    and st: "st = cluster_streamer (mem s) (disk_private (mem s) disk)" and "stream_ok s st out sz"
  obtains s' where "fat16_read_from_disk s disk first off sz out = Some (0, s')"
    and "s' = t\<lparr>mem := mem s', io_log := io_log s'\<rparr>"
    and "\<And>x. within out sz x \<Longrightarrow> mem s' x = img (p + (x - out))"
    and "\<And>x. \<not> within out sz x \<Longrightarrow> \<not> within (local_addr s Temp_buffer) 512 x \<Longrightarrow>
      \<not> within st 4 x \<Longrightarrow> mem s' x = mem t x"
proof -
  have t: "device t = device s" "local_addr t = local_addr s"
    by (rule rest_eqD [OF cluster_from_offset_rest [OF walk]])+
  have "ata_serves (device t) img sectors" "stream_ok t st out sz"
    using assms(1,8) by (simp_all add: t stream_ok_def)
  note sr = seek_read [OF this(1) assms(2,6) this(2)]
  obtain s' where r: "disk_stream_read (disk_stream_seek t st p) st out sz = Some s'"
    "s' = t\<lparr>mem := mem s', io_log := io_log s'\<rparr>"
    "\<And>x. within out sz x \<Longrightarrow> mem s' x = img (p + (x - out))"
    "\<And>x. \<not> within out sz x \<Longrightarrow> \<not> within (local_addr t Temp_buffer) 512 x \<Longrightarrow> \<not> within st 4 x
      \<Longrightarrow> mem s' x = mem t x" by (rule sr) (rule that)
  have "fat16_read_from_disk s disk first off sz out = Some (0, s')"
  proof -
    have "\<not> bpb_sectors_per_cluster (mem s) (disk_private (mem s) disk) * disk_sector_size (mem s) disk < sz"
      using sz by (simp add: cluster_bytes_def not_less)
    then show ?thesis using walk r(1) unfolding p st by (subst fat16_read_from_disk.simps) (simp add: Let_def)
  qed
  then show ?thesis
  proof (rule that)
    show "s' = t\<lparr>mem := mem s', io_log := io_log s'\<rparr>" by (rule r(2))
    show "mem s' x = img (p + (x - out))" if "within out sz x" for x by (rule r(3) [OF that])
    show "mem s' x = mem t x" if "\<not> within out sz x" "\<not> within (local_addr s Temp_buffer) 512 x"
      "\<not> within st 4 x" for x by (rule r(4) [OF that(1) _ that(3)]) (use that(2) in \<open>simp only: t not_False_eq_True\<close>)
  qed
qed

lemma first_cluster_walk:
  assumes "off < cluster_bytes (mem s) disk"
  shows "fat16_get_cluster_from_offset s disk c off = Some (c, s)"
proof -
  have z: "cluster_bytes (mem s) disk \<noteq> 0" using assms by auto
  have "unat (off div cluster_bytes (mem s) disk) = 0"
    using assms by (simp add: unat_div_distrib word_less_nat_alt)
  then have "off div cluster_bytes (mem s) disk = 0" by (simp only: unat_eq_0)
  then show ?thesis
    using z by (simp add: fat16_get_cluster_from_offset_def cluster_bytes_def [symmetric] cluster_walk.simps Let_def)
qed

section \<open>Reading an open file\<close>

definition fd_cluster :: "memory \<Rightarrow> u32 \<Rightarrow> u32" where
  "fd_cluster m fd = file_first_cluster m (unit_object m (fd_unit m fd))"

text \<open>Where the volume keeps the bytes of a cluster, from the fields of its header alone and in natural
  numbers: the data area follows the reserved sectors, the copies of the allocation table and the root
  directory, rounded up to a sector, and its clusters are numbered from 2.\<close>

definition data_start_sector :: "memory \<Rightarrow> u32 \<Rightarrow> nat" where
  "data_start_sector m disk =
     (let p = disk_private m disk; ss = unat (disk_sector_size m disk)
      in unat (bpb_reserved_sectors m p) + unat (bpb_fat_copies m p) * unat (bpb_sectors_per_fat m p)
         + (32 * unat (bpb_root_dir_entries m p) + (ss - 1)) div ss)"

definition cluster_byte :: "memory \<Rightarrow> u32 \<Rightarrow> nat \<Rightarrow> nat" where
  "cluster_byte m disk c =
     (data_start_sector m disk + (c - 2) * unat (bpb_sectors_per_cluster m (disk_private m disk)))
       * unat (disk_sector_size m disk)"

text \<open>A mounted volume: the last sector of the root directory is the one before the data area.\<close>

definition volume_mounted :: "memory \<Rightarrow> u32 \<Rightarrow> bool" where
  "volume_mounted m disk \<longleftrightarrow>
     dir_last_sector m (private_root (disk_private m disk)) = of_nat (data_start_sector m disk) - 1"

text \<open>The value that \<open>fat16_get_root\<close> stores makes the volume mounted.\<close>

lemma round_up_div:
  fixes a b :: nat
  assumes "0 < b"
  shows "(a + (b - 1)) div b = a div b + (if a mod b \<noteq> 0 then 1 else 0)"
proof (cases "a mod b = 0")
  case True
  then obtain k where k: "a = b * k" by auto
  have "(b * k + (b - 1)) div b = k" using assms by (intro div_nat_eqI) simp_all
  then show ?thesis using assms k by simp
next
  case False
  have m: "0 < a mod b" "a mod b < b" using False assms by simp_all
  have "(a + (b - 1)) div b = Suc (a div b)"
    using m mult_div_mod_eq [of b a] by (intro div_nat_eqI) (unfold mult_Suc_right, linarith+)
  then show ?thesis using False by simp
qed

lemma last_root_sector:
  fixes m :: memory and disk n :: u32
  defines "p \<equiv> disk_private m disk" and "ss \<equiv> disk_sector_size m disk"
  assumes "ss \<noteq> 0" and "n = bpb_root_dir_entries m p * 32"
    and "dir_last_sector m (private_root p) = bpb_fat_copies m p * bpb_sectors_per_fat m p + bpb_reserved_sectors m p
      + (n div ss + (if n mod ss \<noteq> 0 then 1 else 0)) - 1"
  shows "volume_mounted m disk"
proof -
  have ss: "0 < unat ss" using assms(3) by (simp add: unat_gt_0)
  have "unat (bpb_root_dir_entries m p) < 2 ^ 16"
    using unsigned_less [of "load16 m (p + 17)", where ?'a = nat]
    by (simp add: bpb_root_dir_entries_def unsigned_ucast_eq take_bit_nat_eq_self)
  then have n: "unat n = 32 * unat (bpb_root_dir_entries m p)"
    using assms(4) by (simp add: unat_word_ariths)
  have "n mod ss = 0 \<longleftrightarrow> unat n mod unat ss = 0" by (simp flip: unat_mod_distrib add: unat_eq_0)
  moreover have "n div ss = of_nat (unat n div unat ss)" by (simp flip: unat_div_distrib)
  ultimately have "of_nat ((unat n + (unat ss - 1)) div unat ss) = n div ss + (if n mod ss \<noteq> 0 then 1 else 0)"
    unfolding round_up_div [OF ss] by simp
  then show ?thesis
    unfolding volume_mounted_def data_start_sector_def Let_def p_def [symmetric] ss_def [symmetric] assms(5)
    by (simp add: n ac_simps del: One_nat_def)
qed

lemma cluster_byte_code:
  assumes "volume_mounted m disk" and "2 \<le> c" and "w = of_nat c"
  shows "cluster_start m disk w = of_nat (cluster_byte m disk c)"
  using assms(1) of_nat_diff [OF assms(2), where ?'a = "32 word"]
  by (simp add: cluster_start_def cluster_byte_def fat16_cluster_to_sector_def volume_mounted_def assms(3))

definition demo_fat :: mach where
  "demo_fat = demo_mach\<lparr>device := ready_drive (\<lambda>a. ucast (drop_bit 8 a)),
     mem := (\<lambda>_. 0)(0x2005 := 2, 0x200D := 0x21, 0x210D := 4, 0x210E := 1, 0x2110 := 2, 0x2112 := 2, 0x2116 := 9,
       0x214C := 50, 0x2151 := 0x30, 0x2301 := 0x24, 0x2304 := 100, 0x2401 := 0x25, 0x2404 := 1, 0x251A := 3)\<rparr>"

text \<open>C21: on a mounted volume, \<open>fat16_read\<close> of one item that lies in the first cluster of the file delivers
  the bytes of the disk that the volume keeps there. The cluster is the number in the directory entry, and its
  place is computed from the fields of the header: behind the reserved sectors, the allocation tables and the root
  directory, one cluster after the other from number 2. The bytes start at the position of the descriptor. The
  call reports one item, changes nothing else but the sector buffer and the position of the stream, and does not
  advance the position of the descriptor.\<close>

theorem fat16_read_first_cluster:
  assumes "ata_serves (device s) img sectors" and "sectors \<le> 2 ^ 23" and "volume_mounted (mem s) disk"
    and "unit_type (mem s) (fd_unit (mem s) fd) \<noteq> 0" and "entry = unit_object (mem s) (fd_unit (mem s) fd)"
    and "load16 (mem s) (entry + 20) = 0" and "c = unat (load16 (mem s) (entry + 26))" and "2 \<le> c"
    and "fd_position (mem s) fd < cluster_bytes (mem s) disk"
    and "unat (fd_position (mem s) fd) + unat sz \<le> unat (cluster_bytes (mem s) disk)"
    and "p = cluster_byte (mem s) disk c + unat (fd_position (mem s) fd)"
    and "(p + unat sz) div 512 < sectors"
    and "st = cluster_streamer (mem s) (disk_private (mem s) disk)" and "stream_ok s st out sz"
    and "apart (fd + 4) 4 out sz" and "apart (fd + 4) 4 (local_addr s Temp_buffer) 512"
    and "apart (fd + 4) 4 st 4"
  shows "\<exists>s'. fat16_read s disk fd sz 1 out = Some (1, s') \<and> s' = s\<lparr>mem := mem s', io_log := io_log s'\<rparr>
    \<and> (\<forall>x. if within out sz x then mem s' x = img (of_nat p + (x - out))
           else within (local_addr s Temp_buffer) 512 x \<or> within st 4 x \<or> mem s' x = mem s x)
    \<and> fd_position (mem s') fd = fd_position (mem s) fd"
proof -
  let ?c = "fd_cluster (mem s) fd" and ?off = "fd_position (mem s) fd" and ?p = "of_nat p :: u32"
  have c: "?c = of_nat c" using assms(6) by (simp add: fd_cluster_def file_first_cluster_def assms(5,7))
  have "p div 512 \<le> (p + unat sz) div 512" by (rule div_le_mono) simp
  then have "p div 512 < 2 ^ 23" using assms(2,12) by linarith
  then have "p < 2 ^ 32" by (simp add: div_less_iff_less_mult)
  then have u: "unat ?p = p" by (intro unat_of_nat_less) simp
  have at: "?p = cluster_start (mem s) disk ?c + ?off"
    unfolding cluster_byte_code [OF assms(3,8) c] assms(11) by simp
  have fit: "(unat ?p + unat sz) div 512 < sectors" unfolding u by (rule assms(12))
  have w: "fat16_get_cluster_from_offset s disk ?c ?off = Some (?c, s)"
    by (rule first_cluster_walk [OF assms(9)])
  have sz: "sz \<le> cluster_bytes (mem s) disk" using assms(10) by (simp add: word_le_nat_alt)
  obtain s' where r: "fat16_read_from_disk s disk ?c ?off sz out = Some (0, s')"
    "s' = s\<lparr>mem := mem s', io_log := io_log s'\<rparr>"
    "\<And>x. within out sz x \<Longrightarrow> mem s' x = img (?p + (x - out))"
    "\<And>x. \<not> within out sz x \<Longrightarrow> \<not> within (local_addr s Temp_buffer) 512 x \<Longrightarrow> \<not> within st 4 x
      \<Longrightarrow> mem s' x = mem s x"
    by (rule read_from_disk_one [OF assms(1,2) w sz at [unfolded cluster_start_def] fit assms(13,14)])
      (rule that)
  have "fat16_read s disk fd sz 1 out = Some (1, s')"
    using assms(4) r(1) by (simp add: fat16_read_def read_members_loop.simps fd_cluster_def)
  moreover have "fd_position (mem s') fd = ?off"
    unfolding fd_position_def
    by (rule load32_cong, rule r(4)) (rule apartD [OF assms(15)] apartD [OF assms(16)] apartD [OF assms(17)], assumption)+
  moreover have "\<forall>x. if within out sz x then mem s' x = img (?p + (x - out))
      else within (local_addr s Temp_buffer) 512 x \<or> within st 4 x \<or> mem s' x = mem s x"
    using r(3,4) by auto
  ultimately show ?thesis using r(2) by blast
qed

text \<open>In use: one reserved sector, two tables of nine and 512 root entries put the data area at sector 51; byte 100
  of cluster 3, with four sectors to a cluster, is byte 28260 of the disk.\<close>

theorem fat16_read_first_cluster_witness:
  "\<exists>s'. fat16_read demo_fat 0x2000 0x2300 4 1 0x5000 = Some (1, s')
     \<and> mem s' 0x5003 = 110 \<and> fd_position (mem s') 0x2300 = 100"
proof -
  let ?s = demo_fat
  have v: "disk_private (mem ?s) 0x2000 = 0x2100" "disk_sector_size (mem ?s) 0x2000 = 512"
    "bpb_sectors_per_cluster (mem ?s) 0x2100 = 4" "cluster_streamer (mem ?s) 0x2100 = 0x3000"
    "dir_last_sector (mem ?s) 0x2140 = 50" "fd_unit (mem ?s) 0x2300 = 0x2400"
    "fd_position (mem ?s) 0x2300 = 100" "unit_object (mem ?s) 0x2400 = 0x2500"
    "unit_type (mem ?s) 0x2400 = 1" "load16 (mem ?s) 0x2514 = 0" "load16 (mem ?s) 0x251A = 3"
    "bpb_reserved_sectors (mem ?s) 0x2100 = 1" "bpb_fat_copies (mem ?s) 0x2100 = 2"
    "bpb_sectors_per_fat (mem ?s) 0x2100 = 9" "bpb_root_dir_entries (mem ?s) 0x2100 = 512"
    by (simp_all add: demo_fat_def demo_mach_def disk_private_def disk_sector_size_def load32_def load16_def
        bpb_sectors_per_cluster_def cluster_streamer_def dir_last_sector_def fd_unit_def fd_position_def
        unit_object_def unit_type_def bpb_reserved_sectors_def bpb_fat_copies_def bpb_sectors_per_fat_def
        bpb_root_dir_entries_def)
  have mo: "volume_mounted (mem ?s) 0x2000"
    by (simp add: volume_mounted_def data_start_sector_def private_root_def v)
  have p: "28260 = cluster_byte (mem ?s) 0x2000 3 + unat (fd_position (mem ?s) 0x2300)"
    by (simp add: cluster_byte_def data_start_sector_def v)
  have cb: "cluster_bytes (mem ?s) 0x2000 = 2048" by (simp add: cluster_bytes_def v)
  have st: "0x3000 = cluster_streamer (mem ?s) (disk_private (mem ?s) 0x2000)" by (simp add: v)
  have en: "0x2500 = unit_object (mem ?s) (fd_unit (mem ?s) 0x2300)" by (simp add: v)
  have la: "local_addr ?s Temp_buffer = 0x1FF000" by (simp add: demo_fat_def demo_mach_def)
  have ok: "stream_ok ?s 0x3000 0x5000 4"
    using apart_below [of "0x5000" 4 "0x1FF000" 512] apart_below [of "0x3000" 4 "0x5000" 4]
      apart_below [of "0x3000" 4 "0x1FF000" 512] by (simp add: stream_ok_def la apart_sym)
  have ap: "apart (0x2300 + 4) 4 0x5000 4" "apart (0x2300 + 4) 4 (local_addr ?s Temp_buffer) 512"
    "apart (0x2300 + 4) 4 0x3000 4"
    using apart_below [of "0x2304" 4 "0x5000" 4] apart_below [of "0x2304" 4 "0x1FF000" 512]
      apart_below [of "0x2304" 4 "0x3000" 4] by (simp_all add: la)
  have srv: "ata_serves (device ?s) (\<lambda>a. ucast (drop_bit 8 a)) 100"
    by (simp add: demo_fat_def demo_mach_def ready_drive_serves)
  have "\<exists>s'. fat16_read ?s 0x2000 0x2300 4 1 0x5000 = Some (1, s') \<and> s' = ?s\<lparr>mem := mem s', io_log := io_log s'\<rparr>
    \<and> (\<forall>x. if within 0x5000 4 x then mem s' x = (ucast (drop_bit 8 (of_nat 28260 + (x - 0x5000) :: u32)) :: u8)
           else within (local_addr ?s Temp_buffer) 512 x \<or> within 0x3000 4 x \<or> mem s' x = mem ?s x)
    \<and> fd_position (mem s') 0x2300 = fd_position (mem ?s) 0x2300"
    by (rule fat16_read_first_cluster [OF srv _ mo _ en _ _ _ _ _ p _ st ok ap]) (simp_all add: v cb)
  then obtain s' where s': "fat16_read ?s 0x2000 0x2300 4 1 0x5000 = Some (1, s')"
    "\<And>x. within 0x5000 4 x \<Longrightarrow> mem s' x = ucast (drop_bit 8 (of_nat 28260 + (x - 0x5000) :: u32))"
    "fd_position (mem s') 0x2300 = fd_position (mem ?s) 0x2300" by meson
  have "mem s' 0x5003 = 110" using s'(2) [of "0x5003"] by (simp add: within_def)
  then show ?thesis using s'(1,3) v(7) by metis
qed

section \<open>Names\<close>

text \<open>The part of a field of a directory entry that counts: up to the first blank or zero.\<close>

definition name_part :: "u8 list \<Rightarrow> u8 list" where
  "name_part cs = takeWhile (\<lambda>c. c \<noteq> 0 \<and> c \<noteq> 0x20) cs"

definition short_name :: "u8 list \<Rightarrow> u8 list \<Rightarrow> u8 list" where
  "short_name base ext = name_part base @ (if name_part ext = [] then [] else 0x2E # name_part ext)"

lemma offset_inj:
  fixes a :: u32
  assumes "i < 2 ^ 32" and "j < 2 ^ 32"
  shows "a + of_nat i = a + of_nat j \<longleftrightarrow> i = j"
  using of_nat_u32_eq_iff [OF assms] by simp

lemma bytes_at_append: "bytes_at m a (i + j) = bytes_at m a i @ bytes_at m (a + of_nat i) j"
proof (induction i arbitrary: a)
  case (Suc i)
  then show ?case by (simp add: bytes_at_Suc add.assoc)
qed simp

lemma name_part_length: "length (name_part cs) \<le> length cs"
  by (simp add: name_part_def length_takeWhile_le)

lemma name_part_no_zero: "0 \<notin> set (name_part cs)"
  by (auto simp: name_part_def dest: set_takeWhileD)

text \<open>The copy of one field. The terminator is written unless the field ends in a zero byte.\<close>

lemma proper_string_loop_spec:
  assumes "0 < n" and "counter + n = sz" and "n < 2 ^ 31"
    and "\<forall>i\<le>n. \<forall>j<n. out + of_nat i \<noteq> inp + of_nat j"
  shows "\<exists>m'. proper_string_loop m out inp counter sz = (m', out + of_nat (length (name_part (bytes_at m inp n))))
    \<and> bytes_at m' out (length (name_part (bytes_at m inp n))) = name_part (bytes_at m inp n)
    \<and> (m' (out + of_nat (length (name_part (bytes_at m inp n)))) = 0
       \<or> m' (out + of_nat (length (name_part (bytes_at m inp n)))) = m (out + of_nat (length (name_part (bytes_at m inp n)))))
    \<and> (\<forall>x. (\<forall>i\<le>length (name_part (bytes_at m inp n)). x \<noteq> out + of_nat i) \<longrightarrow> m' x = m x)"
  using assms
proof (induction n arbitrary: m out inp counter)
  case 0
  then show ?case by simp
next
  case (Suc n)
  let ?c = "m inp"
  show ?case
  proof (cases "?c \<noteq> 0 \<and> ?c \<noteq> 0x20")
    case False
    then have "name_part (bytes_at m inp (Suc n)) = []" by (auto simp: name_part_def bytes_at_Suc)
    then show ?thesis
    proof -
      assume nil: "name_part (bytes_at m inp (Suc n)) = []"
      have "proper_string_loop m out inp counter sz = ((if ?c = 0x20 then m(out := 0) else m), out)"
        using False by (subst proper_string_loop.simps) auto
      then show ?thesis unfolding nil by (cases "?c = 0x20") auto
    qed
  next
    case True
    let ?m = "m(out := ?c)"
    have outp: "out \<noteq> inp + of_nat j" if "j < Suc n" for j
      using Suc.prems(4) [rule_format, of 0 j] that by simp
    have same: "bytes_at ?m (inp + 1) n = bytes_at m (inp + 1) n"
    proof (rule bytes_at_cong)
      fix i assume "i < n"
      then have "out \<noteq> inp + of_nat (Suc i)" by (intro outp) simp
      then show "?m (inp + 1 + of_nat i) = m (inp + 1 + of_nat i)" by (simp add: add.assoc)
    qed
    let ?part = "name_part (bytes_at m (inp + 1) n)"
    have part: "name_part (bytes_at m inp (Suc n)) = ?c # ?part"
      using True by (simp add: name_part_def bytes_at_Suc)
    have len: "length ?part \<le> n" using name_part_length [of "bytes_at m (inp + 1) n"] by simp
    have fresh: "out \<noteq> out + 1 + of_nat i" if "i \<le> n" for i
    proof -
      have "out + of_nat 0 \<noteq> out + of_nat (Suc i)"
        using that Suc.prems(3) by (subst offset_inj) simp_all
      then show ?thesis by (simp add: add.assoc)
    qed
    show ?thesis
    proof (cases "n = 0")
      case True
      have step: "proper_string_loop m out inp counter sz = (?m(out + 1 := 0), out + 1)"
        using \<open>?c \<noteq> 0 \<and> ?c \<noteq> 0x20\<close> Suc.prems(2) True by (subst proper_string_loop.simps) (simp add: Let_def)
      have nil: "?part = []" using len True by simp
      have "\<forall>x. (\<forall>i\<le>Suc 0. x \<noteq> out + of_nat i) \<longrightarrow> (?m(out + 1 := 0)) x = m x"
      proof (intro allI impI)
        fix x assume "\<forall>i\<le>Suc 0. x \<noteq> out + of_nat i"
        then have "x \<noteq> out + of_nat 0" "x \<noteq> out + of_nat (Suc 0)" by blast+
        then show "(?m(out + 1 := 0)) x = m x" by simp
      qed
      then show ?thesis unfolding part nil step using fresh [of 0] by (simp add: bytes_at_Suc)
    next
      case False
      have "\<forall>i\<le>n. \<forall>j<n. (out + 1) + of_nat i \<noteq> (inp + 1) + of_nat j"
      proof (intro allI impI)
        fix i j assume "i \<le> n" "j < n"
        then have "out + of_nat (Suc i) \<noteq> inp + of_nat (Suc j)"
          by (intro Suc.prems(4) [rule_format]) simp_all
        then show "(out + 1) + of_nat i \<noteq> (inp + 1) + of_nat j" by (simp add: add.assoc)
      qed
      moreover have "0 < n" "counter + 1 + n = sz" "n < 2 ^ 31" using False Suc.prems(2,3) by simp_all
      ultimately obtain m' where
        r: "proper_string_loop ?m (out + 1) (inp + 1) (counter + 1) sz = (m', out + 1 + of_nat (length ?part))"
        "bytes_at m' (out + 1) (length ?part) = ?part"
        "m' (out + 1 + of_nat (length ?part)) = 0 \<or> m' (out + 1 + of_nat (length ?part)) = ?m (out + 1 + of_nat (length ?part))"
        "\<And>x. \<forall>i\<le>length ?part. x \<noteq> out + 1 + of_nat i \<Longrightarrow> m' x = ?m x"
        using Suc.IH [of "counter + 1" "out + 1" "inp + 1" ?m, unfolded same] by blast
      have step: "proper_string_loop m out inp counter sz = proper_string_loop ?m (out + 1) (inp + 1) (counter + 1) sz"
        using True False Suc.prems(2) by (subst proper_string_loop.simps) (simp add: Let_def)
      have "\<forall>i\<le>length ?part. out \<noteq> out + 1 + of_nat i" using fresh len by (meson le_trans)
      then have "m' out = ?c" using r(4) [of out] by simp
      moreover have "m' x = m x" if "\<forall>i\<le>Suc (length ?part). x \<noteq> out + of_nat i" for x
      proof -
        have "x \<noteq> out" using that [rule_format, of 0] by simp
        moreover have "x \<noteq> out + 1 + of_nat i" if i: "i \<le> length ?part" for i
          using \<open>\<forall>i\<le>Suc (length ?part). x \<noteq> out + of_nat i\<close> [rule_format, of "Suc i"] i by (simp add: add.assoc)
        ultimately show ?thesis using r(4) [of x] by simp
      qed
      moreover have "?m (out + 1 + of_nat (length ?part)) = m (out + 1 + of_nat (length ?part))"
        using fresh [OF len] by simp
      ultimately show ?thesis
        unfolding part step r(1) using r(2,3) by (simp add: bytes_at_Suc add.assoc)
    qed
  qed
qed

text \<open>One field copied into a zeroed buffer, up to 12 bytes from its start.\<close>

lemma field_copied:
  assumes "0 < n" and "k + n < 64" and "\<forall>i<64. \<forall>j<n. out + of_nat i \<noteq> inp + of_nat j"
    and zero: "\<forall>i. k \<le> i \<and> i < 64 \<longrightarrow> m (out + of_nat i) = 0"
  obtains m' where "fat16_to_proper_string m (out + of_nat k) inp n
      = (m', out + of_nat (k + length (name_part (bytes_at m inp n))))"
    and "bytes_at m' (out + of_nat k) (length (name_part (bytes_at m inp n))) = name_part (bytes_at m inp n)"
    and "\<And>i. i < k \<Longrightarrow> m' (out + of_nat i) = m (out + of_nat i)"
    and "\<And>i. k + length (name_part (bytes_at m inp n)) \<le> i \<Longrightarrow> i < 64 \<Longrightarrow> m' (out + of_nat i) = 0"
    and "\<And>x. \<not> within out 64 x \<Longrightarrow> m' x = m x"
proof -
  let ?part = "name_part (bytes_at m inp n)" and ?o = "out + of_nat k"
  have len: "length ?part \<le> n" using name_part_length [of "bytes_at m inp n"] by simp
  have sh: "?o + of_nat i = out + of_nat (k + i)" for i by (simp add: add.assoc)
  have "\<forall>i\<le>n. \<forall>j<n. ?o + of_nat i \<noteq> inp + of_nat j"
    unfolding sh by (intro allI impI assms(3) [rule_format]) (use assms(2) in simp_all)
  moreover have "0 + n = n" "n < 2 ^ 31" using assms(2) by simp_all
  ultimately obtain m' where r: "proper_string_loop m ?o inp 0 n = (m', ?o + of_nat (length ?part))"
    "bytes_at m' ?o (length ?part) = ?part"
    "m' (?o + of_nat (length ?part)) = 0 \<or> m' (?o + of_nat (length ?part)) = m (?o + of_nat (length ?part))"
    "\<And>x. \<forall>i\<le>length ?part. x \<noteq> ?o + of_nat i \<Longrightarrow> m' x = m x"
    using proper_string_loop_spec [OF assms(1), of 0 n ?o inp m] by blast
  have inj: "out + of_nat i = out + of_nat j \<longleftrightarrow> i = j" if "i < 64" "j < 64" for i j
    using that by (intro offset_inj) simp_all
  have keep: "m' (out + of_nat i) = m (out + of_nat i)" if "i < 64" "i < k \<or> k + length ?part < i" for i
  proof (rule r(4), intro allI impI)
    fix j assume "j \<le> length ?part"
    then show "out + of_nat i \<noteq> ?o + of_nat j"
      unfolding sh using that len assms(2) by (subst inj) auto
  qed
  have fin: "m' (out + of_nat (k + length ?part)) = 0"
    using r(3) zero [rule_format, of "k + length ?part"] len assms(2) unfolding sh by auto
  show ?thesis
  proof (rule that)
    show "fat16_to_proper_string m ?o inp n = (m', out + of_nat (k + length ?part))"
      unfolding fat16_to_proper_string_def r(1) sh ..
    show "bytes_at m' ?o (length ?part) = ?part" by (rule r(2))
    show "m' (out + of_nat i) = m (out + of_nat i)" if "i < k" for i
      using that assms(2) by (intro keep) simp_all
    show "m' (out + of_nat i) = 0" if "k + length ?part \<le> i" "i < 64" for i
      using that fin keep [of i] zero [rule_format, of i] by (cases "i = k + length ?part") simp_all
    show "m' x = m x" if "\<not> within out 64 x" for x
    proof (rule r(4), intro allI impI notI)
      fix i assume i: "i \<le> length ?part" and x: "x = ?o + of_nat i"
      have "unat (of_nat (k + i) :: u32) = k + i" using i len assms(2) by (intro unat_of_nat_less) simp
      then have "within out 64 (out + of_nat (k + i))"
        using i len assms(2) by (simp only: within_def word_less_nat_alt) simp
      then show False using that x unfolding sh by simp
    qed
  qed
qed

lemma name_part_Nil: "name_part (bytes_at m a (Suc n)) = [] \<longleftrightarrow> m a = 0 \<or> m a = 0x20"
  by (auto simp: name_part_def bytes_at_Suc)

lemma fat16_full_name:
  assumes ap: "\<forall>i<64. \<forall>j<11. out + of_nat i \<noteq> file + of_nat j"
  shows "cstr (fat16_get_full_relative_name m file out 64) out
      (short_name (bytes_at m file 8) (bytes_at m (file + 8) 3))"
    and "\<not> within out 64 x \<Longrightarrow> fat16_get_full_relative_name m file out 64 x = m x"
proof -
  let ?m0 = "memset m out 0 64"
  let ?base = "name_part (bytes_at m file 8)" and ?ext = "name_part (bytes_at m (file + 8) 3)"
  have w: "within out 64 (out + of_nat i)" if "i < 64" for i
  proof -
    have "unat (of_nat i :: u32) = i" using that by (intro unat_of_nat_less) simp
    then show ?thesis using that by (simp add: within_def word_less_nat_alt)
  qed
  have nin: "\<not> within out 64 (file + of_nat j)" if "j < 11" for j
  proof
    assume "within out 64 (file + of_nat j)"
    then have "unat (file + of_nat j - out) < 64" by (simp add: within_def word_less_nat_alt)
    moreover have "out + of_nat (unat (file + of_nat j - out)) = file + of_nat j" by simp
    ultimately show False using ap that by metis
  qed
  have ap8: "\<forall>i<64. \<forall>j<8. out + of_nat i \<noteq> file + of_nat j" using ap by simp
  have ap3: "\<forall>i<64. \<forall>j<3. out + of_nat i \<noteq> file + 8 + of_nat j"
  proof (intro allI impI)
    fix i j :: nat assume "i < 64" "j < 3"
    then have "out + of_nat i \<noteq> file + of_nat (8 + j)" by (intro ap [rule_format]) simp_all
    then show "out + of_nat i \<noteq> file + 8 + of_nat j" by (simp add: add.assoc)
  qed
  have b0: "bytes_at ?m0 file 8 = bytes_at m file 8"
    by (rule bytes_at_cong) (use nin in \<open>simp add: memset_eq\<close>)
  have z0: "?m0 (out + of_nat i) = 0" if "i < 64" for i using w [OF that] by (simp add: memset_eq)
  have len: "length ?base \<le> 8" "length ?ext \<le> 3"
    using name_part_length [of "bytes_at m file 8"] name_part_length [of "bytes_at m (file + 8) 3"] by simp_all
  have zz: "\<forall>i. 0 \<le> i \<and> i < 64 \<longrightarrow> ?m0 (out + of_nat i) = 0" using z0 by blast
  have n8: "0 < (8 :: nat)" "0 + 8 < (64 :: nat)" by simp_all
  obtain m1 where r1: "fat16_to_proper_string ?m0 (out + of_nat 0) file 8 = (m1, out + of_nat (0 + length ?base))"
    "bytes_at m1 (out + of_nat 0) (length ?base) = ?base"
    "\<And>i. 0 + length ?base \<le> i \<Longrightarrow> i < 64 \<Longrightarrow> m1 (out + of_nat i) = 0"
    "\<And>x. \<not> within out 64 x \<Longrightarrow> m1 x = ?m0 x"
    by (rule field_copied [OF n8 ap8 zz, unfolded b0]) (rule that)
  have fr1: "m1 x = m x" if "\<not> within out 64 x" for x using r1(4) [OF that] that by (simp add: memset_eq)
  have f8: "m1 (file + 8) = m (file + 8)" using fr1 [OF nin [of 8]] by simp
  have e3: "?ext = [] \<longleftrightarrow> m (file + 8) = 0 \<or> m (file + 8) = 0x20"
    using name_part_Nil [of m "file + 8" 2] by (simp add: numeral_3_eq_3)
  have base: "cstr m1 out ?base"
    using r1(2) r1(3) [of "length ?base"] len name_part_no_zero by (simp add: cstr_def)
  have goal: "cstr (fat16_get_full_relative_name m file out 64) out
      (short_name (bytes_at m file 8) (bytes_at m (file + 8) 3))
    \<and> (\<forall>x. \<not> within out 64 x \<longrightarrow> fat16_get_full_relative_name m file out 64 x = m x)"
  proof (cases "?ext = []")
    case True
    then have "fat16_get_full_relative_name m file out 64 = m1"
      using r1(1) e3 f8 by (auto simp: fat16_get_full_relative_name_def Let_def)
    then show ?thesis using base fr1 True by (simp add: short_name_def)
  next
    case False
    let ?k = "length ?base"
    let ?m2 = "m1(out + of_nat ?k := 0x2E)"
    have inj: "out + of_nat i = out + of_nat ?k \<longleftrightarrow> i = ?k" if "i < 64" for i
      using that len by (intro offset_inj) simp_all
    have wk: "within out 64 (out + of_nat ?k)" using len by (intro w) simp
    have b2: "bytes_at ?m2 (file + 8) 3 = bytes_at m (file + 8) 3"
    proof (rule bytes_at_cong)
      fix i :: nat assume "i < 3"
      then have "\<not> within out 64 (file + of_nat (8 + i))" by (intro nin) simp
      moreover have e: "file + of_nat (8 + i) = file + 8 + of_nat i" by (simp add: add.assoc)
      ultimately show "?m2 (file + 8 + of_nat i) = m (file + 8 + of_nat i)"
        using wk fr1 by (metis fun_upd_other)
    qed
    have z2: "\<forall>i. ?k + 1 \<le> i \<and> i < 64 \<longrightarrow> ?m2 (out + of_nat i) = 0"
      using r1(3) inj by simp
    have sh: "out + of_nat (?k + 1) = out + of_nat ?k + 1" by (simp add: algebra_simps)
    have n3: "0 < (3 :: nat)" "?k + 1 + 3 < 64" using len by simp_all
    obtain m3 where r3: "fat16_to_proper_string ?m2 (out + of_nat (?k + 1)) (file + 8) 3
        = (m3, out + of_nat (?k + 1 + length ?ext))"
      "bytes_at m3 (out + of_nat (?k + 1)) (length ?ext) = ?ext"
      "\<And>i. i < ?k + 1 \<Longrightarrow> m3 (out + of_nat i) = ?m2 (out + of_nat i)"
      "\<And>i. ?k + 1 + length ?ext \<le> i \<Longrightarrow> i < 64 \<Longrightarrow> m3 (out + of_nat i) = 0"
      "\<And>x. \<not> within out 64 x \<Longrightarrow> m3 x = ?m2 x"
      by (rule field_copied [OF n3 ap3 z2, unfolded b2]) (rule that)
    have m3: "fat16_get_full_relative_name m file out 64 = m3"
      using r1(1) e3 f8 False r3(1) [unfolded sh] by (simp add: fat16_get_full_relative_name_def Let_def)
    have "bytes_at m3 out ?k = ?base"
    proof -
      have "bytes_at m3 out ?k = bytes_at m1 out ?k"
        by (rule bytes_at_cong) (use r3(3) inj len in simp)
      then show ?thesis using r1(2) by simp
    qed
    then have "bytes_at m3 out (?k + Suc (length ?ext)) = ?base @ 0x2E # ?ext"
      using r3(2) [unfolded sh] r3(3) [of ?k] by (simp only: bytes_at_append bytes_at_Suc) simp
    moreover have "m3 (out + of_nat (?k + Suc (length ?ext))) = 0" using len by (intro r3(4)) simp_all
    ultimately have "cstr m3 out (?base @ 0x2E # ?ext)"
      using name_part_no_zero by (simp add: cstr_def)
    moreover have "m3 x = m x" if "\<not> within out 64 x" for x
      using r3(5) [OF that] fr1 [OF that] wk that by auto
    ultimately show ?thesis using False m3 by (simp add: short_name_def)
  qed
  show "cstr (fat16_get_full_relative_name m file out 64) out
      (short_name (bytes_at m file 8) (bytes_at m (file + 8) 3))"
    and "\<not> within out 64 x \<Longrightarrow> fat16_get_full_relative_name m file out 64 x = m x"
    using goal by simp_all
qed

text \<open>C23: the name of a directory entry. \<open>fat16_get_full_relative_name\<close> writes, as a C string, the
  part of the eight bytes of the name before the first blank or zero and, when the extension has such a
  part, a dot and that part of its three bytes. It writes nowhere outside its buffer of 64 bytes.\<close>

theorem fat16_name_is_short_name:
  assumes "\<forall>i<64. \<forall>j<11. out + of_nat i \<noteq> file + of_nat j"
  shows "cstr (fat16_get_full_relative_name m file out 64) out
      (short_name (bytes_at m file 8) (bytes_at m (file + 8) 3))
    \<and> (\<forall>x. within out 64 x \<or> fat16_get_full_relative_name m file out 64 x = m x)"
  using fat16_full_name [OF assms] by blast

definition demo_entry :: memory where
  "demo_entry = (\<lambda>_. 0x20)(0x2500 := 0x4D, 0x2501 := 0x41, 0x2502 := 0x49, 0x2503 := 0x4E, 0x2508 := 0x4F)"

theorem fat16_name_is_short_name_witness:
  "cstr (fat16_get_full_relative_name demo_entry 0x2500 0x5000 64) 0x5000 [0x4D, 0x41, 0x49, 0x4E, 0x2E, 0x4F]"
proof -
  have "\<forall>i<64. \<forall>j<11. (0x5000 :: u32) + of_nat i \<noteq> 0x2500 + of_nat j"
  proof (intro allI impI notI)
    fix i j :: nat assume i: "i < 64" and j: "j < 11" and e: "(0x5000 :: u32) + of_nat i = 0x2500 + of_nat j"
    have "(of_nat (0x5000 + i) :: u32) = of_nat (0x2500 + j)" using e by (simp only: of_nat_add of_nat_numeral)
    then have "0x5000 + i = 0x2500 + j" using i j by (subst (asm) of_nat_u32_eq_iff) simp_all
    then show False using j by simp
  qed
  moreover have "short_name (bytes_at demo_entry 0x2500 8) (bytes_at demo_entry (0x2500 + 8) 3)
      = [0x4D, 0x41, 0x49, 0x4E, 0x2E, 0x4F]"
    by code_simp
  ultimately show ?thesis using fat16_name_is_short_name [of "0x5000" "0x2500" demo_entry] by metis
qed

end
