(* ===== verification/Fat16_Dir.thy ===== *)
theory Fat16_Dir
  imports Fat16_Files Paging
begin

text \<open>
  The directories of the FAT16 driver: how \<open>fat16_total_files_in_directory\<close> counts the entries on the
  disk, and what \<open>fat16_get_root\<close> keeps of the root directory.
\<close>

section \<open>Counting the entries of a directory\<close>

text \<open>The first bytes of the entries from \<open>p\<close> on: \<open>k\<close> entries in use or deleted, then the end.\<close>

definition entries_end :: "(u32 \<Rightarrow> u8) \<Rightarrow> u32 \<Rightarrow> nat \<Rightarrow> bool" where
  "entries_end img p k \<longleftrightarrow> (\<forall>i<k. img (p + 32 * of_nat i) \<noteq> 0) \<and> img (p + 32 * of_nat k) = 0"

definition live_entries :: "(u32 \<Rightarrow> u8) \<Rightarrow> u32 \<Rightarrow> nat \<Rightarrow> nat" where
  "live_entries img p k = length (filter (\<lambda>i. img (p + 32 * of_nat i) \<noteq> 0xE5) [0..<k])"

lemma entries_end_Suc:
  "entries_end img p (Suc k) \<longleftrightarrow> img p \<noteq> 0 \<and> entries_end img (p + 32) k"
  unfolding entries_end_def All_less_Suc2 by (simp add: algebra_simps)

lemma live_entries_Suc:
  "live_entries img p (Suc k) = (if img p = 0xE5 then 0 else 1) + live_entries img (p + 32) k"
proof -
  have "filter f (map Suc xs) = map Suc (filter (\<lambda>i. f (Suc i)) xs)" for f xs by (induction xs) auto
  then show ?thesis
    unfolding live_entries_def upt_conv_Cons [OF zero_less_Suc] map_Suc_upt [symmetric] by (simp add: algebra_simps)
qed

lemma live_entries_le: "live_entries img p k \<le> k"
  unfolding live_entries_def by (rule le_trans [OF length_filter_le]) simp

text \<open>Reading on at the position of the stream; what is left is the position after the end.\<close>

lemma count_files_loop_counts:
  fixes s :: "'a mach_scheme"
  assumes "ata_serves (device s) img sectors" and "sectors \<le> 2 ^ 23"
    and "stream_ok s st (local_addr s Temp_file) 32"
    and "entries_end img (streamer_pos (mem s) st) k"
    and "(unat (streamer_pos (mem s) st) + 32 * Suc k) div 512 < sectors"
  shows "\<exists>m h. count_files_loop s st n = Some (n + of_nat (live_entries img (streamer_pos (mem s) st) k), s\<lparr>mem := m, io_log := h\<rparr>)
    \<and> (\<forall>x. \<not> within (local_addr s Temp_file) 32 x \<and> \<not> within (local_addr s Temp_buffer) 512 x \<and> \<not> within st 4 x
         \<longrightarrow> m x = mem s x)"
  using assms
proof (induction k arbitrary: s n)
  case (0 s n)
  let ?t = "local_addr s Temp_file"
  have "(unat (streamer_pos (mem s) st) + unat (32 :: u32)) div 512 < sectors" using 0(5) by simp
  from disk_stream_read_flat [OF 0(1) this 0(2,3)] obtain m h where
    r: "disk_stream_read s st ?t 32 = Some (s\<lparr>mem := m, io_log := h\<rparr>)"
    "\<forall>x. within ?t 32 x \<longrightarrow> m x = img (streamer_pos (mem s) st + (x - ?t))"
    "\<forall>x. \<not> within ?t 32 x \<and> \<not> within (local_addr s Temp_buffer) 512 x \<and> \<not> within st 4 x \<longrightarrow> m x = mem s x"
    by blast
  have "within ?t 32 ?t" by (simp add: within_def)
  then have "m ?t = 0" using r(2) 0(4) by (simp add: entries_end_def)
  then have "count_files_loop s st n = Some (n, s\<lparr>mem := m, io_log := h\<rparr>)"
    using r(1) by (subst count_files_loop.simps) simp
  then show ?case using r(3) by (intro exI [of _ m] exI [of _ h]) (simp add: live_entries_def)
next
  case (Suc k s n)
  let ?t = "local_addr s Temp_file" and ?p = "streamer_pos (mem s) st"
  have "unat ?p + 32 * Suc (Suc k) < 2 ^ 32" using Suc.prems(2,5) by (simp add: div_less_iff_less_mult)
  then have p: "unat (?p + 32) = unat ?p + 32" by (intro unat_add_lem [THEN iffD1, THEN trans]) simp_all
  have "(unat ?p + 32) div 512 \<le> (unat ?p + 32 * Suc (Suc k)) div 512" by (rule div_le_mono) simp
  then have "(unat ?p + unat (32 :: u32)) div 512 < sectors" using Suc.prems(5) by simp
  from disk_stream_read_flat [OF Suc.prems(1) this Suc.prems(2,3)] obtain m h where
    r: "disk_stream_read s st ?t 32 = Some (s\<lparr>mem := m, io_log := h\<rparr>)"
    "\<forall>x. within ?t 32 x \<longrightarrow> m x = img (?p + (x - ?t))" "streamer_pos m st = ?p + 32"
    "\<forall>x. \<not> within ?t 32 x \<and> \<not> within (local_addr s Temp_buffer) 512 x \<and> \<not> within st 4 x \<longrightarrow> m x = mem s x"
    by blast
  let ?s = "s\<lparr>mem := m, io_log := h\<rparr>" and ?n = "if img ?p = 0xE5 then n else n + 1"
  have "within ?t 32 ?t" by (simp add: within_def)
  then have b: "m ?t = img ?p" using r(2) by simp
  have e: "img ?p \<noteq> 0" "entries_end img (?p + 32) k" using Suc.prems(4) by (simp_all add: entries_end_Suc)
  have step: "count_files_loop s st n = count_files_loop ?s st ?n"
    using r(1) b e(1) by (subst count_files_loop.simps) simp
  have "ata_serves (device ?s) img sectors" "stream_ok ?s st (local_addr ?s Temp_file) 32"
    "entries_end img (streamer_pos (mem ?s) st) k" "(unat (streamer_pos (mem ?s) st) + 32 * Suc k) div 512 < sectors"
    using Suc.prems(1,3,5) e(2) by (simp_all add: stream_ok_def r(3) p)
  from Suc.IH [OF this(1) Suc.prems(2) this(2-4), of ?n] obtain m' h' where
    c: "count_files_loop ?s st ?n = Some (?n + of_nat (live_entries img (?p + 32) k), s\<lparr>mem := m', io_log := h'\<rparr>)"
    "\<forall>x. \<not> within ?t 32 x \<and> \<not> within (local_addr s Temp_buffer) 512 x \<and> \<not> within st 4 x \<longrightarrow> m' x = m x"
    by (auto simp: r(3))
  show ?case
    unfolding step c(1) live_entries_Suc using c(2) r(4) by (intro exI [of _ m'] exI [of _ h']) auto
qed

lemma total_files_counts:
  fixes s :: "'a mach_scheme"
  assumes "ata_serves (device s) img sectors" and "sectors \<le> 2 ^ 23"
    and st: "st = directory_streamer (mem s) priv" and "stream_ok s st (local_addr s Temp_file) 32"
    and "apart (priv + 88) 4 st 4" and "apart (priv + 88) 4 (local_addr s Temp_file) 32"
    and p: "p = dir_first_sector (mem s) dir * disk_sector_size (mem s) disk" and "entries_end img p k"
    and "(unat p + 32 * Suc k) div 512 < sectors"
  obtains m h where "fat16_total_files_in_directory s disk priv dir
      = Some (of_nat (live_entries img p k), s\<lparr>mem := m, io_log := h\<rparr>)"
    and "\<forall>x. \<not> within (local_addr s Temp_file) 32 x \<and> \<not> within (local_addr s Temp_buffer) 512 x \<and> \<not> within st 4 x
         \<longrightarrow> m x = mem s x"
proof -
  let ?t = "local_addr s Temp_file"
  let ?m = "memset (store32 (mem s) st p) ?t 0 32"
  let ?s = "s\<lparr>mem := ?m\<rparr>"
  have out: "?m x = mem s x" if "\<not> within ?t 32 x" "\<not> within st 4 x" for x
    using that by (simp add: memset_eq store32_other)
  have "load32 ?m st = load32 (store32 (mem s) st p) st"
    using assms(4) by (intro load32_cong) (auto simp: memset_eq stream_ok_def dest: apartD')
  then have pos: "streamer_pos (mem ?s) st = p" by (simp add: streamer_pos_def)
  have "?m x = mem s x" if "within (priv + 88) 4 x" for x
    using out apartD [OF assms(5) that] apartD [OF assms(6) that] by blast
  then have "directory_streamer ?m priv = st"
    unfolding st directory_streamer_def by (rule load32_cong)
  then have e: "fat16_total_files_in_directory s disk priv dir = count_files_loop ?s st 0"
    by (simp add: fat16_total_files_in_directory_def Let_def disk_stream_seek_def set_streamer_pos_def p st)
  have "ata_serves (device ?s) img sectors" "stream_ok ?s st (local_addr ?s Temp_file) 32"
    "entries_end img (streamer_pos (mem ?s) st) k" "(unat (streamer_pos (mem ?s) st) + 32 * Suc k) div 512 < sectors"
    using assms(1,4,8,9) unfolding pos by (simp_all add: stream_ok_def)
  from count_files_loop_counts [OF this(1) assms(2) this(2-4), of 0] obtain m h where
    c: "count_files_loop ?s st 0 = Some (of_nat (live_entries img p k), s\<lparr>mem := m, io_log := h\<rparr>)"
    "\<forall>x. \<not> within ?t 32 x \<and> \<not> within (local_addr s Temp_buffer) 512 x \<and> \<not> within st 4 x \<longrightarrow> m x = ?m x"
    unfolding pos by auto
  show thesis using that [OF c(1) [folded e]] c(2) out by simp
qed

section \<open>The root directory\<close>

text \<open>Where the objects of a mounted volume are: in blocks of the heap that are in use, the stream away from the
  private data and both away from the disk's sector size; the local objects below the heap.\<close>

definition volume_ok :: "'a mach_scheme \<Rightarrow> u32 \<Rightarrow> u32 \<Rightarrow> bool" where
  "volume_ok s disk priv \<longleftrightarrow> kinv s
     \<and> (\<forall>x. within priv 92 x \<or> within (disk + 4) 4 x \<or> within (directory_streamer (mem s) priv) 4 x \<longrightarrow> x \<in> kused s)
     \<and> apart priv 92 (directory_streamer (mem s) priv) 4 \<and> apart priv 92 (disk + 4) 4
     \<and> (\<forall>x. within (local_addr s Temp_file) 32 x \<or> within (local_addr s Temp_buffer) 512 x
          \<longrightarrow> unat x < unat (heap_base (kheap s)))
     \<and> apart (local_addr s Temp_file) 32 (local_addr s Temp_buffer) 512"

lemma local_not_used:
  assumes "volume_ok s disk priv" and "kinv t" and "rest t = rest s"
    and "within (local_addr s Temp_file) 32 x \<or> within (local_addr s Temp_buffer) 512 x"
  shows "x \<notin> kused t"
proof
  assume "x \<in> kused t"
  from used_in_heap [OF assms(2) this] have "unat (heap_base (kheap s)) \<le> unat x"
    by (simp add: rest_eqD(11) [OF assms(3)])
  moreover have "unat x < unat (heap_base (kheap s))" using assms(1,4) unfolding volume_ok_def by blast
  ultimately show False by simp
qed

text \<open>The bytes of the root directory arrive in their block, through a stream of their own.\<close>

lemma root_bytes:
  fixes s :: "'a mach_scheme"
  assumes "ata_serves (device s) img sectors" and "sectors \<le> 2 ^ 23" and vol: "volume_ok s disk priv"
    and k: "kzalloc s n = Some (rf, s1)" "rf \<noteq> 0" and av: "0 < kavail s1"
    and "(unat p + unat n) div 512 < sectors"
  obtains q s2 s3 where "disk_stream_new s1 = Some (q, s2)"
    and "disk_stream_read (disk_stream_seek s2 q p) q rf n = Some s3" and "kinv s3" and "rest s3 = rest s"
    and "\<forall>x. within rf n x \<longrightarrow> mem s3 x = img (p + (x - rf))"
    and "\<forall>x. x \<in> kused s \<longrightarrow> mem s2 x = mem s x \<and> mem s3 x = mem s x"
    and "\<forall>x. within rf n x \<longrightarrow> x \<notin> kused s \<and> x \<in> kused s3" and "kused s \<subseteq> kused s3"
proof -
  have inv: "kinv s" using vol by (simp add: volume_ok_def)
  have inv1: "kinv s1" by (rule kz.alloc_inv [OF inv k(1)])
  have r1: "rest s1 = rest s" by (rule kzalloc_rest [OF k(1)])
  have n4: "(0 :: u32) < 4" "(4 :: u32) \<le> 4096" by simp_all
  obtain q t where q: "kzalloc s1 4 = Some (q, t)" "q \<noteq> 0" "kinv t" "kused s1 \<subseteq> kused t"
    "\<forall>x. within q 4 x \<longrightarrow> x \<notin> kused s1 \<and> x \<in> kused t" "\<forall>x. x \<in> kused s1 \<longrightarrow> mem t x = mem s1 x"
    by (rule pages.alloc_pageE [OF inv1 av n4]) (rule that, assumption+)
  have rt: "rest t = rest s" using kzalloc_rest [OF q(1)] r1 by simp
  let ?s2 = "t\<lparr>mem := store32 (mem t) q 0\<rparr>" and ?tb = "local_addr s Temp_buffer"
  have new: "disk_stream_new s1 = Some (q, ?s2)" by (simp add: disk_stream_new_def q(1) set_streamer_pos_def)
  have la: "local_addr ?s2 = local_addr s" and dv: "device ?s2 = device s" using rest_eqD(9,4) [OF rt] by simp_all
  have fresh: "x \<notin> kused s \<and> x \<in> kused s1" if "within rf n x" for x
    using kz.alloc_fresh [OF inv k that] kz.alloc_used [OF inv k that] by blast
  have mono: "x \<in> kused s1" if "x \<in> kused s" for x using kz.alloc_mono [OF inv k(1)] that by blast
  have tb: "x \<notin> kused t" if "within ?tb 512 x" for x using local_not_used [OF vol q(3) rt] that by blast
  have ok: "stream_ok ?s2 q rf n"
    unfolding stream_ok_def la apart_def using fresh q(4,5) tb by blast
  have "ata_serves (device ?s2) img sectors" using assms(1) by (simp only: dv)
  note sr = seek_read [OF this assms(2,7) ok]
  obtain s3 where s3: "disk_stream_read (disk_stream_seek ?s2 q p) q rf n = Some s3"
    "s3 = ?s2\<lparr>mem := mem s3, io_log := io_log s3\<rparr>" "\<And>x. within rf n x \<Longrightarrow> mem s3 x = img (p + (x - rf))"
    "\<And>x. \<not> within rf n x \<Longrightarrow> \<not> within (local_addr ?s2 Temp_buffer) 512 x \<Longrightarrow> \<not> within q 4 x \<Longrightarrow> mem s3 x = mem ?s2 x"
    by (rule sr) (rule that)
  have kh: "kheap s3 = kheap t" by (subst s3(2)) simp
  have rs: "rest s3 = rest s" unfolding rt [symmetric] by (subst s3(2)) simp
  have old: "mem ?s2 x = mem s x \<and> mem s3 x = mem s x" if x: "x \<in> kused s" for x
  proof -
    have nq: "\<not> within q 4 x" and nf: "\<not> within rf n x" using q(5) fresh mono [OF x] x by blast+
    have "mem ?s2 x = mem s x"
      using q(6) mono [OF x] kz.alloc_keeps_used [OF inv k(1) x] nq by (simp add: store32_other)
    moreover have "\<not> within (local_addr ?s2 Temp_buffer) 512 x" unfolding la using tb q(4) mono [OF x] by blast
    ultimately show ?thesis using s3(4) [OF nf _ nq] by simp
  qed
  show thesis
  proof (rule that [OF new s3(1) _ rs])
    show "kinv s3" using q(3) by (simp only: kh)
    show "\<forall>x. within rf n x \<longrightarrow> mem s3 x = img (p + (x - rf))" using s3(3) by blast
    show "\<forall>x. x \<in> kused s \<longrightarrow> mem ?s2 x = mem s x \<and> mem s3 x = mem s x" using old by blast
    show "\<forall>x. within rf n x \<longrightarrow> x \<notin> kused s \<and> x \<in> kused s3" unfolding kh using fresh q(4) by blast
    show "kused s \<subseteq> kused s3" unfolding kh using mono q(4) by blast
  qed
qed

text \<open>The fields of the root directory, once its three first are stored and its entries counted.\<close>

definition root_stored :: "memory \<Rightarrow> u32 \<Rightarrow> u32 \<Rightarrow> u32 \<Rightarrow> u32 \<Rightarrow> memory" where
  "root_stored m root rf first last_sec = store32 (store32 (store32 m root rf) (root + 8) first) (root + 12) last_sec"

lemma root_stored_fields:
  "dir_files (root_stored m root rf a b) root = rf" "dir_first_sector (root_stored m root rf a b) root = a"
  "dir_last_sector (root_stored m root rf a b) root = b"
  by (simp_all add: root_stored_def dir_files_def dir_first_sector_def dir_last_sector_def apart4_def)

lemma root_stored_other:
  assumes "\<not> within root 16 x"
  shows "root_stored m root rf a b x = m x"
proof -
  have "\<not> within root 4 x" "\<not> within (root + 8) 4 x" "\<not> within (root + 12) 4 x"
    using assms within_offset [of root 0 4 x 16] within_offset [of root 8 4 x 16] within_offset [of root 12 4 x 16] by auto
  then show ?thesis by (simp add: root_stored_def store32_other)
qed

lemma root_counted:
  fixes s :: "'a mach_scheme" and rf last_sec :: u32
  assumes "ata_serves (device s) img sectors" and "sectors \<le> 2 ^ 23" and vol: "volume_ok s disk priv"
    and s3: "kinv s3" "rest s3 = rest s" "\<forall>x. x \<in> kused s \<longrightarrow> mem s3 x = mem s x"
    and p: "p = first * disk_sector_size (mem s) disk" and "entries_end img p k"
    and "(unat p + 32 * Suc k) div 512 < sectors"
  defines "root \<equiv> private_root priv"
  defines "m4 \<equiv> root_stored (mem s3) root rf first last_sec"
  obtains m h where "fat16_total_files_in_directory (s3\<lparr>mem := m4\<rparr>) disk priv root
      = Some (of_nat (live_entries img p k), s3\<lparr>mem := m, io_log := h\<rparr>)"
    and "\<forall>x. x \<in> kused s3 \<and> \<not> within (directory_streamer (mem s) priv) 4 x \<longrightarrow> m x = m4 x"
proof -
  let ?s4 = "s3\<lparr>mem := m4\<rparr>" and ?st = "directory_streamer (mem s) priv" and ?t = "local_addr s Temp_file"
  have la: "local_addr ?s4 = local_addr s" and dv: "device ?s4 = device s" using rest_eqD(9,4) [OF s3(2)] by simp_all
  have inr: "within priv 92 x" if "within root 16 x" for x
    using within_offset [of priv 64 16 x 92] that by (simp add: root_def private_root_def)
  have used: "x \<in> kused s" if "within priv 92 x \<or> within (disk + 4) 4 x \<or> within ?st 4 x" for x
    using vol that unfolding volume_ok_def by blast
  have ap: "apart priv 92 ?st 4" "apart priv 92 (disk + 4) 4" "apart ?t 32 (local_addr s Temp_buffer) 512"
    using vol by (simp_all add: volume_ok_def)
  have same: "m4 x = mem s x" if "x \<in> kused s" "\<not> within root 16 x" for x
    using root_stored_other [OF that(2)] s3(3) that(1) by (simp add: m4_def)
  have loc: "x \<notin> kused s" if "within ?t 32 x \<or> within (local_addr s Temp_buffer) 512 x" for x
    using local_not_used [OF vol _ refl that] vol by (simp add: volume_ok_def)
  have fld: "within priv 92 x \<and> \<not> within root 16 x" if "within (priv + 88) 4 x" for x
  proof
    show "within priv 92 x" using within_offset [of priv 88 4 x 92] that by simp
    have e: "x - (priv + 64) = (x - (priv + 88)) + 24" by simp
    have "\<not> d + 24 < 16" if "d < 4" for d :: u32
    proof -
      have "unat (d + 24) = unat d + unat (24 :: u32)"
        using that by (intro unat_add_lem [THEN iffD1]) (simp add: word_less_nat_alt)
      then show ?thesis by (simp add: word_less_nat_alt)
    qed
    from this [OF that [unfolded within_def]] show "\<not> within root 16 x"
      unfolding within_def root_def private_root_def e .
  qed
  have st: "?st = directory_streamer (mem ?s4) priv"
    unfolding directory_streamer_def using fld same used by (intro load32_cong) simp
  have "disk_sector_size m4 disk = disk_sector_size (mem s) disk"
    unfolding disk_sector_size_def using apartD' [OF ap(2)] inr same used by (intro load32_cong) blast
  then have p4: "p = dir_first_sector (mem ?s4) root * disk_sector_size (mem ?s4) disk"
    by (simp add: p m4_def root_stored_fields)
  have ok: "stream_ok ?s4 ?st (local_addr ?s4 Temp_file) 32"
    unfolding stream_ok_def la
  proof (intro conjI)
    show "apart ?t 32 ?st 4" "apart (local_addr s Temp_buffer) 512 ?st 4"
      unfolding apart_def using loc used by blast+
  qed (rule ap(3))
  have ap4: "apart (priv + 88) 4 ?st 4" "apart (priv + 88) 4 (local_addr ?s4 Temp_file) 32"
    using fld apartD [OF ap(1)] loc used unfolding la apart_def by blast+
  have srv: "ata_serves (device ?s4) img sectors" using assms(1) by (simp only: dv)
  obtain m h where c: "fat16_total_files_in_directory ?s4 disk priv root
      = Some (of_nat (live_entries img p k), ?s4\<lparr>mem := m, io_log := h\<rparr>)"
    "\<forall>x. \<not> within (local_addr ?s4 Temp_file) 32 x \<and> \<not> within (local_addr ?s4 Temp_buffer) 512 x \<and> \<not> within ?st 4 x
       \<longrightarrow> m x = mem ?s4 x"
    by (rule total_files_counts [OF srv assms(2) st ok ap4 p4 assms(8,9)]) (rule that)
  have "\<forall>x. x \<in> kused s3 \<and> \<not> within ?st 4 x \<longrightarrow> m x = m4 x"
    using c(2) local_not_used [OF vol s3(1,2)] unfolding la by auto
  then show thesis using that c(1) by simp
qed

text \<open>C22: mounting reads the whole root directory, deleted entries included, into a block of its own, and
  counts the entries up to the first unused one, the deleted ones excluded.\<close>

theorem root_directory_loaded:
  assumes "ata_serves (device s) img sectors" and "sectors \<le> 2 ^ 23" and "volume_ok s disk priv"
    and "disk_sector_size (mem s) disk \<noteq> 0" and "n = bpb_root_dir_entries (mem s) priv * 32"
    and "first = bpb_fat_copies (mem s) priv * bpb_sectors_per_fat (mem s) priv + bpb_reserved_sectors (mem s) priv"
    and "p = first * disk_sector_size (mem s) disk"
    and "kzalloc s n = Some (rf, s1)" and "rf \<noteq> 0" and "0 < kavail s1"
    and "entries_end img p k" and "(unat p + max (unat n) (32 * Suc k)) div 512 < sectors"
  shows "\<exists>s'. fat16_get_root s disk priv (private_root priv) = Some (0, s')
    \<and> dir_files (mem s') (private_root priv) = rf \<and> (\<forall>x. within rf n x \<longrightarrow> mem s' x = img (p + (x - rf)))
    \<and> dir_total_files (mem s') (private_root priv) = of_nat (live_entries img p k)
    \<and> dir_first_sector (mem s') (private_root priv) = first
    \<and> dir_last_sector (mem s') (private_root priv) = first + (n div disk_sector_size (mem s) disk
         + (if n mod disk_sector_size (mem s) disk \<noteq> 0 then 1 else 0)) - 1"
proof -
  let ?ss = "disk_sector_size (mem s) disk" and ?root = "private_root priv" and ?st = "directory_streamer (mem s) priv"
  let ?last = "first + (n div ?ss + (if n mod ?ss \<noteq> 0 then 1 else 0)) - 1"
  have "(unat p + unat n) div 512 \<le> (unat p + max (unat n) (32 * Suc k)) div 512"
    "(unat p + 32 * Suc k) div 512 \<le> (unat p + max (unat n) (32 * Suc k)) div 512" by (rule div_le_mono, simp)+
  then have fit: "(unat p + unat n) div 512 < sectors" "(unat p + 32 * Suc k) div 512 < sectors"
    using assms(12) by linarith+
  obtain q s2 s3 where b: "disk_stream_new s1 = Some (q, s2)"
    "disk_stream_read (disk_stream_seek s2 q p) q rf n = Some s3" "kinv s3" "rest s3 = rest s"
    "\<forall>x. within rf n x \<longrightarrow> mem s3 x = img (p + (x - rf))"
    "\<forall>x. x \<in> kused s \<longrightarrow> mem s2 x = mem s x \<and> mem s3 x = mem s x"
    "\<forall>x. within rf n x \<longrightarrow> x \<notin> kused s \<and> x \<in> kused s3" "kused s \<subseteq> kused s3"
    by (rule root_bytes [OF assms(1-3,8-10) fit(1)]) (rule that)
  have s3: "\<forall>x. x \<in> kused s \<longrightarrow> mem s3 x = mem s x" using b(6) by blast
  let ?m4 = "root_stored (mem s3) ?root rf first ?last"
  obtain m h where c: "fat16_total_files_in_directory (s3\<lparr>mem := ?m4\<rparr>) disk priv ?root
      = Some (of_nat (live_entries img p k), s3\<lparr>mem := m, io_log := h\<rparr>)"
    "\<forall>x. x \<in> kused s3 \<and> \<not> within ?st 4 x \<longrightarrow> m x = ?m4 x"
    by (rule root_counted [OF assms(1-3) b(3,4) s3 assms(7,11) fit(2)]) (rule that)
  let ?M = "store32 m (?root + 4) (of_nat (live_entries img p k))"
  let ?s' = "kfree (s3\<lparr>io_log := h, mem := ?M\<rparr>) q"
  have used: "x \<in> kused s \<and> \<not> within ?st 4 x" if "within ?root 16 x" for x
  proof -
    have "within priv 92 x" using within_offset [of priv 64 16 x 92] that by (simp add: private_root_def)
    then show ?thesis using assms(3) unfolding volume_ok_def by (blast dest: apartD)
  qed
  have sec: "disk_sector_size (mem s2) disk = ?ss"
    unfolding disk_sector_size_def using b(6) assms(3) unfolding volume_ok_def by (intro load32_cong) blast
  have run: "fat16_get_root s disk priv ?root = Some (0, ?s')"
    using b(1,2) c(1) assms(4,8,9) sec unfolding assms(5,7) assms(6)
    by (simp add: fat16_get_root_def Let_def set32_def root_stored_def disk_stream_close_def)
  have fld: "load32 ?M (?root + of_nat i) = load32 ?m4 (?root + of_nat i)" if "i \<in> {0, 8, 12}" for i
  proof -
    have "apart4 (?root + 4) (?root + of_nat i)" using that by (auto simp: apart4_def)
    then have "load32 ?M (?root + of_nat i) = load32 m (?root + of_nat i)" by simp
    also have "\<dots> = load32 ?m4 (?root + of_nat i)"
    proof (rule load32_cong)
      fix x assume "within (?root + of_nat i) 4 x"
      then have "within ?root 16 x" using within_offset [of ?root i 4 x 16] that by auto
      from used [OF this] show "m x = ?m4 x" using c(2) b(8) by blast
    qed
    finally show ?thesis .
  qed
  have "dir_files ?M ?root = rf" "dir_first_sector ?M ?root = first" "dir_last_sector ?M ?root = ?last"
    using fld [of 0] fld [of 8] fld [of 12] root_stored_fields [of "mem s3" ?root rf first ?last]
    by (simp_all add: dir_files_def dir_first_sector_def dir_last_sector_def)
  moreover have "dir_total_files ?M ?root = of_nat (live_entries img p k)" by (simp add: dir_total_files_def)
  moreover have "?M x = img (p + (x - rf))" if x: "within rf n x" for x
  proof -
    have u: "x \<in> kused s3" "x \<notin> kused s" using b(7) x by blast+
    then have nr: "\<not> within ?root 16 x" using used by blast
    moreover have "\<not> within ?st 4 x" using assms(3) u(2) unfolding volume_ok_def by blast
    moreover have "\<not> within (?root + 4) 4 x" using nr within_offset [of ?root 4 4 x 16] by auto
    ultimately have "?M x = mem s3 x" using c(2) u(1) root_stored_other by (simp add: store32_other)
    then show ?thesis using b(5) x by simp
  qed
  ultimately show ?thesis using run by (intro exI [of _ ?s'] conjI) (simp_all add: kfree_def)
qed

text \<open>In use: the private data at \<open>0x1000000\<close>, the disk at \<open>0x1001000\<close>, the stream of directories at
  \<open>0x1002000\<close>, and a root directory of three entries, the second deleted: two are counted, and the third,
  although read, is behind the count.\<close>

definition demo_volume :: "u32 \<Rightarrow> u8" where
  "demo_volume a = (if a = 0x600 then 0x41 else if a = 0x620 then 0xE5 else if a = 0x640 then 0x42 else 0)"

definition demo_root :: mach where
  "demo_root = demo_mach\<lparr>device := ready_drive demo_volume, kheap := four_blocks,
     local_addr := (\<lambda>l. if l = Temp_file then 0x1FE000 else 0x1FF000),
     mem := (\<lambda>_. 0)(0x100000E := 1, 0x1000010 := 2, 0x1000011 := 16, 0x1000016 := 1, 0x1000059 := 0x20, 0x100005B := 1,
       0x1001005 := 2)\<rparr>"

theorem root_directory_loaded_witness:
  "\<exists>s' rf. fat16_get_root demo_root 0x1001000 0x1000000 0x1000040 = Some (0, s') \<and> dir_files (mem s') 0x1000040 = rf
     \<and> dir_total_files (mem s') 0x1000040 = 2 \<and> mem s' (rf + 32) = 0xE5 \<and> mem s' (rf + 64) = 0x42"
proof -
  let ?s = demo_root and ?d = "0x1001000 :: u32" and ?p = "0x1000000 :: u32"
  have v: "disk_sector_size (mem ?s) ?d = 512" "bpb_fat_copies (mem ?s) ?p = 2" "bpb_sectors_per_fat (mem ?s) ?p = 1"
    "bpb_reserved_sectors (mem ?s) ?p = 1" "bpb_root_dir_entries (mem ?s) ?p = 16" "directory_streamer (mem ?s) ?p = 0x1002000"
    by (simp_all add: demo_root_def disk_sector_size_def bpb_fat_copies_def bpb_sectors_per_fat_def
        bpb_reserved_sectors_def bpb_root_dir_entries_def directory_streamer_def load32_def load16_def)
  have kh: "kheap ?s = four_blocks" by (simp add: demo_root_def)
  have la: "local_addr ?s Temp_file = 0x1FE000" "local_addr ?s Temp_buffer = 0x1FF000" by (simp_all add: demo_root_def)
  have u: "x \<in> kused ?s" if "within a k x" "0x1000000 \<le> a" "unat a + unat k \<le> 0x1004000" for a k x
    unfolding kh by (rule four_blocks_used [OF that])
  have low: "unat x < unat (heap_base (kheap ?s))" if "within 0x1FE000 0x2000 x" for x
  proof -
    have "x - 0x1FE000 < 0x2000" using that by (simp add: within_def)
    then have "x < 0x1000000" by unat_arith
    then show ?thesis by (simp add: kh word_less_nat_alt)
  qed
  have vol: "volume_ok ?s ?d ?p"
    unfolding volume_ok_def v(6) la
  proof (intro conjI allI impI)
    show "kinv ?s" by (simp add: kh four_blocks)
    show "x \<in> kused ?s" if "within ?p 92 x \<or> within (?d + 4) 4 x \<or> within 0x1002000 4 x" for x
      using that u [of ?p 92 x] u [of "?d + 4" 4 x] u [of "0x1002000" 4 x] by auto
    show "unat x < unat (heap_base (kheap ?s))" if "within 0x1FE000 32 x \<or> within 0x1FF000 512 x" for x
      using that low [of x] within_head [of 32 "0x2000" "0x1FE000" x] within_head [of 512 "0x1000" "0x1FF000" x]
        within_tail [of "0x1000" "0x2000" "0x1FE000" x] by auto
  qed (simp_all add: apart_below)
  have srv: "ata_serves (device ?s) demo_volume 100" by (simp add: demo_root_def ready_drive_serves)
  have a: "0 < kavail ?s" "(0 :: u32) < 512" "(512 :: u32) \<le> 4096" by (simp_all add: kh four_blocks)
  have inv: "kinv ?s" by (simp add: kh four_blocks)
  obtain rf s1 where k: "kzalloc ?s 512 = Some (rf, s1)" "rf \<noteq> 0" "kavail ?s = Suc (kavail s1)"
    by (rule pages.alloc_pageE [OF inv a]) (rule that, assumption+)
  have av: "0 < kavail s1" using k(3) by (simp add: kh four_blocks)
  have e: "entries_end demo_volume 0x600 3" "live_entries demo_volume 0x600 3 = 2"
    by (simp_all add: entries_end_def live_entries_def demo_volume_def All_less_Suc numeral_3_eq_3 upt_rec)
  have "\<exists>s'. fat16_get_root ?s ?d ?p (private_root ?p) = Some (0, s')
    \<and> dir_files (mem s') (private_root ?p) = rf \<and> (\<forall>x. within rf 512 x \<longrightarrow> mem s' x = demo_volume (0x600 + (x - rf)))
    \<and> dir_total_files (mem s') (private_root ?p) = of_nat (live_entries demo_volume 0x600 3)
    \<and> dir_first_sector (mem s') (private_root ?p) = 3
    \<and> dir_last_sector (mem s') (private_root ?p) = 3 + (512 div disk_sector_size (mem ?s) ?d
         + (if 512 mod disk_sector_size (mem ?s) ?d \<noteq> 0 then 1 else 0)) - 1"
    by (rule root_directory_loaded [OF srv _ vol _ _ _ _ k(1,2) av e(1)]) (simp_all add: v)
  then obtain s' where s': "fat16_get_root ?s ?d ?p (private_root ?p) = Some (0, s')"
    "dir_files (mem s') (private_root ?p) = rf" "\<And>x. within rf 512 x \<Longrightarrow> mem s' x = demo_volume (0x600 + (x - rf))"
    "dir_total_files (mem s') (private_root ?p) = of_nat (live_entries demo_volume 0x600 3)" by blast
  have "mem s' (rf + 32) = 0xE5" "mem s' (rf + 64) = 0x42"
    using s'(3) [of "rf + 32"] s'(3) [of "rf + 64"] by (simp_all add: within_def demo_volume_def)
  then show ?thesis using s'(1,2,4) e(2) by (simp add: private_root_def)
qed

end
