(* ===== verification/Path_Names.thy ===== *)
theory Path_Names
  imports Paging Parser
begin

text \<open>
  What the path parser makes of a name: \<open>parse_path\<close> splits it at its slashes into a list of units
  in kernel memory. \<open>path_split\<close> is the list of names; the lemmas follow the two copies, the cut
  and the block that each call of \<open>path_get_current_unit_and_advance\<close> takes and gives back.
\<close>

section \<open>Whole pages of the kernel heap\<close>

text \<open>A request of at most one page gets a page of its own, of which the first \<open>n\<close> bytes are 0.\<close>

lemma kzalloc_page:
  assumes "kinv s" and "0 < kavail s" and "0 < n" and "n \<le> 4096"
  obtains a s' where "kzalloc s n = Some (a, s')" and "a \<noteq> 0" and "a mod 4096 = 0" and "kinv s'"
    and "kavail s = Suc (kavail s')" and "kused s \<subseteq> kused s'" and "a \<notin> kused s" and "a \<in> kused s'"
    and "\<forall>x. within a n x \<longrightarrow> mem s' x = 0"
    and "\<forall>x. x AND 0xfffff000 \<noteq> a \<longrightarrow> mem s' x = mem s x"
proof (rule pages.alloc_pageE [OF assms])
  fix a and s' :: "'a kst_scheme"
  assume k: "kzalloc s n = Some (a, s')" "a \<noteq> 0" "kinv s'" "kavail s = Suc (kavail s')" "kused s \<subseteq> kused s'"
    "a mod 4096 = 0" "a \<notin> kused s" "a \<in> kused s'"
  have "mem s' x = mem s x" if "x AND 0xfffff000 \<noteq> a" for x
  proof -
    have "\<not> within a 4096 x" using that within_page [OF k(6)] by blast
    then have "\<not> within a n x" using assms(4) by (auto simp: within_def)
    then show ?thesis using kz.alloc_frame [OF assms(1) k(1)] by blast
  qed
  then show thesis
    using that [OF k(1,2,6,3-5,7,8)] kz.alloc_zeroed [OF assms(1) k(1,2)] by blast
qed

lemma kfree_page: "kinv s \<Longrightarrow> kfree s p = kfree s (p AND 0xfffff000)"
  by (simp add: kfree_def free_eq block_of_page)

lemma kused_kfree_page:
  assumes "kinv s" and "q \<in> kused s" and "q AND 0xfffff000 \<noteq> p AND 0xfffff000"
  shows "q \<in> kused (kfree s p)"
proof -
  have "q AND 0xfffff000 \<in> kused s" using kused_page [OF assms(1) refl] assms(2) by blast
  from kused_kfree [OF assms(1) page_base_aligned page_base_aligned assms(3) [symmetric] this]
  have "q AND 0xfffff000 \<in> kused (kfree s p)" unfolding kfree_page [OF assms(1), of p] .
  then show ?thesis using kused_page [of "kfree s p" q] assms(1) by simp
qed

lemma kavail_kfree:
  assumes "x \<in> kused s"
  shows "kavail (kfree s x) = Suc (kavail s)"
proof -
  let ?h = "kheap s" and ?b = "block_of (kheap s) x"
  have b: "?b < unat (num_entries ?h)" "busy ?h ?b" using assms by (simp_all add: used_def)
  have "busy (free ?h x) j \<longleftrightarrow> busy ?h j \<and> j \<noteq> ?b" if "j < unat (num_entries ?h)" for j
    by (rule busy_free [OF _ b(1)]) (use that unsigned_less [of "num_entries ?h", where ?'a = nat] in simp)
  then have "{j. j < unat (num_entries ?h) \<and> \<not> busy (free ?h x) j}
      = insert ?b {j. j < unat (num_entries ?h) \<and> \<not> busy ?h j}"
    using b(1) by blast
  then show ?thesis using b by (simp add: free_blocks_left_def kfree_def free_eq)
qed

section \<open>Splitting a name\<close>

definition unit_of :: "u8 list \<Rightarrow> u8 list" where
  "unit_of t = takeWhile (\<lambda>c. c \<noteq> 0x2F) t"

definition after_unit :: "u8 list \<Rightarrow> u8 list" where
  "after_unit t = drop (Suc (length (unit_of t))) t"

function path_split :: "u8 list \<Rightarrow> u8 list list" where
  "path_split [] = []"
| "path_split (c # t) = unit_of (c # t) # path_split (after_unit (c # t))"
  by pat_completeness auto
termination
  by (relation "measure length") (simp_all add: after_unit_def)

lemma path_split_step: "t \<noteq> [] \<Longrightarrow> path_split t = unit_of t # path_split (after_unit t)"
  by (cases t) simp_all

lemma length_unit_of: "length (unit_of t) \<le> length t"
  by (simp add: unit_of_def length_takeWhile_le)

lemma unit_of_nth:
  "i < length (unit_of t) \<Longrightarrow> t ! i \<noteq> 0x2F \<and> unit_of t ! i = t ! i"
  "length (unit_of t) < length t \<Longrightarrow> t ! length (unit_of t) = 0x2F"
  using nth_length_takeWhile [of "\<lambda>c. c \<noteq> 0x2F" t] set_takeWhileD [of _ "\<lambda>c. c \<noteq> 0x2F" t] nth_mem [of i "unit_of t"]
  by (auto simp: unit_of_def takeWhile_nth)

text \<open>The list of units that starts at \<open>u\<close>.\<close>

fun units_are :: "memory \<Rightarrow> u32 \<Rightarrow> u8 list list \<Rightarrow> bool" where
  "units_are m u [] \<longleftrightarrow> u = 0"
| "units_are m u (t # ts) \<longleftrightarrow> u \<noteq> 0 \<and> cstr m (unit_str m u) t \<and> units_are m (next_unit m u) ts"

section \<open>Strings in memory\<close>

lemma cstrD:
  assumes "cstr m a t"
  shows "i < length t \<Longrightarrow> m (a + of_nat i) = t ! i" and "m (a + of_nat (length t)) = 0"
    and "i < length t \<Longrightarrow> t ! i \<noteq> 0"
proof -
  show "m (a + of_nat i) = t ! i" if "i < length t"
    using assms nth_bytes_at [OF that, of m a] by (simp add: cstr_def)
  show "m (a + of_nat (length t)) = 0" using assms by (simp add: cstr_def)
  show "t ! i \<noteq> 0" if "i < length t" using assms nth_mem [OF that] unfolding cstr_def by metis
qed

lemma cstrI:
  assumes "\<And>i. i < length t \<Longrightarrow> m (a + of_nat i) = t ! i" and "0 \<notin> set t" and "m (a + of_nat (length t)) = 0"
  shows "cstr m a t"
  unfolding cstr_def using assms by (auto intro!: nth_equalityI)

lemma cstr_drop:
  assumes "cstr m a t" and "k \<le> length t"
  shows "cstr m (a + of_nat k) (drop k t)"
proof (rule cstrI)
  show "m (a + of_nat k + of_nat i) = drop k t ! i" if "i < length (drop k t)" for i
    using that cstrD(1) [OF assms(1), of "k + i"] by (simp add: add.assoc)
  show "0 \<notin> set (drop k t)" using assms(1) in_set_dropD [of 0 k t] by (auto simp: cstr_def)
  show "m (a + of_nat k + of_nat (length (drop k t))) = 0"
    using cstrD(2) [OF assms(1)] assms(2) by (simp add: add.assoc flip: of_nat_add)
qed

text \<open>\<open>strcpy\<close> to a place that no byte of the source is at.\<close>

lemma strcpy_cstr:
  assumes "cstr m src t" and "Suc (length t) < 2 ^ 32" and "\<forall>i\<le>length t. tgt \<noteq> src + of_nat i"
  obtains m' where "strcpy m tgt src = Some m'" and "cstr m' tgt t"
    and "\<forall>x. (\<forall>i\<le>length t. x \<noteq> tgt + of_nat i) \<longrightarrow> m' x = m x"
proof -
  let ?n = "of_nat (length t) + 1 :: u32"
  have "unat (of_nat (length t) :: u32) = length t" using assms(2) by (intro unat_of_nat_less) simp
  then have n: "unat ?n = Suc (length t)"
    using unat_word_ariths(1) [of "of_nat (length t)" "1 :: u32"] assms(2) by simp
  have idx: "\<exists>i\<le>length t. x = b + of_nat i" if w: "within b ?n x" for b x
  proof (intro exI conjI)
    have "unat (x - b) < unat ?n" using w by (simp add: within_def word_less_nat_alt)
    then show "unat (x - b) \<le> length t" using n by linarith
  qed simp
  have off: "within b ?n (b + of_nat i)" if "i \<le> length t" for b i
  proof -
    have "unat (of_nat i :: u32) = i" using that assms(2) by (intro unat_of_nat_less) simp
    then show ?thesis using that unfolding within_def word_less_nat_alt n by simp
  qed
  have "\<not> within src ?n tgt" using idx [of src tgt] assms(3) by blast
  then have ov: "tgt = src \<or> ?n \<le> tgt - src" by (simp add: within_def not_less)
  let ?m = "memcpy m tgt src ?n"
  have eq: "?m = (\<lambda>x. if within tgt ?n x then m (src + (x - tgt)) else m x)" by (rule memcpy_eq [OF ov])
  show ?thesis
  proof (rule that)
    show "strcpy m tgt src = Some ?m" by (rule strcpy_memcpy [OF assms(1,2) ov])
    have at: "?m (tgt + of_nat i) = m (src + of_nat i)" if "i \<le> length t" for i
      unfolding eq using off [OF that] by simp
    show "cstr ?m tgt t"
    proof (rule cstrI)
      show "?m (tgt + of_nat i) = t ! i" if "i < length t" for i
        using at [of i] cstrD(1) [OF assms(1) that] that by simp
      show "?m (tgt + of_nat (length t)) = 0" using at [of "length t"] cstrD(2) [OF assms(1)] by simp
      show "0 \<notin> set t" using assms(1) by (simp add: cstr_def)
    qed
    show "\<forall>x. (\<forall>i\<le>length t. x \<noteq> tgt + of_nat i) \<longrightarrow> ?m x = m x"
      unfolding eq using idx [of tgt] by metis
  qed
qed

lemma copy_unit_loop_moves:
  assumes "cstr m t bs" and "length bs < 2 ^ 32"
    and "\<forall>i<length (unit_of bs). \<forall>j\<le>length bs. u + of_nat i \<noteq> t + of_nat j"
  obtains m' where "copy_unit_loop m u 0 t = Some (m', t + of_nat (length (unit_of bs)))"
    and "moved m m' u (\<lambda>i. bs ! i) 0 (length (unit_of bs))"
proof -
  let ?k = "length (unit_of bs)"
  have "\<exists>m'. copy_unit_loop m0 u (of_nat w) (t + of_nat w) = Some (m', t + of_nat ?k)
      \<and> moved m0 m' u (\<lambda>i. bs ! i) w ?k"
    if "w \<le> ?k" "\<forall>j\<le>length bs. m0 (t + of_nat j) = m (t + of_nat j)" for m0 w
    using that
  proof (induction "?k - w" arbitrary: m0 w)
    case 0
    then have w: "w = ?k" by simp
    have "m0 (t + of_nat ?k) = 0x2F \<or> m0 (t + of_nat ?k) = 0"
      using 0(3) length_unit_of [of bs] unit_of_nth(2) [of bs] cstrD [OF assms(1)] by (cases "?k < length bs") simp_all
    then show ?case using moved_refl [of ?k ?k] by (subst copy_unit_loop.simps) (auto simp: w)
  next
    case (Suc d)
    then have w: "w < ?k" by simp
    then have wl: "w < length bs" using length_unit_of [of bs] by simp
    let ?m = "m0(u + of_nat w := bs ! w)"
    have c: "m0 (t + of_nat w) = bs ! w" "bs ! w \<noteq> 0x2F" "bs ! w \<noteq> 0"
      using Suc.prems(2) wl cstrD(1,3) [OF assms(1) wl] unit_of_nth(1) [OF w] by simp_all
    have "\<forall>j\<le>length bs. ?m (t + of_nat j) = m (t + of_nat j)"
      using Suc.prems(2) assms(3) w by (metis fun_upd_other)
    moreover have "d = ?k - Suc w" "Suc w \<le> ?k" using Suc.hyps(2) w by simp_all
    ultimately obtain m' where m': "copy_unit_loop ?m u (of_nat (Suc w)) (t + of_nat (Suc w)) = Some (m', t + of_nat ?k)"
      "moved ?m m' u (\<lambda>i. bs ! i) (Suc w) ?k"
      using Suc.hyps(1) by blast
    have "moved m0 m' u (\<lambda>i. bs ! i) w ?k"
      by (rule moved_step [OF m'(2) w]) (use assms(2) length_unit_of [of bs] in simp)
    moreover have "copy_unit_loop m0 u (of_nat w) (t + of_nat w) = copy_unit_loop ?m u (of_nat (Suc w)) (t + of_nat (Suc w))"
      by (subst copy_unit_loop.simps) (use c in \<open>simp add: algebra_simps\<close>)
    ultimately show ?case using m'(1) by auto
  qed
  from this [of 0 m] show ?thesis using that by auto
qed

section \<open>One unit\<close>

lemma page_byte: "a mod 4096 = 0 \<Longrightarrow> i < 4096 \<Longrightarrow> (a + of_nat i) AND 0xfffff000 = a" for a :: u32
  by (rule page_offset(2)) (simp_all add: word_less_nat_alt unat_of_nat_less)

text \<open>The copies of one call: the name at \<open>q\<close>, in page \<open>P\<close>, goes to page \<open>t\<close>; its first unit goes
  to page \<open>u\<close> and what follows the slash back to \<open>q\<close>.\<close>

lemma unit_terminated:
  assumes "moved m m' u (\<lambda>i. bs ! i) 0 (length (unit_of bs))" and "length (unit_of bs) < 64" and "0 \<notin> set bs"
    and "\<forall>x. within u 64 x \<longrightarrow> m x = 0"
  shows "cstr m' u (unit_of bs)"
proof (rule cstrI)
  let ?k = "length (unit_of bs)"
  show "m' (u + of_nat i) = unit_of bs ! i" if "i < ?k" for i
    using movedD(1) [OF assms(1) that] unit_of_nth(1) [OF that] by simp
  show "0 \<notin> set (unit_of bs)" using assms(3) by (auto simp: unit_of_def dest: set_takeWhileD)
  have kw: "unat (of_nat ?k :: u32) = ?k" using assms(2) by (intro unat_of_nat_less) simp
  have "u + of_nat ?k \<noteq> u + of_nat i" if "i < ?k" for i
    using that assms(2) of_nat_u32_eq_iff [of ?k i] by simp
  then have "m' (u + of_nat ?k) = m (u + of_nat ?k)" using movedD(3) [OF assms(1)] by metis
  moreover have "within u 64 (u + of_nat ?k)" using assms(2) kw by (simp add: within_def word_less_nat_alt)
  ultimately show "m' (u + of_nat ?k) = 0" using assms(4) by simp
qed

lemma cut_point:
  assumes "cstr m t bs"
  obtains j where "(if m (t + of_nat (length (unit_of bs))) = 0x2F then t + of_nat (length (unit_of bs)) + 1
      else t + of_nat (length (unit_of bs))) = t + of_nat j"
    and "j \<le> length bs" and "drop j bs = after_unit bs"
proof (cases "length (unit_of bs) < length bs")
  case True
  then have "m (t + of_nat (length (unit_of bs))) = 0x2F" using cstrD(1) [OF assms True] unit_of_nth(2) [OF True] by simp
  then show ?thesis using that [of "Suc (length (unit_of bs))"] True by (simp add: after_unit_def algebra_simps)
next
  case False
  then have k: "length (unit_of bs) = length bs" using length_unit_of [of bs] by simp
  then have "m (t + of_nat (length bs)) = 0" using cstrD(2) [OF assms] by simp
  then show ?thesis using that [of "length bs"] k by (simp add: after_unit_def)
qed

lemma cut_unit:
  assumes q: "cstr m q bs" and len: "length bs < 4096" and short: "length (unit_of bs) < 64"
    and al: "u mod 4096 = 0" "t mod 4096 = 0" and pg: "P \<noteq> u" "P \<noteq> t" "u \<noteq> t"
    and P: "\<forall>i\<le>length bs. (q + of_nat i) AND 0xfffff000 = P" and zero: "\<forall>x. within u 64 x \<longrightarrow> m x = 0"
  obtains m3 m4 m5 j where "strcpy m t q = Some m3"
    and "copy_unit_loop m3 u 0 t = Some (m4, t + of_nat (length (unit_of bs)))" and "cstr m4 u (unit_of bs)"
    and "(if m4 (t + of_nat (length (unit_of bs))) = 0x2F then t + of_nat (length (unit_of bs)) + 1
      else t + of_nat (length (unit_of bs))) = t + of_nat j" and "j \<le> length bs"
    and "strcpy m4 q (t + of_nat j) = Some m5" and "cstr m5 u (unit_of bs)" and "cstr m5 q (after_unit bs)"
    and "\<forall>x. x AND 0xfffff000 \<in> {u, t, P} \<or> m5 x = m x"
proof -
  let ?k = "length (unit_of bs)"
  have tb: "(t + of_nat i) AND 0xfffff000 = t" if "i \<le> length bs" for i
    using page_byte [OF al(2), of i] that len by simp
  have ub: "(u + of_nat i) AND 0xfffff000 = u" if "i < 64" for i
    using page_byte [OF al(1), of i] that by simp
  have "\<forall>i\<le>length bs. t \<noteq> q + of_nat i" using P pg(2) tb [of 0] by auto
  from strcpy_cstr [OF q _ this] len obtain m3 where
    m3: "strcpy m t q = Some m3" "cstr m3 t bs" "\<forall>x. (\<forall>i\<le>length bs. x \<noteq> t + of_nat i) \<longrightarrow> m3 x = m x" by auto
  have f3: "m3 x = m x" if "x AND 0xfffff000 \<noteq> t" for x using m3(3) tb that by metis
  have "\<forall>i<?k. \<forall>j\<le>length bs. u + of_nat i \<noteq> t + of_nat j"
    using tb ub short pg(3) by (metis less_trans)
  from copy_unit_loop_moves [OF m3(2) _ this] len obtain m4 where
    m4: "copy_unit_loop m3 u 0 t = Some (m4, t + of_nat ?k)" "moved m3 m4 u (\<lambda>i. bs ! i) 0 ?k" by auto
  have f4: "m4 x = m3 x" if "x AND 0xfffff000 \<noteq> u" for x
    using movedD(3) [OF m4(2)] ub short that by (metis less_trans)
  have "m3 x = 0" if "within u 64 x" for x
  proof -
    have "within u 4096 x" using that less_le_trans [of "x - u" 64 4096] by (simp add: within_def)
    then have "x AND 0xfffff000 = u" using within_page [OF al(1)] by blast
    then show ?thesis using f3 [of x] zero that pg(3) by simp
  qed
  then have u4: "cstr m4 u (unit_of bs)"
    using unit_terminated [OF m4(2) short] q by (simp add: cstr_def)
  have t4: "cstr m4 t bs" by (rule cstr_cong [OF m3(2)]) (use f4 tb pg(3) in simp)
  from cut_point [OF t4] obtain j where j: "(if m4 (t + of_nat ?k) = 0x2F then t + of_nat ?k + 1
      else t + of_nat ?k) = t + of_nat j" "j \<le> length bs" "drop j bs = after_unit bs" by blast
  have t'4: "cstr m4 (t + of_nat j) (after_unit bs)" using cstr_drop [OF t4 j(2)] by (simp add: j(3))
  have la: "length (after_unit bs) + j = length bs" using j(2) by (simp flip: j(3))
  have "q \<noteq> t + of_nat j + of_nat i" if "i \<le> length (after_unit bs)" for i
  proof -
    have "(t + of_nat (j + i)) AND 0xfffff000 = t" using tb [of "j + i"] that la by simp
    then show ?thesis using P [rule_format, of 0] pg(2) by (auto simp: add.assoc)
  qed
  then have "\<forall>i\<le>length (after_unit bs). q \<noteq> t + of_nat j + of_nat i" by blast
  from strcpy_cstr [OF t'4 _ this] la len obtain m5 where
    m5: "strcpy m4 q (t + of_nat j) = Some m5" "cstr m5 q (after_unit bs)"
    "\<forall>x. (\<forall>i\<le>length (after_unit bs). x \<noteq> q + of_nat i) \<longrightarrow> m5 x = m4 x" by auto
  have f5: "m5 x = m4 x" if "x AND 0xfffff000 \<noteq> P" for x
    using m5(3) P la that by (metis le_add1 le_trans)
  have "cstr m5 u (unit_of bs)" by (rule cstr_cong [OF u4]) (use f5 ub short pg(1) in simp)
  moreover have "x AND 0xfffff000 \<in> {u, t, P} \<or> m5 x = m x" for x
    using f5 [of x] f4 [of x] f3 [of x] by (metis insert_iff)
  ultimately show ?thesis using that [OF m3(1) m4(1) u4 j(1,2) m5(1) _ m5(2)] by blast
qed

text \<open>The call takes the first unit off the working copy. It keeps one block, the unit, and gives the
  other one back.\<close>

lemma current_unit_advance:
  assumes inv: "kinv s" and q: "cstr (mem s) q bs" and ne: "bs \<noteq> []" and len: "length bs < 4096"
    and short: "length (unit_of bs) < 64" and room: "2 \<le> kavail s"
    and P: "P \<in> kused s" "\<forall>i\<le>length bs. (q + of_nat i) AND 0xfffff000 = P"
  obtains u s' where "path_get_current_unit_and_advance s q = Some (u, s')" and "u \<noteq> 0" and "u mod 4096 = 0"
    and "kinv s'" and "kused s \<subseteq> kused s'" and "u \<notin> kused s" and "u \<in> kused s'"
    and "kavail s = Suc (kavail s')"
    and "cstr (mem s') u (unit_of bs)" and "cstr (mem s') q (after_unit bs)"
    and "\<forall>x. x \<in> kused s \<and> x AND 0xfffff000 \<noteq> P \<longrightarrow> mem s' x = mem s x"
proof -
  have r: "0 < kavail s" "(0 :: u32) < 64" "(64 :: u32) \<le> 4096" using room by simp_all
  obtain u s1 where
    u: "kzalloc s 64 = Some (u, s1)" "u \<noteq> 0" "u mod 4096 = 0" "kinv s1" "kavail s = Suc (kavail s1)"
    "kused s \<subseteq> kused s1" "u \<notin> kused s" "u \<in> kused s1" "\<forall>x. within u 64 x \<longrightarrow> mem s1 x = 0"
    "\<forall>x. x AND 0xfffff000 \<noteq> u \<longrightarrow> mem s1 x = mem s x"
    by (rule kzalloc_page [OF inv r]) (rule that)
  let ?n = "of_nat (length bs) :: u32"
  have n: "unat ?n = length bs" using len by (intro unat_of_nat_less) simp
  then have n0: "?n \<noteq> 0" using ne by (metis length_0_conv unat_0)
  have r1: "0 < kavail s1" "0 < ?n" "?n \<le> 4096" using room u(5) n0 len n by (simp_all add: word_gt_0 word_le_nat_alt)
  obtain t s2 where
    t: "kzalloc s1 ?n = Some (t, s2)" "t mod 4096 = 0" "kinv s2" "kavail s1 = Suc (kavail s2)"
    "kused s1 \<subseteq> kused s2" "t \<notin> kused s1" "t \<in> kused s2"
    "\<forall>x. x AND 0xfffff000 \<noteq> t \<longrightarrow> mem s2 x = mem s1 x"
    by (rule kzalloc_page [OF u(4) r1]) (rule that)
  have pg: "P \<noteq> u" "P \<noteq> t" "u \<noteq> t" using P(1) u(6-8) t(6) by auto
  have q1: "cstr (mem s1) q bs" by (rule cstr_cong [OF q]) (use u(10) P(2) pg in simp)
  have q2: "cstr (mem s2) q bs" by (rule cstr_cong [OF q1]) (use t(8) P(2) pg in simp)
  have "\<forall>x. within u 64 x \<longrightarrow> mem s2 x = 0"
  proof (intro allI impI)
    fix x assume x: "within u 64 x"
    then have "within u 4096 x" using less_le_trans [of "x - u" 64 4096] by (simp add: within_def)
    then have "x AND 0xfffff000 = u" using within_page [OF u(3)] by blast
    then show "mem s2 x = 0" using t(8) u(9) x pg(3) by simp
  qed
  then obtain m3 m4 m5 j where
    m: "strcpy (mem s2) t q = Some m3" "copy_unit_loop m3 u 0 t = Some (m4, t + of_nat (length (unit_of bs)))"
    "cstr m4 u (unit_of bs)" "(if m4 (t + of_nat (length (unit_of bs))) = 0x2F then t + of_nat (length (unit_of bs)) + 1
      else t + of_nat (length (unit_of bs))) = t + of_nat j" "j \<le> length bs"
    "strcpy m4 q (t + of_nat j) = Some m5" "cstr m5 u (unit_of bs)" "cstr m5 q (after_unit bs)"
    "\<forall>x. x AND 0xfffff000 \<in> {u, t, P} \<or> m5 x = mem s2 x"
    by (rule cut_unit [OF q2 len short u(3) t(2) pg P(2)]) (rule that)
  let ?t = "t + of_nat j" and ?s2 = "s2\<lparr>mem := m5\<rparr>"
  have tj: "?t AND 0xfffff000 = t" using page_byte [OF t(2), of j] m(5) len by simp
  have "?t \<in> kused ?s2" using kused_page [OF t(3) tj] t(7) by simp
  note av = kavail_kfree [OF this]
  have keep: "x \<in> kused (kfree ?s2 ?t)" if "x \<in> kused s1" for x
    by (rule kused_kfree_page) (use t(3,5,6) tj kused_page [OF u(4), of x t] that in auto)
  have "unat (of_nat (length (unit_of bs)) :: u32) = length (unit_of bs)"
    using short by (intro unat_of_nat_less) simp
  then have w: "\<not> 64 < (of_nat (length (unit_of bs)) :: u32)" using short by (simp add: word_less_nat_alt)
  show ?thesis
  proof (rule that [OF _ u(2,3)])
    show "path_get_current_unit_and_advance s q = Some (u, kfree ?s2 ?t)"
      unfolding path_get_current_unit_and_advance_def u(1)
      by (simp add: strlen_cstr [OF q1] n0 t(1) m(1,2) strlen_cstr [OF m(3)] w m(4,6) Let_def del: if_split)
    show "kinv (kfree ?s2 ?t)" using t(3) by simp
    show "kused s \<subseteq> kused (kfree ?s2 ?t)" using keep u(6) by blast
    show "u \<notin> kused s" "u \<in> kused (kfree ?s2 ?t)" using u(7) keep u(8) by blast+
    show "kavail s = Suc (kavail (kfree ?s2 ?t))" using u(5) t(4) av by simp
    show "cstr (mem (kfree ?s2 ?t)) u (unit_of bs)" "cstr (mem (kfree ?s2 ?t)) q (after_unit bs)" using m(7,8) by simp_all
    show "\<forall>x. x \<in> kused s \<and> x AND 0xfffff000 \<noteq> P \<longrightarrow> mem (kfree ?s2 ?t) x = mem s x"
    proof (intro allI impI)
      fix x assume x: "x \<in> kused s \<and> x AND 0xfffff000 \<noteq> P"
      then have "x AND 0xfffff000 \<noteq> u" "x AND 0xfffff000 \<noteq> t"
        using u(6,7) t(6) kused_page [OF inv, of x] by auto
      then have "m5 x = mem s x" using x m(9) t(8) u(10) by (metis insert_iff singletonD)
      then show "mem (kfree ?s2 ?t) x = mem s x" by simp
    qed
  qed
qed

text \<open>At the end of the name the call answers null; the block it took for the unit stays taken.\<close>

lemma current_unit_end:
  assumes inv: "kinv s" and q: "mem s q = 0" and room: "0 < kavail s" and P: "q \<in> kused s"
  obtains s' where "path_get_current_unit_and_advance s q = Some (0, s')" and "kinv s'"
    and "kused s \<subseteq> kused s'" and "kavail s = Suc (kavail s')"
    and "\<forall>x. x \<in> kused s \<longrightarrow> mem s' x = mem s x"
proof -
  have r: "(0 :: u32) < 64" "(64 :: u32) \<le> 4096" by simp_all
  obtain u s1 where u: "kzalloc s 64 = Some (u, s1)" "kinv s1" "kavail s = Suc (kavail s1)" "kused s \<subseteq> kused s1"
    by (rule kzalloc_page [OF inv room r]) (rule that)
  have k: "\<forall>x. x \<in> kused s \<longrightarrow> mem s1 x = mem s x" using kz.alloc_keeps_used [OF inv u(1)] by blast
  then have "cstr (mem s1) q []" using q P by simp
  from strlen_cstr [OF this] have "path_get_current_unit_and_advance s q = Some (0, s1)"
    unfolding path_get_current_unit_and_advance_def u(1) by simp
  then show ?thesis using that u(2-4) k by blast
qed

section \<open>The list of units\<close>

lemma set32_page:
  "a mod 4096 = 0 \<Longrightarrow> n \<le> 4092 \<Longrightarrow> x AND 0xfffff000 \<noteq> a \<Longrightarrow> store32 m (a + of_nat n) v x = m x" for a :: u32
  using within_offset [of a n 4 x 4096] within_page [of a x] by (auto intro: store32_other)

text \<open>The list stands in fresh blocks: it is there in every memory that agrees with the result on these
  and on the block of the cell the list hangs on.\<close>

definition units_hang :: "'a kst_scheme \<Rightarrow> memory \<Rightarrow> u32 \<Rightarrow> u8 list list \<Rightarrow> bool" where
  "units_hang s m up ts \<longleftrightarrow>
     (\<forall>m'. (\<forall>x. x \<in> kused s \<and> x AND 0xfffff000 \<noteq> up \<or> m' x = m x) \<longrightarrow> units_are m' (next_unit m' up) ts)"

lemma parse_units_loop_spec:
  assumes "kinv s" and "cstr (mem s) q bs" and "length bs < 4096"
    and "\<forall>t\<in>set (path_split bs). length t < 64" and "2 * length (path_split bs) + 1 \<le> kavail s"
    and "P \<in> kused s" and "\<forall>i\<le>length bs. (q + of_nat i) AND 0xfffff000 = P"
    and "up \<in> kused s" and "up mod 4096 = 0" and "up \<noteq> P" and "next_unit (mem s) up = 0"
  shows "\<exists>s'. parse_units_loop s q up = Some s' \<and> kinv s' \<and> kused s \<subseteq> kused s'
    \<and> units_hang s (mem s') up (path_split bs)
    \<and> (\<forall>x. x \<in> kused s \<and> x AND 0xfffff000 \<noteq> P \<and> \<not> within (up + 4) 4 x \<longrightarrow> mem s' x = mem s x)"
  using assms
proof (induction bs arbitrary: s up rule: path_split.induct)
  case 1
  have P0: "q AND 0xfffff000 = P" using 1(7) [rule_format, of 0] by simp
  then have "q \<in> kused s" using kused_page [OF 1(1) P0] 1(6) by simp
  moreover have "mem s q = 0" "0 < kavail s" using 1(2,5) by simp_all
  ultimately obtain s' where s: "path_get_current_unit_and_advance s q = Some (0, s')" "kinv s'" "kused s \<subseteq> kused s'"
    "\<forall>x. x \<in> kused s \<longrightarrow> mem s' x = mem s x"
    using current_unit_end [OF 1(1)] by metis
  have upw: "x AND 0xfffff000 = up" if "within (up + 4) 4 x" for x
    using within_offset [of up 4 4 x 4096] within_page [OF 1(9), of x] that by simp
  have "next_unit m' up = 0" if "\<forall>x. x \<in> kused s \<and> x AND 0xfffff000 \<noteq> up \<or> m' x = mem s' x" for m'
  proof -
    have "next_unit m' up = next_unit (mem s) up"
      unfolding next_unit_def
      by (rule load32_cong) (use that s(4) 1(8) kused_page [OF 1(1), of _ up] upw in metis)
    then show ?thesis using 1(11) by simp
  qed
  then have n: "units_hang s (mem s') up []" by (simp add: units_hang_def)
  have "parse_units_loop s q up = Some s'" using s(1) by (subst parse_units_loop.simps) simp
  then show ?case using s n by auto
next
  case (2 c t)
  let ?bs = "c # t" and ?r = "after_unit (c # t)"
  have split: "path_split ?bs = unit_of ?bs # path_split ?r" by simp
  have lr: "length ?r \<le> length ?bs" by (simp add: after_unit_def)
  have short: "length (unit_of ?bs) < 64" and room: "2 \<le> kavail s" "2 * length (path_split ?r) + 3 \<le> kavail s"
    using 2(5,6) by simp_all
  obtain u s1 where u: "path_get_current_unit_and_advance s q = Some (u, s1)" "u \<noteq> 0" "u mod 4096 = 0"
    "kinv s1" "kused s \<subseteq> kused s1" "u \<notin> kused s" "u \<in> kused s1" "kavail s = Suc (kavail s1)"
    "cstr (mem s1) u (unit_of ?bs)" "cstr (mem s1) q ?r"
    "\<forall>x. x \<in> kused s \<and> x AND 0xfffff000 \<noteq> P \<longrightarrow> mem s1 x = mem s x"
    by (rule current_unit_advance [OF 2(2,3) _ 2(4) short room(1) 2(7,8)]) (simp, rule that)
  have r: "0 < kavail s1" "(0 :: u32) < 8" "(8 :: u32) \<le> 4096" using room u(8) by simp_all
  obtain n s2 where n: "kzalloc s1 8 = Some (n, s2)" "n \<noteq> 0" "n mod 4096 = 0" "kinv s2" "kavail s1 = Suc (kavail s2)"
    "kused s1 \<subseteq> kused s2" "n \<notin> kused s1" "n \<in> kused s2" "\<forall>x. x AND 0xfffff000 \<noteq> n \<longrightarrow> mem s2 x = mem s1 x"
    by (rule kzalloc_page [OF u(4) r]) (rule that)
  let ?s3 = "set32 (up + 4) n (set32 (n + 4) 0 (set32 n u s2))"
  have k3: "kheap ?s3 = kheap s2" by (simp add: set32_def)
  have page: "x AND 0xfffff000 \<noteq> n" if "x \<in> kused s1" for x
    using that n(7) kused_page [OF u(4) refl, of x] by metis
  have upn: "up \<noteq> n" "P \<noteq> n" "u \<noteq> n" using 2(7,9) u(5,7) n(7) by auto
  have upw: "x AND 0xfffff000 = up" if "within (up + 4) 4 x" for x
    using within_offset [of up 4 4 x 4096] within_page [OF 2(10), of x] that by simp
  have f3: "mem ?s3 x = mem s1 x" if "x AND 0xfffff000 \<noteq> n" "\<not> within (up + 4) 4 x" for x
    using that n(9) set32_page [OF n(3), of 0 x] set32_page [OF n(3), of 4 x] by (simp add: set32_def store32_other)
  have cells: "next_unit (mem ?s3) up = n" "next_unit (mem ?s3) n = 0" "unit_str (mem ?s3) n = u"
  proof -
    have "\<not> within (up + 4) 4 x" if "within (n + of_nat k) 4 x" "k \<le> 4" for k x
      using that upn(1) upw within_offset [of n k 4 x 4096] within_page [OF n(3), of x] by auto
    then have "load32 (mem ?s3) (n + of_nat k) = load32 (mem (set32 (n + 4) 0 (set32 n u s2))) (n + of_nat k)"
      if "k \<le> 4" for k
      by (intro load32_cong) (use that in \<open>simp add: set32_def store32_other\<close>)
    from this [of 0] this [of 4] show "next_unit (mem ?s3) n = 0" "unit_str (mem ?s3) n = u"
      by (simp_all add: next_unit_def unit_str_def set32_def apart4_def)
  qed (simp add: next_unit_def set32_def)
  have "\<exists>s'. parse_units_loop ?s3 q n = Some s' \<and> kinv s' \<and> kused ?s3 \<subseteq> kused s'
    \<and> units_hang ?s3 (mem s') n (path_split ?r)
    \<and> (\<forall>x. x \<in> kused ?s3 \<and> x AND 0xfffff000 \<noteq> P \<and> \<not> within (n + 4) 4 x \<longrightarrow> mem s' x = mem ?s3 x)"
  proof (rule "2.IH")
    show "cstr (mem ?s3) q ?r"
    proof (rule cstr_cong [OF u(10)])
      fix i assume "i \<le> length ?r"
      then have "(q + of_nat i) AND 0xfffff000 = P" using 2(8) lr by simp
      then show "mem ?s3 (q + of_nat i) = mem s1 (q + of_nat i)" using f3 upn(2) upw 2(11) by metis
    qed
    show "2 * length (path_split ?r) + 1 \<le> kavail ?s3" unfolding k3 using room(2) u(8) n(5) by simp
    show "\<forall>i\<le>length ?r. (q + of_nat i) AND 0xfffff000 = P" using 2(8) lr by simp
    show "P \<in> kused ?s3" using 2(7) u(5) n(6) k3 by auto
  qed (use n(3,4,8) k3 2(4,5) lr cells(2) upn split in auto)
  then obtain s' where s: "parse_units_loop ?s3 q n = Some s'" "kinv s'" "kused s2 \<subseteq> kused s'"
    "units_hang ?s3 (mem s') n (path_split ?r)"
    "\<And>x. x \<in> kused s2 \<Longrightarrow> x AND 0xfffff000 \<noteq> P \<Longrightarrow> \<not> within (n + 4) 4 x \<Longrightarrow> mem s' x = mem ?s3 x"
    unfolding k3 by blast
  have nw: "x AND 0xfffff000 = n" if "within (n + 4) 4 x" for x
    using within_offset [of n 4 4 x 4096] within_page [OF n(3), of x] that by simp
  have late: "mem s' x = mem ?s3 x" if "x \<in> kused s1" "x AND 0xfffff000 \<noteq> P" for x
    using s(5) [of x] that n(6) page [OF that(1)] nw by blast
  have "next_unit (mem s') up = next_unit (mem ?s3) up"
    unfolding next_unit_def
    by (rule load32_cong, rule late) (use upw 2(9,11) u(5) kused_page [OF 2(2), of _ up] in auto)
  then have up: "next_unit (mem s') up = n" using cells(1) by simp
  have "unit_str (mem s') n = unit_str (mem ?s3) n"
    unfolding unit_str_def
  proof (rule load32_cong, rule s(5))
    fix x assume w: "within n 4 x"
    then have "x AND 0xfffff000 = n" using within_offset [of n 0 4 x 4096] within_page [OF n(3), of x] by simp
    then show "x \<in> kused s2" "x AND 0xfffff000 \<noteq> P" using kused_page [OF n(4)] n(8) upn(2) by auto
    show "\<not> within (n + 4) 4 x" using w apart4_disjoint [of n "n + 4" x] by (simp add: apart4_def)
  qed
  then have str: "unit_str (mem s') n = u" using cells(3) by simp
  have ub: "(u + of_nat i) AND 0xfffff000 = u" if "i \<le> length (unit_of ?bs)" for i
    using page_byte [OF u(3), of i] short that by simp
  have cu: "cstr (mem s') u (unit_of ?bs)"
  proof (rule cstr_cong [OF u(9)])
    fix i assume "i \<le> length (unit_of ?bs)"
    then have pu: "(u + of_nat i) AND 0xfffff000 = u" by (rule ub)
    have "u \<noteq> up" "u \<noteq> P" using u(6) 2(7,9) by auto
    moreover from this have "\<not> within (up + 4) 4 (u + of_nat i)" using upw pu by auto
    ultimately show "mem s' (u + of_nat i) = mem s1 (u + of_nat i)"
      using late [of "u + of_nat i"] f3 [of "u + of_nat i"] pu upn(3) kused_page [OF u(4) pu] u(7) by auto
  qed
  have "units_hang s (mem s') up (path_split ?bs)"
    unfolding units_hang_def
  proof (intro allI impI)
    fix m' assume A: "\<forall>x. x \<in> kused s \<and> x AND 0xfffff000 \<noteq> up \<or> m' x = mem s' x"
    have old: "x \<notin> kused s" if "x AND 0xfffff000 = n" for x using page [of x] that u(5) by auto
    have "next_unit m' up = next_unit (mem s') up"
      unfolding next_unit_def by (rule load32_cong) (use A upw in metis)
    moreover have "unit_str m' n = unit_str (mem s') n"
      unfolding unit_str_def
    proof (rule load32_cong)
      fix x assume "within n 4 x"
      then have "x \<notin> kused s" using old within_offset [of n 0 4 x 4096] within_page [OF n(3), of x] by simp
      then show "m' x = mem s' x" using A by blast
    qed
    moreover have "cstr m' u (unit_of ?bs)"
    proof (rule cstr_cong [OF cu])
      fix i assume "i \<le> length (unit_of ?bs)"
      then have "u + of_nat i \<notin> kused s" using ub u(6) kused_page [OF 2(2)] by metis
      then show "m' (u + of_nat i) = mem s' (u + of_nat i)" using A by blast
    qed
    moreover have "units_are m' (next_unit m' n) (path_split ?r)"
      using s(4) A old u(5) n(6) k3 unfolding units_hang_def by (metis subsetD)
    ultimately show "units_are m' (next_unit m' up) (path_split ?bs)"
      unfolding split using n(2) up str by simp
  qed
  moreover have "parse_units_loop s q up = Some s'"
    using u(1,2) n(1) s(1) by (subst parse_units_loop.simps) simp
  moreover have "mem s' x = mem s x"
    if "x \<in> kused s" "x AND 0xfffff000 \<noteq> P" "\<not> within (up + 4) 4 x" for x
    using late [of x] f3 [of x] u(11) that page [of x] u(5) by auto
  ultimately show ?case using s(2,3) u(5) n(6) by blast
qed

section \<open>The whole name\<close>

text \<open>The copy of the name into a block of its own, and the drive letter.\<close>

definition parse_units :: "'a kst_scheme \<Rightarrow> u32 \<Rightarrow> (u32 \<times> 'a kst_scheme) option" where
  "parse_units s path =
     do { (unit_head, s) \<leftarrow> kzalloc s 8;
          (first_unit, s) \<leftarrow> path_get_current_unit_and_advance s path;
          s \<leftarrow> parse_units_loop (set32 (unit_head + 4) 0 (set32 unit_head first_unit s)) path unit_head;
          Some (unit_head, s) }"

lemma parse_drive_letter:
  assumes "cstr m w (d # c1 # c2 # bs)" and "65 \<le> d" "d \<le> 90" and "length bs \<le> 509"
  shows "parse_drive m w = Some d" and "\<not> sint d < 0"
proof -
  let ?n = "of_nat (length (d # c1 # c2 # bs)) :: u32"
  have up: "65 \<le> sint d" "sint d \<le> 90" using u8_in_range [of 65 90 d] assms(2,3) by (simp_all add: word_le_def)
  have "unat ?n = length (d # c1 # c2 # bs)" using assms(4) by (intro unat_of_nat_less) simp
  then have "3 \<le> ?n" by (simp add: word_le_nat_alt)
  then show "parse_drive m w = Some d"
    using assms(1) up strlen_cstr [OF assms(1)] by (simp add: parse_drive_def)
  show "\<not> sint d < 0" using up by simp
qed

lemma parse_path_start:
  assumes inv: "kinv s" and nm: "cstr (mem s) a (d # c1 # c2 # bs)" and d: "65 \<le> d" "d \<le> 90"
    and len: "length bs \<le> 509" and room: "2 \<le> kavail s"
    and us: "\<forall>i\<le>length bs + 3. a + of_nat i \<in> kused s"
  obtains p w s' where "parse_path s a = do { (h, s1) \<leftarrow> parse_units s' (w + 3); Some (p, set32 (p + 4) h s1) }"
    and "kinv s'" and "kavail s = kavail s' + 2" and "kused s \<subseteq> kused s'"
    and "p \<noteq> 0" and "p mod 4096 = 0" and "p \<in> kused s'" and "p \<notin> kused s" and "p \<noteq> w" and "mem s' p = d"
    and "w mod 4096 = 0" and "w \<in> kused s'" and "w \<notin> kused s" and "cstr (mem s') (w + 3) bs"
    and "\<forall>x. x \<in> kused s \<longrightarrow> mem s' x = mem s x"
proof -
  let ?nm = "d # c1 # c2 # bs"
  have usi: "a + of_nat i \<in> kused s" if "i \<le> length ?nm" for i using us that by simp
  have r0: "0 < kavail s" "(0 :: u32) < 8" "(8 :: u32) \<le> 4096" using room by simp_all
  obtain p s1 where p: "kzalloc s 8 = Some (p, s1)" "p \<noteq> 0" "p mod 4096 = 0" "kinv s1" "kavail s = Suc (kavail s1)"
    "kused s \<subseteq> kused s1" "p \<notin> kused s" "p \<in> kused s1"
    by (rule kzalloc_page [OF inv r0]) (rule that)
  let ?n = "of_nat (length ?nm) :: u32"
  have n: "unat ?n = length ?nm" using len by (intro unat_of_nat_less) simp
  have r1: "0 < kavail s1" "0 < ?n" "?n \<le> 4096"
    using len room p(5) n by (simp_all add: word_less_nat_alt word_le_nat_alt)
  obtain w s2 where w: "kzalloc s1 ?n = Some (w, s2)" "w mod 4096 = 0" "kinv s2" "kavail s1 = Suc (kavail s2)"
    "kused s1 \<subseteq> kused s2" "w \<notin> kused s1" "w \<in> kused s2"
    by (rule kzalloc_page [OF p(4) r1]) (rule that)
  have k1: "mem s1 x = mem s x" if "x \<in> kused s" for x using kz.alloc_keeps_used [OF inv p(1) that] .
  have k2: "mem s2 x = mem s x" if "x \<in> kused s" for x
    using kz.alloc_keeps_used [OF p(4) w(1), of x] k1 [OF that] that p(6) by auto
  have nm1: "cstr (mem s1) a ?nm" by (rule cstr_cong [OF nm]) (rule k1 [OF usi])
  have nm2: "cstr (mem s2) a ?nm" by (rule cstr_cong [OF nm]) (rule k2 [OF usi])
  have "\<forall>i\<le>length ?nm. w \<noteq> a + of_nat i" using usi p(6) w(6) by blast
  from strcpy_cstr [OF nm2 _ this] len obtain m3 where
    m3: "strcpy (mem s2) w a = Some m3" "cstr m3 w ?nm"
    "\<forall>x. (\<forall>i\<le>length ?nm. x \<noteq> w + of_nat i) \<longrightarrow> m3 x = mem s2 x" by auto
  have wb: "(w + of_nat i) AND 0xfffff000 = w" if "i \<le> length ?nm" for i
    by (rule page_byte [OF w(2)]) (use that len in simp)
  let ?s' = "set8 p d (s2\<lparr>mem := m3\<rparr>)"
  have pw: "p \<noteq> w" "p AND 0xfffff000 = p" using p(8) w(6) aligned_page_base [OF p(3)] by auto
  have wp: "x \<noteq> p" if "x AND 0xfffff000 = w" for x using that pw by auto
  show ?thesis
  proof (rule that [OF _ _ _ _ p(2,3)])
    define N where "N = ?n"
    have "\<not> FS_MAX_PATH_LENGTH < N" using n len by (simp add: N_def word_less_nat_alt)
    then show "parse_path s a = do { (h, s1) \<leftarrow> parse_units ?s' (w + 3); Some (p, set32 (p + 4) h s1) }"
      unfolding parse_path_def
      by (simp add: p(1) strlen_cstr [OF nm, folded N_def] strlen_cstr [OF nm1, folded N_def] w(1) [folded N_def] m3(1)
          parse_drive_letter [OF m3(2) d len] parse_units_def Let_def case_prod_unfold)
    show "kinv ?s'" "kused s \<subseteq> kused ?s'" "p \<in> kused ?s'" "w \<in> kused ?s'"
      using w(3,5,7) p(6,8) by (auto simp: set8_def)
    show "kavail s = kavail ?s' + 2" using p(5) w(4) by (simp add: set8_def)
    show "p \<notin> kused s" "p \<noteq> w" "w mod 4096 = 0" "mem ?s' p = d" "w \<notin> kused s"
      using p(6,7) pw(1) w(2,6) by (auto simp: set8_def)
    show "cstr (mem ?s') (w + 3) bs"
    proof (rule cstr_cong)
      show "cstr m3 (w + 3) bs" using cstr_drop [OF m3(2), of 3] by simp
      fix i assume "i \<le> length bs"
      then have "(w + 3 + of_nat i) AND 0xfffff000 = w" using wb [of "3 + i"] by (simp add: add.assoc)
      then show "mem ?s' (w + 3 + of_nat i) = m3 (w + 3 + of_nat i)" using wp by (simp add: set8_def)
    qed
    show "\<forall>x. x \<in> kused s \<longrightarrow> mem ?s' x = mem s x"
    proof (intro allI impI)
      fix x assume x: "x \<in> kused s"
      then have "x AND 0xfffff000 \<noteq> w" "x \<noteq> p" using kused_page [OF inv refl, of x] p(6,7) w(6) by auto
      then have "m3 x = mem s2 x" using m3(3) wb by metis
      then show "mem ?s' x = mem s x" using k2 [OF x] \<open>x \<noteq> p\<close> by (simp add: set8_def)
    qed
  qed
qed

lemma parse_units_spec:
  assumes inv: "kinv s" and q: "cstr (mem s) q bs" and ne: "bs \<noteq> []" and len: "length bs < 4096"
    and units: "\<forall>t\<in>set (path_split bs). length t < 64" and room: "2 * length (path_split bs) + 1 < kavail s"
    and P: "P \<in> kused s" "\<forall>i\<le>length bs. (q + of_nat i) AND 0xfffff000 = P"
  obtains h s' where "parse_units s q = Some (h, s')" and "kinv s'" and "kused s \<subseteq> kused s'"
    and "\<forall>m'. (\<forall>x. x \<in> kused s \<or> m' x = mem s' x) \<longrightarrow> units_are m' h (path_split bs)"
    and "\<forall>x. x \<in> kused s \<and> x AND 0xfffff000 \<noteq> P \<longrightarrow> mem s' x = mem s x"
proof -
  let ?r = "after_unit bs"
  have split: "path_split bs = unit_of bs # path_split ?r" by (rule path_split_step [OF ne])
  have r: "0 < kavail s" "(0 :: u32) < 8" "(8 :: u32) \<le> 4096" using room by simp_all
  obtain h s1 where h: "kzalloc s 8 = Some (h, s1)" "h \<noteq> 0" "h mod 4096 = 0" "kinv s1" "kavail s = Suc (kavail s1)"
    "kused s \<subseteq> kused s1" "h \<notin> kused s" "h \<in> kused s1" "\<forall>x. x AND 0xfffff000 \<noteq> h \<longrightarrow> mem s1 x = mem s x"
    by (rule kzalloc_page [OF inv r]) (rule that)
  have hP: "P \<noteq> h" using P(1) h(7) by auto
  have q1: "cstr (mem s1) q bs" by (rule cstr_cong [OF q]) (use h(9) P(2) hP in simp)
  have l: "length (unit_of bs) < 64" "2 \<le> kavail s1" "P \<in> kused s1" using units room split h(5,6) P(1) by auto
  obtain u s2 where u: "path_get_current_unit_and_advance s1 q = Some (u, s2)" "u \<noteq> 0" "u mod 4096 = 0"
    "kinv s2" "kused s1 \<subseteq> kused s2" "u \<notin> kused s1" "u \<in> kused s2" "kavail s1 = Suc (kavail s2)"
    "cstr (mem s2) u (unit_of bs)" "cstr (mem s2) q ?r"
    "\<forall>x. x \<in> kused s1 \<and> x AND 0xfffff000 \<noteq> P \<longrightarrow> mem s2 x = mem s1 x"
    by (rule current_unit_advance [OF h(4) q1 ne len l P(2)]) (rule that)
  let ?s3 = "set32 (h + 4) 0 (set32 h u s2)"
  have k3: "kheap ?s3 = kheap s2" by (simp add: set32_def)
  have f3: "mem ?s3 x = mem s2 x" if "x AND 0xfffff000 \<noteq> h" for x
    using that set32_page [OF h(3), of 0 x] set32_page [OF h(3), of 4 x] by (simp add: set32_def)
  have cells: "next_unit (mem ?s3) h = 0" "unit_str (mem ?s3) h = u"
    by (simp_all add: next_unit_def unit_str_def set32_def apart4_def)
  have lr: "length ?r \<le> length bs" by (simp add: after_unit_def)
  have "\<exists>s'. parse_units_loop ?s3 q h = Some s' \<and> kinv s' \<and> kused ?s3 \<subseteq> kused s'
    \<and> units_hang ?s3 (mem s') h (path_split ?r)
    \<and> (\<forall>x. x \<in> kused ?s3 \<and> x AND 0xfffff000 \<noteq> P \<and> \<not> within (h + 4) 4 x \<longrightarrow> mem s' x = mem ?s3 x)"
  proof (rule parse_units_loop_spec)
    show "cstr (mem ?s3) q ?r" by (rule cstr_cong [OF u(10)]) (use f3 P(2) lr hP in simp)
    show "2 * length (path_split ?r) + 1 \<le> kavail ?s3" unfolding k3 using room split h(5) u(8) by simp
    show "\<forall>i\<le>length ?r. (q + of_nat i) AND 0xfffff000 = P" using P(2) lr by simp
  qed (use u(4,5) h(3,8) k3 len lr units split l(3) hP cells(1) in auto)
  then obtain s' where s: "parse_units_loop ?s3 q h = Some s'" "kinv s'" "kused s2 \<subseteq> kused s'"
    "units_hang ?s3 (mem s') h (path_split ?r)"
    "\<And>x. x \<in> kused s2 \<Longrightarrow> x AND 0xfffff000 \<noteq> P \<Longrightarrow> \<not> within (h + 4) 4 x \<Longrightarrow> mem s' x = mem ?s3 x"
    unfolding k3 by blast
  have hw: "x AND 0xfffff000 = h" if "within (h + of_nat k) 4 x" "k \<le> 4" for k x
    using within_offset [of h k 4 x 4096] within_page [OF h(3), of x] that by simp
  show ?thesis
  proof (rule that [of h s'])
    show "parse_units s q = Some (h, s')" by (simp add: parse_units_def h(1) u(1) s(1))
    show "kinv s'" "kused s \<subseteq> kused s'" using s(2,3) h(6) u(5) by auto
    show "\<forall>x. x \<in> kused s \<and> x AND 0xfffff000 \<noteq> P \<longrightarrow> mem s' x = mem s x"
    proof (intro allI impI)
      fix x assume x: "x \<in> kused s \<and> x AND 0xfffff000 \<noteq> P"
      then have xh: "x AND 0xfffff000 \<noteq> h" "x \<in> kused s2" using kused_page [OF inv refl, of x] h(6,7) u(5) by auto
      have "mem s' x = mem ?s3 x" using s(5) [OF xh(2)] x xh(1) hw [of 4 x] by auto
      then show "mem s' x = mem s x" using f3 [OF xh(1)] u(11) h(6,9) x xh(1) by auto
    qed
    show "\<forall>m'. (\<forall>x. x \<in> kused s \<or> m' x = mem s' x) \<longrightarrow> units_are m' h (path_split bs)"
    proof (intro allI impI)
      fix m' assume A: "\<forall>x. x \<in> kused s \<or> m' x = mem s' x"
      have old: "x \<notin> kused s" if "x AND 0xfffff000 = h" for x using kused_page [OF inv that] h(7) by simp
      have "unit_str m' h = unit_str (mem ?s3) h"
        unfolding unit_str_def
      proof (rule load32_cong)
        fix x assume w: "within h 4 x"
        then have xh: "x AND 0xfffff000 = h" using hw [of 0 x] by simp
        have "\<not> within (h + 4) 4 x" using w apart4_disjoint [of h "h + 4" x] by (simp add: apart4_def)
        then have "mem s' x = mem ?s3 x" using s(5) [of x] xh hP kused_page [OF u(4) xh] h(8) u(5) by auto
        then show "m' x = mem ?s3 x" using A old [OF xh] by metis
      qed
      moreover have "cstr m' u (unit_of bs)"
      proof (rule cstr_cong [OF u(9)])
        fix i assume "i \<le> length (unit_of bs)"
        then have pu: "(u + of_nat i) AND 0xfffff000 = u" using page_byte [OF u(3), of i] l(1) by simp
        have "u \<noteq> h" "u \<noteq> P" "u \<notin> kused s" using u(6) h(6,8) l(3) by auto
        moreover from this have "\<not> within (h + 4) 4 (u + of_nat i)" using hw [of 4] pu by auto
        ultimately have "mem s' (u + of_nat i) = mem ?s3 (u + of_nat i)" "mem ?s3 (u + of_nat i) = mem s2 (u + of_nat i)"
          "u + of_nat i \<notin> kused s"
          using s(5) [of "u + of_nat i"] f3 [of "u + of_nat i"] pu kused_page [OF u(4) pu] kused_page [OF inv pu] u(7) by auto
        then show "m' (u + of_nat i) = mem s2 (u + of_nat i)" using A by metis
      qed
      moreover have "units_are m' (next_unit m' h) (path_split ?r)"
        using s(4) A old h(6) u(5) k3 unfolding units_hang_def by (metis subsetD)
      ultimately show "units_are m' h (path_split bs)" unfolding split using h(2) cells(2) by simp
    qed
  qed
qed

text \<open>C13: \<open>parse_path\<close> splits a name at its slashes. A name \<open>D:/a/b/c\<close> with a drive letter, at
  least one byte after the three of the drive, units of less than 64 bytes and enough free blocks gives a
  \<open>struct path\<close> with the letter and the list of the units in order; no byte in use is changed.\<close>

theorem parse_path_splits:
  assumes "kinv s" and "cstr (mem s) a (d # c1 # c2 # bs)" and "65 \<le> d" "d \<le> 90" and "bs \<noteq> []"
    and "length bs \<le> 509" and "\<forall>t\<in>set (path_split bs). length t < 64"
    and "2 * length (path_split bs) + 4 \<le> kavail s" and "\<forall>i\<le>length bs + 3. a + of_nat i \<in> kused s"
  shows "\<exists>p s'. parse_path s a = Some (p, s') \<and> p \<noteq> 0 \<and> path_drive_id (mem s') p = d
    \<and> units_are (mem s') (path_units (mem s') p) (path_split bs)
    \<and> kinv s' \<and> (\<forall>x. x \<in> kused s \<longrightarrow> mem s' x = mem s x \<and> x \<in> kused s')"
proof -
  have r: "2 \<le> kavail s" "length bs < 4096" using assms(6,8) by simp_all
  obtain p w s1 where p: "parse_path s a = do { (h, s2) \<leftarrow> parse_units s1 (w + 3); Some (p, set32 (p + 4) h s2) }"
    "kinv s1" "kavail s = kavail s1 + 2" "kused s \<subseteq> kused s1"
    "p \<noteq> 0" "p mod 4096 = 0" "p \<in> kused s1" "p \<notin> kused s" "p \<noteq> w" "mem s1 p = d"
    "w mod 4096 = 0" "w \<in> kused s1" "w \<notin> kused s" "cstr (mem s1) (w + 3) bs"
    "\<forall>x. x \<in> kused s \<longrightarrow> mem s1 x = mem s x"
    by (rule parse_path_start [OF assms(1-4,6) r(1) assms(9)]) (rule that)
  have room: "2 * length (path_split bs) + 1 < kavail s1" using assms(8) p(3) by simp
  have "\<forall>i\<le>length bs. (w + 3 + of_nat i) AND 0xfffff000 = w"
    using page_byte [OF p(11), of "3 + _"] assms(6) by (auto simp: add.assoc)
  then obtain h s2 where h: "parse_units s1 (w + 3) = Some (h, s2)" "kinv s2" "kused s1 \<subseteq> kused s2"
    "\<forall>m'. (\<forall>x. x \<in> kused s1 \<or> m' x = mem s2 x) \<longrightarrow> units_are m' h (path_split bs)"
    "\<forall>x. x \<in> kused s1 \<and> x AND 0xfffff000 \<noteq> w \<longrightarrow> mem s2 x = mem s1 x"
    by (rule parse_units_spec [OF p(2,14) assms(5) r(2) assms(7) room p(12)]) (rule that)
  let ?s = "set32 (p + 4) h s2"
  have pp: "x AND 0xfffff000 = p" if "within (p + 4) 4 x" for x
    using within_offset [of p 4 4 x 4096] within_page [OF p(6), of x] that by simp
  have "x \<in> kused s1 \<or> mem ?s x = mem s2 x" for x
    using pp [of x] kused_page [OF p(2), of x p] p(7)
    by (cases "within (p + 4) 4 x") (simp_all add: set32_def store32_other)
  then have "units_are (mem ?s) h (path_split bs)" using h(4) by blast
  moreover have "path_units (mem ?s) p = h" by (simp add: path_units_def set32_def)
  moreover have "\<not> within (p + 4) 4 p" by (simp add: within_def)
  then have "path_drive_id (mem ?s) p = d"
    using h(5) p(7,9,10) aligned_page_base [OF p(6)] by (simp add: path_drive_id_def set32_def store32_other)
  moreover have "mem ?s x = mem s x \<and> x \<in> kused ?s" if x: "x \<in> kused s" for x
  proof -
    have "x AND 0xfffff000 \<noteq> p" "x AND 0xfffff000 \<noteq> w" using kused_page [OF assms(1) refl, of x] x p(8,13) by auto
    moreover from this have "\<not> within (p + 4) 4 x" using pp by blast
    ultimately show ?thesis using h(3,5) p(4,15) x by (auto simp: set32_def store32_other)
  qed
  ultimately show ?thesis using p(1,5) h(1,2) by (intro exI [of _ p] exI [of _ ?s]) (simp add: set32_def)
qed

definition demo_name :: kst where
  "demo_name = \<lparr>mem = store32 (store32 (\<lambda>_. 0) 0x1000000 0x682F3A41) 0x1000004 0x782F69, kheap = four_blocks\<rparr>"

theorem parse_path_splits_witness:
  "\<exists>p s'. parse_path demo_name 0x1000000 = Some (p, s') \<and> path_drive_id (mem s') p = 0x41
     \<and> units_are (mem s') (path_units (mem s') p) [[0x68, 0x69], [0x78]]"
proof -
  let ?bs = "[0x68, 0x69, 0x2F, 0x78] :: u8 list"
  have split: "path_split ?bs = [[0x68, 0x69], [0x78]]" by (simp add: unit_of_def after_unit_def)
  have k: "kheap demo_name = four_blocks" by (simp add: demo_name_def)
  have c: "cstr (mem demo_name) 0x1000000 (0x41 # 0x3A # 0x2F # ?bs)"
    unfolding demo_name_def by (simp add: store32_def)
  have "\<forall>i\<le>length ?bs + 3. 0x1000000 + of_nat i \<in> kused demo_name"
    unfolding k four_blocks(3) by (simp add: within_def word_less_nat_alt unat_of_nat_less)
  from parse_path_splits [OF _ c _ _ _ _ _ _ this] show ?thesis
    unfolding split k by (auto simp: four_blocks)
qed

end
