(* ===== verification/User_Lib.thy ===== *)
theory User_Lib
  imports Syscall
begin

text \<open>
  The user side (\<^verbatim>\<open>usrspc/\<close>): the system-call stubs, the C library and the shell. A user
  program reads and writes through the page directory the processor runs on, with the user and write
  bits checked; an access that is refused faults for ever, which is the answer \<open>None\<close>. What the
  compiler, the linker and the hardware decide is the record \<open>usr\<close>: the registers at a trap (the
  stack pointer included), what interrupts do while a program polls, and the addresses of literals.
\<close>

section \<open>The world of a user program\<close>

record 's usr =
  regs :: "'s \<Rightarrow> interrupt_frame"
  tick :: "'s \<Rightarrow> 's"
  literal :: "string \<Rightarrow> u32"

definition user_load8 :: "memory \<Rightarrow> u32 \<Rightarrow> u32 \<Rightarrow> u8 option" where
  "user_load8 m dir va = map_option m (user_addr m dir USER_READ va)"

definition user_store8 :: "memory \<Rightarrow> u32 \<Rightarrow> u32 \<Rightarrow> u8 \<Rightarrow> memory option" where
  "user_store8 m dir va v = map_option (\<lambda>pa. m(pa := v)) (user_addr m dir USER_WRITE va)"

definition user_store32 :: "memory \<Rightarrow> u32 \<Rightarrow> u32 \<Rightarrow> u32 \<Rightarrow> memory option" where
  "user_store32 m dir va v =
     do { m \<leftarrow> user_store8 m dir va (ucast v);
          m \<leftarrow> user_store8 m dir (va + 1) (ucast (drop_bit 8 v));
          m \<leftarrow> user_store8 m dir (va + 2) (ucast (drop_bit 16 v));
          user_store8 m dir (va + 3) (ucast (drop_bit 24 v)) }"

section \<open>The stubs\<close>

text \<open>A call with one argument pushes it; the stack pointer at the trap points to it.\<close>

definition int_0x80 :: "'a kernst_scheme usr \<Rightarrow> nat \<Rightarrow> 'a kernst_scheme \<Rightarrow> ('a kernst_scheme sysres) option" where
  "int_0x80 w command s = isr_0x80_handler s (int command) (regs w s)"

definition int_0x80_arg :: "'a kernst_scheme usr \<Rightarrow> nat \<Rightarrow> u32 \<Rightarrow> 'a kernst_scheme
    \<Rightarrow> ('a kernst_scheme sysres) option" where
  "int_0x80_arg w command arg s =
     do { let f = regs w s;
          m \<leftarrow> user_store32 (mem s) (cr3 s) (fr_esp f) arg;
          isr_0x80_handler (s\<lparr>mem := m\<rparr>) (int command) f }"

text \<open>A call that enters another task does not come back.\<close>

fun returned :: "'s sysres \<Rightarrow> (u32 \<times> 's) option" where
  "returned (Returns v s) = Some (v, s)"
| "returned (Enters e s) = None"

definition puts :: "'a kernst_scheme usr \<Rightarrow> u32 \<Rightarrow> 'a kernst_scheme \<Rightarrow> (u32 \<times> 'a kernst_scheme) option" where
  "puts w str s = do { r \<leftarrow> int_0x80_arg w 0 str s; returned r }"

definition putch :: "'a kernst_scheme usr \<Rightarrow> u8 \<Rightarrow> 'a kernst_scheme \<Rightarrow> (u32 \<times> 'a kernst_scheme) option" where
  "putch w c s = do { r \<leftarrow> int_0x80_arg w 2 (scast c) s; returned r }"

partial_function (option) wait_for_key_press ::
    "'a kernst_scheme usr \<Rightarrow> 'a kernst_scheme \<Rightarrow> (u32 \<times> 'a kernst_scheme) option" where
  "wait_for_key_press w s =
     do { r \<leftarrow> int_0x80 w 1 s;
          (c, s) \<leftarrow> returned r;
          if c = 0 then wait_for_key_press w (tick w s) else Some (c, s) }"

definition getch :: "'a kernst_scheme usr \<Rightarrow> 'a kernst_scheme \<Rightarrow> (u32 \<times> 'a kernst_scheme) option" where
  "getch w s = wait_for_key_press w s"

text \<open>\<open>gets\<close> stores the whole register at each position, and stops after the line feed.\<close>

partial_function (option) gets_loop ::
    "'a kernst_scheme usr \<Rightarrow> u32 \<Rightarrow> 'a kernst_scheme \<Rightarrow> 'a kernst_scheme option" where
  "gets_loop w ebx s =
     do { (c, s) \<leftarrow> getch w s;
          m \<leftarrow> user_store32 (mem s) (cr3 s) ebx c;
          let s = s\<lparr>mem := m\<rparr>;
          if c = 10 then Some s else gets_loop w (ebx + 1) s }"

definition gets :: "'a kernst_scheme usr \<Rightarrow> u32 \<Rightarrow> 'a kernst_scheme \<Rightarrow> (u32 \<times> 'a kernst_scheme) option" where
  "gets w str s = do { s \<leftarrow> gets_loop w str s; Some (str, s) }"

definition usr_malloc :: "'a kernst_scheme usr \<Rightarrow> u32 \<Rightarrow> 'a kernst_scheme \<Rightarrow> (u32 \<times> 'a kernst_scheme) option" where
  "usr_malloc w n s = do { r \<leftarrow> int_0x80_arg w 3 n s; returned r }"

definition usr_free :: "'a kernst_scheme usr \<Rightarrow> u32 \<Rightarrow> 'a kernst_scheme \<Rightarrow> (u32 \<times> 'a kernst_scheme) option" where
  "usr_free w p s = do { r \<leftarrow> int_0x80_arg w 4 p s; returned r }"

definition exec :: "'a kernst_scheme usr \<Rightarrow> u32 \<Rightarrow> 'a kernst_scheme \<Rightarrow> ('a kernst_scheme sysres) option" where
  "exec w filename s = int_0x80_arg w 5 filename s"

definition exit_task :: "'a kernst_scheme usr \<Rightarrow> 'a kernst_scheme \<Rightarrow> ('a kernst_scheme sysres) option" where
  "exit_task w s = int_0x80 w 6 s"

section \<open>The library\<close>

text \<open>\<open>itoa\<close>: the digits are counted, then written from the last one on. A number that is not
  positive has none.\<close>

fun itoa_digits :: "int \<Rightarrow> nat" where
  "itoa_digits temp = (if 0 < temp then Suc (itoa_digits (temp div 10)) else 0)"

declare itoa_digits.simps [simp del]

fun itoa_loop :: "memory \<Rightarrow> u32 \<Rightarrow> u32 \<Rightarrow> nat \<Rightarrow> int \<Rightarrow> memory option" where
  "itoa_loop m dir num_a 0 num = Some m"
| "itoa_loop m dir num_a (Suc left) num =
     do { m \<leftarrow> user_store8 m dir (num_a + of_nat left) (word_of_int (0x30 + num smod 10));
          itoa_loop m dir num_a left (num sdiv 10) }"

definition itoa :: "'a kernst_scheme usr \<Rightarrow> u32 \<Rightarrow> 'a kernst_scheme \<Rightarrow> (u32 \<times> 'a kernst_scheme) option" where
  "itoa w num s =
     do { (num_a, s) \<leftarrow> usr_malloc w 15 s;
          m \<leftarrow> itoa_loop (mem s) (cr3 s) num_a (itoa_digits (sint num)) (sint num);
          Some (num_a, s\<lparr>mem := m\<rparr>) }"

text \<open>\<open>printf\<close>: the arguments still to come are a list; taking one too many is undefined. An unknown
  conversion is skipped with its character, also when this character is the terminator.\<close>

partial_function (option) printf_loop :: "'a kernst_scheme usr \<Rightarrow> u32 \<Rightarrow> u32 list \<Rightarrow> nat \<Rightarrow> 'a kernst_scheme
    \<Rightarrow> (nat \<times> 'a kernst_scheme) option" where
  "printf_loop w p ap chars_written s =
     do { c \<leftarrow> user_load8 (mem s) (cr3 s) p;
          if c = 0 then Some (chars_written, s)
          else if c \<noteq> 0x25 then do {
            (_, s) \<leftarrow> putch w c s;
            printf_loop w (p + 1) ap (chars_written + 1) s }
          else do {
            c \<leftarrow> user_load8 (mem s) (cr3 s) (p + 1);
            if c = 0x69 then (case ap of [] \<Rightarrow> None | val # ap \<Rightarrow> do {
              (str, s) \<leftarrow> itoa w val s;
              (_, s) \<leftarrow> puts w str s;
              printf_loop w (p + 2) ap (chars_written + 1) s })
            else if c = 0x73 then (case ap of [] \<Rightarrow> None | str # ap \<Rightarrow> do {
              (_, s) \<leftarrow> puts w str s;
              printf_loop w (p + 2) ap (chars_written + 1) s })
            else printf_loop w (p + 2) ap chars_written s } }"

definition printf :: "'a kernst_scheme usr \<Rightarrow> u32 \<Rightarrow> u32 list \<Rightarrow> 'a kernst_scheme \<Rightarrow> (nat \<times> 'a kernst_scheme) option" where
  "printf w fmt ap s = printf_loop w fmt ap 0 s"

section \<open>The shell\<close>

definition gshell_init :: "'a kernst_scheme usr \<Rightarrow> 'a kernst_scheme \<Rightarrow> 'a kernst_scheme option" where
  "gshell_init w s = do { (_, s) \<leftarrow> printf w (literal w ''gammaOS v1.0.0\<newline>'') [] s; Some s }"

definition gshell_process_command ::
    "'a kernst_scheme usr \<Rightarrow> u32 \<Rightarrow> 'a kernst_scheme \<Rightarrow> ('a kernst_scheme sysres) option" where
  "gshell_process_command w command s =
     do { r \<leftarrow> exec w command s;
          case r of
            Enters e s \<Rightarrow> Some (Enters e s)
          | Returns v s \<Rightarrow>
              if sint v < 0
              then do { (_, s) \<leftarrow> printf w (literal w ''couldnt open file\<newline>'') [] s; Some (Returns 0 s) }
              else Some (Returns 0 s) }"

text \<open>The loop of the shell goes on until a command has been loaded and runs.\<close>

partial_function (option) gshell_loop ::
    "'a kernst_scheme usr \<Rightarrow> u32 \<Rightarrow> 'a kernst_scheme \<Rightarrow> ('a kernst_scheme sysres) option" where
  "gshell_loop w command s =
     do { (_, s) \<leftarrow> printf w (literal w ''> '') [] s;
          (_, s) \<leftarrow> gets w command s;
          r \<leftarrow> gshell_process_command w command s;
          case r of Enters e s \<Rightarrow> Some (Enters e s) | Returns v s \<Rightarrow> gshell_loop w command s }"

definition gshell_main :: "'a kernst_scheme usr \<Rightarrow> u32 \<Rightarrow> 'a kernst_scheme \<Rightarrow> ('a kernst_scheme sysres) option" where
  "gshell_main w command s = do { s \<leftarrow> gshell_init w s; gshell_loop w command s }"

end
