(* ===== verification/Task_Copy.thy ===== *)
theory Task_Copy
  imports Task
begin

text \<open>
  \<open>copy_data_from_task_to_kernel\<close>: how a string goes from the address space of a task to the
  kernel through a page that both see.
\<close>

section \<open>Copying a prefix\<close>

text \<open>\<open>fetched bs n\<close>: what \<open>strncpy\<close> takes from a string with limit \<open>n\<close>: the bytes before the
  terminator, or \<open>n\<close> of them. \<open>c i\<close> is the byte at distance \<open>i\<close>.\<close>

definition fetched :: "(nat \<Rightarrow> u8) \<Rightarrow> nat \<Rightarrow> u8 list \<Rightarrow> bool" where
  "fetched c n bs \<longleftrightarrow> length bs \<le> n \<and> (\<forall>i<length bs. c i = bs ! i) \<and> 0 \<notin> set bs
     \<and> (length bs < n \<longrightarrow> c (length bs) = 0)"

lemma fetchedD:
  assumes "fetched c n bs"
  shows "i < length bs \<Longrightarrow> c i \<noteq> 0" and "i < length bs \<Longrightarrow> c i = bs ! i" and "length bs \<le> n"
    and "length bs < n \<Longrightarrow> c (length bs) = 0"
proof -
  show "i < length bs \<Longrightarrow> c i = bs ! i" and "length bs \<le> n" and "length bs < n \<Longrightarrow> c (length bs) = 0"
    using assms by (simp_all add: fetched_def)
  show "c i \<noteq> 0" if "i < length bs"
    using assms nth_mem [OF that] that unfolding fetched_def by metis
qed

section \<open>The two copies\<close>

text \<open>\<open>strncpy\<close> between ranges that do not meet.\<close>

lemma strncpy_moves:
  assumes "fetched (\<lambda>i. m (src + of_nat i)) (unat n) bs"
    and "\<forall>i<length bs. \<forall>j<unat n. tgt + of_nat i \<noteq> src + of_nat j"
  obtains m' where "strncpy m tgt src n = (m', of_nat (length bs))"
    and "moved m m' tgt (\<lambda>i. bs ! i) 0 (length bs)"
proof -
  have len: "length bs \<le> unat n" by (rule fetchedD(3) [OF assms(1)])
  then have l32: "length bs < 2 ^ 32" using unsigned_less [of n, where ?'a = nat] by simp
  have "\<exists>m'. strncpy_loop m0 tgt src n (of_nat w) = (m', of_nat (length bs))
      \<and> moved m0 m' tgt (\<lambda>i. bs ! i) w (length bs)"
    if "w \<le> length bs" "\<forall>j<unat n. m0 (src + of_nat j) = m (src + of_nat j)" for m0 w
    using that
  proof (induction "length bs - w" arbitrary: m0 w)
    case 0
    then have w: "w = length bs" by simp
    show ?case
    proof (cases "length bs < unat n")
      case True
      have "m0 (src + of_nat w) = 0"
        using 0(3) True w fetchedD(4) [OF assms(1) True] by simp
      then show ?thesis using moved_refl [of w w] w by (subst strncpy_loop.simps) auto
    next
      case False
      then have "length bs = unat n" using len by simp
      then have "(of_nat w :: u32) = n" using w by simp
      then show ?thesis using moved_refl [of w w] w by (subst strncpy_loop.simps) auto
    qed
  next
    case (Suc k)
    then have w: "w < length bs" by simp
    then have wn: "of_nat w < n" using len of_nat_less_word(1) [of w n] by simp
    let ?m = "m0(tgt + of_nat w := bs ! w)"
    have c: "m0 (src + of_nat w) = bs ! w" "bs ! w \<noteq> 0"
      using Suc.prems(2) w len fetchedD(1,2) [OF assms(1) w] by simp_all
    have "\<forall>j<unat n. ?m (src + of_nat j) = m (src + of_nat j)"
      using Suc.prems(2) assms(2) w by (metis fun_upd_other)
    moreover have "k = length bs - Suc w" "Suc w \<le> length bs" using Suc.hyps(2) w by simp_all
    ultimately obtain m' where i: "strncpy_loop ?m tgt src n (of_nat (Suc w)) = (m', of_nat (length bs))"
      "moved ?m m' tgt (\<lambda>i. bs ! i) (Suc w) (length bs)" using Suc.hyps(1) by blast
    have "strncpy_loop m0 tgt src n (of_nat w) = (m', of_nat (length bs))"
      using i(1) wn c by (subst strncpy_loop.simps) (simp add: add.commute)
    then show ?case using moved_step [OF i(2) w l32] by blast
  qed
  from this [of 0 m] show ?thesis using that by (auto simp: strncpy_def)
qed

text \<open>\<open>strncpy\<close> under the tables of a space: the target is mapped to itself and holds no table.\<close>

lemma strncpy_virt_moves:
  assumes ok: "vspace_ok m v" and dir: "dir = page_directory_entries m (vspace_pd m v)"
    and tgt: "\<forall>i<unat n. mmu m dir (tgt + of_nat i) = Some (tgt + of_nat i)
        \<and> \<not> space_page m v ((tgt + of_nat i) AND 0xfffff000)"
    and src: "\<forall>i<unat n. i \<le> length bs \<longrightarrow> mmu m dir (src + of_nat i) = Some (pa i)"
    and bs: "fetched (\<lambda>i. m (pa i)) (unat n) bs"
    and apart: "\<forall>i<unat n. \<forall>j<unat n. j \<le> length bs \<longrightarrow> tgt + of_nat i \<noteq> pa j"
  obtains m' where "strncpy_virt_loop m dir tgt src n 0 = Some (m', of_nat (length bs))"
    and "moved m m' tgt (\<lambda>i. bs ! i) 0 (length bs)"
proof -
  have len: "length bs \<le> unat n" by (rule fetchedD(3) [OF bs])
  then have l32: "length bs < 2 ^ 32" using unsigned_less [of n, where ?'a = nat] by simp
  have "\<exists>m'. strncpy_virt_loop m0 dir tgt src n (of_nat w) = Some (m', of_nat (length bs))
      \<and> moved m0 m' tgt (\<lambda>i. bs ! i) w (length bs)"
    if "w \<le> length bs" "\<forall>x. m0 x \<noteq> m x \<longrightarrow> (\<exists>i<w. x = tgt + of_nat i)" for m0 w
    using that
  proof (induction "length bs - w" arbitrary: m0 w)
    case 0
    then have w: "w = length bs" by simp
    show ?case
    proof (cases "length bs < unat n")
      case False
      then have "length bs = unat n" using len by simp
      then have "(of_nat w :: u32) = n" using w by simp
      then show ?thesis using moved_refl [of w w] w by (subst strncpy_virt_loop.simps) auto
    next
      case True
      have agree: "\<forall>x. space_page m v (x AND 0xfffff000) \<longrightarrow> m0 x = m x"
        using 0(3) tgt w True by (metis less_trans)
      have "mmu m0 dir (src + of_nat w) = Some (pa w)"
        using mmu_agree(1) [OF ok agree] src True w by (simp add: dir)
      moreover have "m0 (pa w) = 0"
      proof -
        have "m0 (pa w) = m (pa w)" using 0(3) apart True w by (metis less_trans order_refl)
        then show ?thesis using fetchedD(4) [OF bs True] w by simp
      qed
      moreover have "of_nat w < n" using of_nat_less_word(1) [of w n] True w by simp
      ultimately show ?thesis
        using moved_refl [of w w] w by (subst strncpy_virt_loop.simps) (auto simp: vload8_def)
    qed
  next
    case (Suc k)
    then have w: "w < length bs" by simp
    then have wn': "w < unat n" using len by simp
    have wn: "of_nat w < n" using of_nat_less_word(1) [OF wn'] .
    have agree: "\<forall>x. space_page m v (x AND 0xfffff000) \<longrightarrow> m0 x = m x"
      using Suc.prems(2) tgt wn' by (metis less_trans)
    have t: "mmu m0 dir (src + of_nat w) = Some (pa w)" "mmu m0 dir (tgt + of_nat w) = Some (tgt + of_nat w)"
      using mmu_agree(1) [OF ok agree] src tgt wn' w by (simp_all add: dir)
    have "m0 (pa w) = m (pa w)" using Suc.prems(2) apart wn' w by (metis less_trans less_imp_le)
    then have c: "m0 (pa w) = bs ! w" "bs ! w \<noteq> 0" using fetchedD(1,2) [OF bs w] by simp_all
    let ?m = "m0(tgt + of_nat w := bs ! w)"
    have "\<forall>x. ?m x \<noteq> m x \<longrightarrow> (\<exists>i<Suc w. x = tgt + of_nat i)"
      using Suc.prems(2) by (metis fun_upd_other less_Suc_eq)
    moreover have "k = length bs - Suc w" "Suc w \<le> length bs" using Suc.hyps(2) w by simp_all
    ultimately obtain m' where
      i: "strncpy_virt_loop ?m dir tgt src n (of_nat (Suc w)) = Some (m', of_nat (length bs))"
      "moved ?m m' tgt (\<lambda>i. bs ! i) (Suc w) (length bs)" using Suc.hyps(1) by blast
    have "strncpy_virt_loop m0 dir tgt src n (of_nat w) = Some (m', of_nat (length bs))"
      using i(1) wn c t by (subst strncpy_virt_loop.simps) (simp add: vload8_def vstore8_def add.commute)
    then show ?case using moved_step [OF i(2) w l32] by blast
  qed
  from this [of 0 m] show ?thesis using that by auto
qed

section \<open>The shared page\<close>

text \<open>What the copy needs of the task \<open>t\<close>: its space is well formed, in use, and apart from the
  word that points to it.\<close>

definition task_space_wf :: "'a taskst_scheme \<Rightarrow> u32 \<Rightarrow> bool" where
  "task_space_wf s t \<longleftrightarrow>
     (let v = task_space (mem s) t
      in kinv s \<and> vspace_ok (mem s) v \<and> (\<forall>q. space_page (mem s) v q \<longrightarrow> q \<in> kused s)
       \<and> (\<forall>x. within t 4 x \<longrightarrow> x \<in> kused s))"

definition task_dir :: "'a taskst_scheme \<Rightarrow> u32 \<Rightarrow> u32" where
  "task_dir s t = page_directory_entries (mem s) (vspace_pd (mem s) (task_space (mem s) t))"

text \<open>The bytes \<open>bs\<close> are what the task would fetch at \<open>a\<close> with limit \<open>n\<close>; they lie in
  frames that are in use and are none of its tables, and no page of the range is the page \<open>q\<close>.\<close>

definition task_string :: "'a taskst_scheme \<Rightarrow> u32 \<Rightarrow> u32 \<Rightarrow> nat \<Rightarrow> u32 \<Rightarrow> (nat \<Rightarrow> u32) \<Rightarrow> u8 list \<Rightarrow> bool" where
  "task_string s t a n q pa bs \<longleftrightarrow>
     (\<forall>i<n. i \<le> length bs \<longrightarrow> mmu (mem s) (task_dir s t) (a + of_nat i) = Some (pa i)
        \<and> (a + of_nat i) AND 0xfffff000 \<noteq> q \<and> pa i \<in> kused s
        \<and> \<not> space_page (mem s) (task_space (mem s) t) (pa i AND 0xfffff000))
     \<and> fetched (\<lambda>i. mem s (pa i)) n bs"

lemma page_shared:
  fixes q :: u32
  assumes "q mod 4096 = 0" and "i < 4096"
  shows "(q + of_nat i) AND 0xfffff000 = q"
    and "unat (q + of_nat i) div 0x400000 = unat q div 0x400000"
proof -
  have "unat (of_nat i :: u32) = i" using assms(2) by (intro unat_of_nat_less) simp
  then have "of_nat i < (4096 :: u32)" using assms(2) by (simp add: word_less_nat_alt)
  then show p: "(q + of_nat i) AND 0xfffff000 = q" by (rule page_offset(2) [OF assms(1)])
  show "unat (q + of_nat i) div 0x400000 = unat q div 0x400000"
    using same_page_iff [OF assms(1), of "q + of_nat i"] p by blast
qed

text \<open>The first half: after the page is mapped, the string arrives in it.\<close>

lemma string_to_shared:
  fixes s :: "'a taskst_scheme"
  assumes wf: "task_space_wf s t" and n: "0 < n" "n \<le> 4096"
    and k: "kzalloc s n = Some (q, s1)" and q: "q \<noteq> 0"
    and pde: "pde_present (mem s) (task_space (mem s) t) q"
    and str: "task_string s t a (unat n) q pa bs"
  defines "v \<equiv> task_space (mem s) t"
  defines "m2 \<equiv> snd (map_vaddr_to_val (mem s1) (vspace_pd (mem s1) v) q (q OR 7))"
  shows "task_space (mem s1) t = v" and "vspace_ok (mem s1) v"
    and "vspace_pd m2 v = vspace_pd (mem s1) v"
    and "\<And>x. space_page (mem s1) v (x AND 0xfffff000) \<Longrightarrow> \<not> within q n x \<and> mem s1 x = mem s x"
    and "\<exists>m3. strncpy_virt_loop m2 (page_directory_entries m2 (vspace_pd m2 v)) q a n 0 = Some (m3, of_nat (length bs))
      \<and> moved m2 m3 q (\<lambda>i. bs ! i) 0 (length bs)"
    and "space_page (mem s1) v = space_page (mem s) v"
proof -
  let ?m = "mem s" and ?m1 = "mem s1"
  have inv: "kinv s" and ok: "vspace_ok ?m v" and us: "\<And>p. space_page ?m v p \<Longrightarrow> p \<in> kused s"
    and tu: "\<And>x. within t 4 x \<Longrightarrow> x \<in> kused s"
    using wf by (simp_all add: task_space_wf_def v_def Let_def)
  have al: "q mod 4096 = 0" by (rule kz.alloc_aligned [OF inv k])
  have keep: "?m1 x = ?m x" if "x \<in> kused s" for x by (rule kz.alloc_keeps_used [OF inv k that])
  have fresh: "x \<notin> kused s" if "within q n x" for x by (rule kz.alloc_fresh [OF inv k q that])
  have nq: "unat n \<le> 4096" using n(2) by (simp add: word_le_nat_alt)
  have wq: "within q n (q + of_nat i)" if "i < unat n" for i
    using of_nat_less_word(1) [OF that] by (simp add: within_def)
  show "task_space ?m1 t = v"
    unfolding task_space_def v_def by (rule load32_cong, rule keep, rule tu)
  have sp: "x \<in> kused s" if "space_page ?m v (x AND 0xfffff000)" for x
    using us [OF that] kused_page [OF inv, of x] by blast
  have "\<forall>x. space_page ?m v (x AND 0xfffff000) \<longrightarrow> ?m1 x = ?m x" using sp keep by blast
  note a1 = vspace_agree [OF ok this] and mm1 = mmu_agree [OF ok this]
  show ok1: "vspace_ok ?m1 v" by (rule a1(4))
  show "space_page ?m1 v = space_page ?m v" by (rule a1(6))
  show "\<not> within q n x \<and> ?m1 x = ?m x" if "space_page ?m1 v (x AND 0xfffff000)" for x
    using that fresh sp keep unfolding a1(6) by blast
  let ?pd = "vspace_pd ?m1 v"
  note s2 = map_vaddr_spec [OF ok1 al, where val = "q OR 7", folded m2_def]
    and f2 = map_vaddr_space [OF ok1 al, where val = "q OR 7", folded m2_def]
  show pd2: "vspace_pd m2 v = ?pd" by (rule s2(2))
  let ?dir = "page_directory_entries m2 (vspace_pd m2 v)"
  have mmu_q: "mmu m2 ?dir (q + of_nat i) = Some (q + of_nat i)" if i: "i < unat n" for i
  proof -
    have p: "(q + of_nat i) AND 0xfffff000 = q" "unat (q + of_nat i) div 0x400000 = unat q div 0x400000"
      using page_shared [OF al, of i] i nq by simp_all
    have "pde_present m2 v (q + of_nat i)"
      using pde unfolding f2(3) mm1(2) by (simp add: pde_present_def p(2) v_def)
    moreover have "pte m2 (vspace_pd m2 v) (q + of_nat i) = q OR 7" using s2(3) p(1) by (simp add: pd2)
    moreover have "(q OR 7) AND 1 \<noteq> 0" by (rule present_or) (simp add: bit_simps)
    moreover have "(q OR 7) AND 0xfffff000 = q" by (rule entry_base [OF al]) simp
    ultimately show ?thesis using va_recompose [of "q + of_nat i"] p(1) by (simp add: mmu_pte [OF s2(1)])
  qed
  have mmu_a: "mmu m2 ?dir va = mmu ?m (task_dir s t) va" if "va AND 0xfffff000 \<noteq> q" for va
  proof -
    have "pte m2 (vspace_pd m2 v) va = pte ?m1 ?pd va" using s2(3) that by (simp add: pd2)
    then have "mmu m2 ?dir va = mmu ?m1 (page_directory_entries ?m1 ?pd) va"
      by (simp add: mmu_pte [OF s2(1)] mmu_pte [OF ok1] f2(3))
    also have "\<dots> = mmu ?m1 (page_directory_entries ?m (vspace_pd ?m v)) va" by (simp add: a1(1,2))
    also have "\<dots> = mmu ?m (task_dir s t) va" unfolding mm1(1) by (simp add: task_dir_def v_def)
    finally show ?thesis .
  qed
  have src: "mmu m2 ?dir (a + of_nat i) = Some (pa i)" "m2 (pa i) = ?m (pa i)" "pa i \<in> kused s"
    if "i < unat n" "i \<le> length bs" for i
  proof -
    have st: "mmu ?m (task_dir s t) (a + of_nat i) = Some (pa i)" "(a + of_nat i) AND 0xfffff000 \<noteq> q"
      "pa i \<in> kused s" "\<not> space_page ?m v (pa i AND 0xfffff000)"
      using str that unfolding task_string_def v_def by blast+
    show "mmu m2 ?dir (a + of_nat i) = Some (pa i)" using mmu_a [OF st(2)] st(1) by simp
    have "m2 (pa i) = ?m1 (pa i)" by (rule f2(4)) (use st(4) in \<open>simp add: a1(6)\<close>)
    then show "m2 (pa i) = ?m (pa i)" using keep [OF st(3)] by simp
    show "pa i \<in> kused s" by (rule st(3))
  qed
  have bs: "fetched (\<lambda>i. mem s (pa i)) (unat n) bs" using str by (simp add: task_string_def)
  have bs2: "fetched (\<lambda>i. m2 (pa i)) (unat n) bs"
    using bs src(2) fetchedD(3) [OF bs] by (simp add: fetched_def)
  have tgt: "\<forall>i<unat n. mmu m2 ?dir (q + of_nat i) = Some (q + of_nat i)
      \<and> \<not> space_page m2 v ((q + of_nat i) AND 0xfffff000)"
    using mmu_q fresh [OF wq] sp unfolding f2(2) a1(6) by blast
  have ap: "\<forall>i<unat n. \<forall>j<unat n. j \<le> length bs \<longrightarrow> q + of_nat i \<noteq> pa j"
    using src(3) fresh [OF wq] by metis
  have sr: "\<forall>i<unat n. i \<le> length bs \<longrightarrow> mmu m2 ?dir (a + of_nat i) = Some (pa i)" using src(1) by blast
  show "\<exists>m3. strncpy_virt_loop m2 ?dir q a n 0 = Some (m3, of_nat (length bs))
      \<and> moved m2 m3 q (\<lambda>i. bs ! i) 0 (length bs)"
    by (rule strncpy_virt_moves [OF s2(1) refl tgt sr bs2 ap]) blast
qed

text \<open>The second half: the old mapping comes back and the page is copied out.\<close>

lemma shared_to_kernel:
  fixes s :: "'a taskst_scheme"
  assumes wf: "task_space_wf s t" and n: "0 < n" "n \<le> 4096"
    and k: "kzalloc s n = Some (q, s1)" and q: "q \<noteq> 0"
    and pde: "pde_present (mem s) (task_space (mem s) t) q"
    and str: "task_string s t a (unat n) q pa bs"
    and buf: "\<forall>i<unat n. \<not> within q n (b + of_nat i)"
  defines "v \<equiv> task_space (mem s) t"
  defines "m2 \<equiv> snd (map_vaddr_to_val (mem s1) (vspace_pd (mem s1) v) q (q OR 7))"
  shows "\<exists>m3 m5. strncpy_virt_loop m2 (page_directory_entries m2 (vspace_pd m2 v)) q a n 0 = Some (m3, of_nat (length bs))
    \<and> strncpy (snd (map_vaddr_to_val m3 (vspace_pd m3 v) q (pte (mem s1) (vspace_pd (mem s1) v) q))) b q n
        = (m5, of_nat (length bs))
    \<and> bytes_at m5 b (length bs) = bs \<and> (\<forall>x. (\<exists>i<length bs. x = b + of_nat i) \<or> within q n x \<or> m5 x = mem s x)
    \<and> (\<forall>x. within q n x \<or> space_page (mem s) v (x AND 0xfffff000) \<or> m3 x = mem s x)"
proof -
  note h1 = string_to_shared [OF wf n k q pde str, folded v_def, folded m2_def]
  let ?m1 = "mem s1"
  let ?pd = "vspace_pd ?m1 v"
  have inv: "kinv s" using wf by (simp add: task_space_wf_def Let_def)
  have al: "q mod 4096 = 0" by (rule kz.alloc_aligned [OF inv k])
  have len: "length bs \<le> unat n" using str by (simp add: task_string_def fetched_def)
  obtain m3 where m3: "strncpy_virt_loop m2 (page_directory_entries m2 (vspace_pd m2 v)) q a n 0 = Some (m3, of_nat (length bs))"
    "moved m2 m3 q (\<lambda>i. bs ! i) 0 (length bs)" using h1(5) by blast
  note mv = movedD [OF m3(2)]
  note s2 = map_vaddr_spec [OF h1(2) al, where val = "q OR 7", folded m2_def]
    and f2 = map_vaddr_space [OF h1(2) al, where val = "q OR 7", folded m2_def]
  let ?i = "unat q div 0x400000" and ?k = "unat q div 4096 mod 1024"
  let ?slot = "pt_of ?m1 ?pd ?i + 4 * of_nat ?k"
  have m2: "m2 = store32 ?m1 ?slot (q OR 7)" by (simp add: m2_def map_vaddr_eq [OF al])
  have "\<forall>x. space_page m2 v (x AND 0xfffff000) \<longrightarrow> m3 x = m2 x"
    using h1(4) mv(2) [OF len] unfolding f2(2) by blast
  note a3 = vspace_agree [OF s2(1) this]
  have pt3: "pt_of m3 (vspace_pd m3 v) ?i = pt_of ?m1 ?pd ?i"
    using a3(3) [OF va_indices(1)] s2(5) [OF va_indices(1)] by (simp only: a3(1) s2(2))
  let ?m4 = "snd (map_vaddr_to_val m3 (vspace_pd m3 v) q (pte ?m1 ?pd q))"
  have m4: "?m4 = store32 m3 ?slot (load32 ?m1 ?slot)"
    by (simp add: map_vaddr_eq [OF al] pt3 pte_def)
  have slot: "space_page ?m1 v (x AND 0xfffff000)" if "within ?slot 4 x" for x
  proof -
    have "pt_of ?m1 ?pd ?i mod 4096 = 0" by (simp add: pt_of_def)
    from within_slot4 [OF this va_indices(2), of q x] that
    show ?thesis using va_indices(1) [of q] by (auto simp: space_page_def)
  qed
  have in_q: "?m4 x = m3 x" if "within q n x" for x
    using slot h1(4) that unfolding m4 by (metis store32_other)
  have out_q: "?m4 x = ?m1 x" if "\<not> within q n x" for x
  proof (cases "within ?slot 4 x")
    case True
    then show ?thesis unfolding m4 by (rule store32_load32)
  next
    case False
    then show ?thesis using mv(2) [OF len that] unfolding m4 m2 by (simp add: store32_other)
  qed
  have wq: "within q n (q + of_nat i)" if "i < unat n" for i
    using of_nat_less_word(1) [OF that] by (simp add: within_def)
  have z: "?m4 (q + of_nat (length bs)) = 0" if l: "length bs < unat n"
  proof -
    have l32: "length bs < 2 ^ 32" using l unsigned_less [of n, where ?'a = nat] by simp
    have "\<forall>i<length bs. q + of_nat (length bs) \<noteq> q + of_nat i"
      using of_nat_u32_eq_iff [OF l32] l32 by force
    then have "m3 (q + of_nat (length bs)) = m2 (q + of_nat (length bs))" by (rule mv(3))
    also have "\<dots> = ?m1 (q + of_nat (length bs))"
      by (rule f2(4)) (use h1(4) wq [OF l] in blast)
    also have "\<dots> = 0" by (rule kz.alloc_zeroed [OF inv k q wq [OF l]])
    finally show ?thesis using in_q [OF wq [OF l]] by simp
  qed
  have f4: "fetched (\<lambda>i. ?m4 (q + of_nat i)) (unat n) bs"
    using z len mv(1) in_q [OF wq] str by (simp add: fetched_def task_string_def)
  have ap: "\<forall>i<length bs. \<forall>j<unat n. b + of_nat i \<noteq> q + of_nat j"
    using buf len wq by (metis less_le_trans)
  obtain m5 where m5: "strncpy ?m4 b q n = (m5, of_nat (length bs))" "moved ?m4 m5 b (\<lambda>i. bs ! i) 0 (length bs)"
    by (rule strncpy_moves [OF f4 ap]) (rule that)
  have "bytes_at m5 b (length bs) = bs"
    using movedD(1) [OF m5(2)] by (intro nth_equalityI) simp_all
  moreover have "(\<exists>i<length bs. x = b + of_nat i) \<or> within q n x \<or> m5 x = mem s x" for x
    using movedD(3) [OF m5(2), of x] out_q [of x] kz.alloc_frame [OF inv k, of x] by metis
  moreover have "within q n x \<or> space_page (mem s) v (x AND 0xfffff000) \<or> m3 x = mem s x" for x
    using mv(2) [OF len, of x] f2(4) [of x] h1(6) kz.alloc_frame [OF inv k, of x]
    by (cases "within q n x") auto
  ultimately show ?thesis using m3(1) m5(1) by blast
qed

section \<open>A task with a fresh space\<close>

text \<open>What \<open>init_task\<close> does first: a space of identity mappings, stored in the task.\<close>

lemma fresh_task_space:
  fixes s0 :: "'a taskst_scheme" and f :: u8
  assumes "kinv s0" and "1027 \<le> kavail s0" and "bit f 0" and "\<forall>x. within t 4 x \<longrightarrow> x \<in> kused s0"
  obtains v s where "task_space (mem s) t = v" and "task_space_wf s t"
    and "kavail s0 = kavail s + 1027" and "kused s0 \<subseteq> kused s" and "rest s = rest s0"
    and "\<And>q. space_page (mem s) v q \<Longrightarrow> q \<notin> kused s0"
    and "\<And>x. x \<in> kused s0 \<Longrightarrow> \<not> within t 4 x \<Longrightarrow> mem s x = mem s0 x"
    and "\<And>va. pte (mem s) (vspace_pd (mem s) v) va = (va AND 0xfffff000) OR ucast f"
    and "\<And>va. mmu (mem s) (task_dir s t) va = Some va"
    and "\<And>need va. ucast f AND need = need \<Longrightarrow> user_addr (mem s) (task_dir s t) need va = Some va"
proof -
  from create_space_facts [OF assms(1-3)] obtain v s' where
    c: "create_virtual_address_space s0 f = Some (v, s')" "v \<noteq> 0" "kinv s'" "vspace_ok (mem s') v"
    "kavail s0 = kavail s' + 1027"
    "\<And>va. pte (mem s') (vspace_pd (mem s') v) va = (va AND 0xfffff000) OR ucast f"
    "\<And>va. mmu (mem s') (cr3 (load_page_directory s' (vspace_pd (mem s') v))) va = Some va"
    "\<And>x. x \<notin> kused s0 \<or> mem s' x = mem s0 x" "kused s0 \<subseteq> kused s'"
    "\<And>q. space_page (mem s') v q \<Longrightarrow> q \<in> kused s' \<and> q \<notin> kused s0"
    "\<And>need va. ucast f AND need = need \<Longrightarrow>
         user_addr (mem s') (page_directory_entries (mem s') (vspace_pd (mem s') v)) need va = Some va" by blast
  let ?m = "store32 (mem s') t v"
  let ?s = "s'\<lparr>mem := ?m\<rparr>"
  have ag_all: "\<forall>x. space_page (mem s') v (x AND 0xfffff000) \<longrightarrow> ?m x = mem s' x"
    using c(10) kused_page [OF assms(1)] assms(4) store32_other by metis
  note ag = vspace_agree [OF c(4) this] and mm = mmu_agree [OF c(4) this]
  have ts: "task_space ?m t = v" by (simp add: task_space_def)
  show ?thesis
  proof (rule that [of ?s v])
    show "task_space (mem ?s) t = v" using ts by simp
    show "task_space_wf ?s t"
      using c(3,9,10) ag(4) assms(4) by (auto simp: task_space_wf_def Let_def ts ag(6))
    show "kavail s0 = kavail ?s + 1027" "kused s0 \<subseteq> kused ?s" using c(5,9) by simp_all
    show "rest ?s = rest s0" using create_vspace_rest [OF c(1)] by simp
    show "q \<notin> kused s0" if "space_page (mem ?s) v q" for q using that c(10) by (simp add: ag(6))
    show "mem ?s x = mem s0 x" if "x \<in> kused s0" "\<not> within t 4 x" for x
      using c(8) [of x] that by (simp add: store32_other)
    show "pte (mem ?s) (vspace_pd (mem ?s) v) va = (va AND 0xfffff000) OR ucast f" for va
      using c(6) ag(1,5) by simp
    show "mmu (mem ?s) (task_dir ?s t) va = Some va" for va
      using c(7) [of va] mm(1) [of va]
      by (simp add: task_dir_def ts ag(1,2) load_page_directory_def load_pd_to_cr3_def)
    show "user_addr (mem ?s) (task_dir ?s t) need va = Some va" if "ucast f AND need = need" for need va
      using c(11) [OF that] user_addr_agree [OF c(4) ag_all] by (simp add: task_dir_def ts ag(1,2))
  qed
qed

section \<open>Properties\<close>

text \<open>The address of the directory that the kernel runs on, and its cells out of the way.\<close>

definition kernel_dir :: "'a taskst_scheme \<Rightarrow> u32" where
  "kernel_dir s = page_directory_entries (mem s) (vspace_pd (mem s) (kernel_space s))"

definition kernel_dir_safe :: "'a taskst_scheme \<Rightarrow> u32 \<Rightarrow> bool" where
  "kernel_dir_safe s v \<longleftrightarrow> (\<forall>x. within (kernel_space s) 4 x \<or> within (vspace_pd (mem s) (kernel_space s)) 4 x
     \<longrightarrow> x \<in> kused s \<and> \<not> space_page (mem s) v (x AND 0xfffff000))"

text \<open>The copy as a whole, with the fields of the state it changes.\<close>

lemma copy_from_task_spec:
  assumes "task_space_wf s t" and "0 < n" and "n \<le> 4096"
    and "kzalloc s n = Some (q, s1)" and "q \<noteq> 0"
    and "pde_present (mem s) (task_space (mem s) t) q"
    and "task_string s t a (unat n) q pa bs"
    and "\<forall>i<unat n. \<not> within q n (b + of_nat i)"
    and "kernel_dir_safe s (task_space (mem s) t)"
  shows "\<exists>s'. copy_data_from_task_to_kernel s t a b n = Some (int (length bs), s')
    \<and> bytes_at (mem s') b (length bs) = bs \<and> kheap s' = kheap s
    \<and> (\<forall>x. (\<exists>i<length bs. x = b + of_nat i) \<or> within q n x \<or> mem s' x = mem s x) \<and> cr3 s' = kernel_dir s
    \<and> s' = s\<lparr>mem := mem s', cr3 := cr3 s', data_segment := data_segment s',
         current_page_directory := current_page_directory s'\<rparr>"
proof -
  let ?v = "task_space (mem s) t"
  note h1 = string_to_shared [OF assms(1-7)]
  have inv: "kinv s" using assms(1) by (simp add: task_space_wf_def Let_def)
  have al: "q mod 4096 = 0" by (rule kz.alloc_aligned [OF inv assms(4)])
  define m2 where "m2 = snd (map_vaddr_to_val (mem s1) (vspace_pd (mem s1) ?v) q (q OR 7))"
  obtain m3 m5 where m: "strncpy_virt_loop m2 (page_directory_entries m2 (vspace_pd m2 ?v)) q a n 0 = Some (m3, of_nat (length bs))"
    "strncpy (snd (map_vaddr_to_val m3 (vspace_pd m3 ?v) q (pte (mem s1) (vspace_pd (mem s1) ?v) q))) b q n
        = (m5, of_nat (length bs))"
    "bytes_at m5 b (length bs) = bs" "\<forall>x. (\<exists>i<length bs. x = b + of_nat i) \<or> within q n x \<or> m5 x = mem s x"
    "\<forall>x. within q n x \<or> space_page (mem s) ?v (x AND 0xfffff000) \<or> m3 x = mem s x"
    using shared_to_kernel [OF assms(1-8)] unfolding m2_def [symmetric] by blast
  have len: "length bs \<le> unat n" using assms(7) by (simp add: task_string_def fetched_def)
  have n: "unat n \<le> 4096" using assms(3) by (simp add: word_le_nat_alt)
  have sint: "sint (of_nat (length bs) :: u32) = int (length bs)"
  proof -
    have "signed_take_bit 31 (int (length bs)) = int (length bs)"
      using len n by (intro signed_take_bit_int_eq_self) simp_all
    then show ?thesis using sint_sbintrunc' [of "int (length bs)", where ?'a = 32] by simp
  qed
  have kern: "m3 x = mem s x" if "within (kernel_space s) 4 x \<or> within (vspace_pd (mem s) (kernel_space s)) 4 x" for x
    using m(5) assms(9) that kz.alloc_fresh [OF inv assms(4,5), of x] unfolding kernel_dir_safe_def by blast
  have pd: "vspace_pd m3 (kernel_space s) = vspace_pd (mem s) (kernel_space s)"
    unfolding vspace_pd_def by (rule load32_cong) (rule kern, simp)
  have dir: "page_directory_entries m3 (vspace_pd (mem s) (kernel_space s)) = kernel_dir s"
    unfolding page_directory_entries_def kernel_dir_def by (rule load32_cong) (rule kern, simp)
  have ks: "kernel_space s1 = kernel_space s" by (rule rest_eqD(8) [OF kzalloc_rest [OF assms(4)]])
  have "free (kheap s1) q = kheap s"
    using inv kzalloc_kheap [OF assms(4)] assms(5) n by (rule free_after_small_malloc)
  moreover have "s1\<lparr>data_segment := ds, cr3 := c, current_page_directory := pd, mem := m5, kheap := kheap s\<rparr>
      = s\<lparr>mem := m5, cr3 := c, data_segment := ds, current_page_directory := pd\<rparr>" for ds c pd
    by (subst kzalloc_frame [OF assms(4)]) simp
  moreover have "\<not> 4096 < n" using assms(3) by simp
  ultimately show ?thesis
    using assms(4,5) m(1,2,3,4) h1(1) pd dir
    by (simp add: copy_data_from_task_to_kernel_def Let_def virt_to_phy_eq [OF al] m2_def [symmetric]
        load_page_directory_def load_pd_to_cr3_def change_to_kernel_page_directory_def ks
        set_all_segments_to_kernel_data_segment_def kfree_def sint)
qed

text \<open>C12: \<open>copy_data_from_task_to_kernel\<close> delivers the string of the task. It answers the number of
  bytes before the terminator, at most the size, and the kernel buffer holds these bytes. The heap is
  as before, and memory, the page tables included, is as before outside these bytes of the buffer and the block that
  served as the shared page; the processor is back on the directory of the kernel.\<close>

theorem copy_from_task_delivers:
  assumes "task_space_wf s t" and "0 < n" and "n \<le> 4096"
    and "kzalloc s n = Some (q, s1)" and "q \<noteq> 0"
    and "pde_present (mem s) (task_space (mem s) t) q"
    and "task_string s t a (unat n) q pa bs"
    and "\<forall>i<unat n. \<not> within q n (b + of_nat i)"
    and "kernel_dir_safe s (task_space (mem s) t)"
  shows "\<exists>s'. copy_data_from_task_to_kernel s t a b n = Some (int (length bs), s')
    \<and> bytes_at (mem s') b (length bs) = bs \<and> kheap s' = kheap s
    \<and> (\<forall>x. (\<exists>i<length bs. x = b + of_nat i) \<or> within q n x \<or> mem s' x = mem s x) \<and> cr3 s' = kernel_dir s"
  using copy_from_task_spec [OF assms] by blast

text \<open>In use: the string \<open>hi\<close> of a task at \<open>0x1000000\<close>, the two objects of the kernel's
  directory, and the task at \<open>0x1003000\<close>.\<close>

definition demo_copy :: taskst where
  "demo_copy = \<lparr>mem = store32 (store32 (\<lambda>_. 0) 0x1000000 0x6968) 0x1001000 0x1002000,
     kheap = four_blocks,
     VGA_BASE = 0xB8000, cursor_x = 0, cursor_y = 0, device = (\<lambda>h p. 0), io_log = [], cr3 = 0,
     data_segment = 0x10, current_page_directory = 0, kernel_space = 0x1001000, local_addr = (\<lambda>l. 0x1FE000),
     fs_list = [], fd_list = [], disks = [], disks_already_initialised = 0, fat16_object = 0,
     cur_task = 0, task_list_head = 0, task_list_tail = 0\<rparr>"

lemma demo_string_ready:
  fixes d :: "'a taskst_scheme"
  assumes kh: "kheap d = four_blocks" and ks: "kernel_space d = 0x1001000"
    and hi: "mem d 0x1000000 = 0x68" "mem d 0x1000001 = 0x69" "mem d 0x1000002 = 0"
    and kd: "load32 (mem d) 0x1001000 = 0x1002000" and n: "2 < n" "n \<le> 4096"
  obtains s q s1 where "task_space_wf s 0x1003000" and "kzalloc s n = Some (q, s1)" and "q \<noteq> 0"
    and "pde_present (mem s) (task_space (mem s) 0x1003000) q"
    and "task_string s 0x1003000 0x1000000 (unat n) q (\<lambda>i. 0x1000000 + of_nat i) [0x68, 0x69]"
    and "kernel_dir_safe s (task_space (mem s) 0x1003000)"
    and "\<forall>x. within 0x1000000 0x4000 x \<longrightarrow> \<not> within q n x"
    and "\<forall>x. within 0x1000000 0x4000 x \<and> \<not> within 0x1003000 4 x \<longrightarrow> mem s x = mem d x"
    and "\<forall>va. mmu (mem s) (task_dir s 0x1003000) va = Some va" and "rest s = rest d"
    and "\<forall>x. within q n x \<longrightarrow> x \<in> kused s1" and "kinv s1"
proof -
  let ?t = "0x1003000 :: u32" and ?a = "0x1000000 :: u32"
  have in4: "x \<in> kused d" if "within ?a 0x4000 x" for x
    using that unfolding kh four_blocks(3) .
  have sub: "within ?a 0x4000 x" if "within b k x" "?a \<le> b" "unat b + unat k \<le> 0x1004000" for b k x
    using four_blocks_used [OF that] unfolding four_blocks(3) .
  have tk: "\<forall>x. within ?t 4 x \<longrightarrow> x \<in> kused d" using in4 sub [of ?t 4] by simp
  have pre: "kinv d" "1027 \<le> kavail d" "bit (5 :: u8) 0" by (simp_all add: kh four_blocks)
  obtain v s where f: "task_space (mem s) ?t = v" "task_space_wf s ?t" "kavail d = kavail s + 1027"
    "kused d \<subseteq> kused s" "rest s = rest d" "\<And>q. space_page (mem s) v q \<Longrightarrow> q \<notin> kused d"
    "\<And>x. x \<in> kused d \<Longrightarrow> \<not> within ?t 4 x \<Longrightarrow> mem s x = mem d x"
    "\<And>va. mmu (mem s) (task_dir s ?t) va = Some va"
    by (rule fresh_task_space [OF pre tk]) (rule that)
  have inv: "kinv s" using f(2) by (simp add: task_space_wf_def Let_def)
  have nsp: "\<not> space_page (mem s) v (x AND 0xfffff000)" if "x \<in> kused d" for x
    using f(6) kused_page [OF pre(1), of x] that by blast
  have n0: "0 < n" using n(1) by (simp add: word_less_nat_alt)
  have "0 < kavail s" using f(3) by (simp add: kh four_blocks)
  from pages.alloc_pageE [OF inv this n0 n(2)] obtain q s1 where k: "kzalloc s n = Some (q, s1)" "q \<noteq> 0"
    "kinv s1" "q \<notin> kused s" "\<forall>x. within q n x \<longrightarrow> x \<notin> kused s \<and> x \<in> kused s1" by metis
  have sp: "pde_present (mem s) (task_space (mem s) ?t) q"
  proof (rule ccontr)
    assume "\<not> ?thesis"
    then have "mmu (mem s) (task_dir s ?t) q = None"
      using mmu_pte [of "mem s" "task_space (mem s) ?t" q] f(2) by (simp add: task_dir_def task_space_wf_def Let_def)
    then show False using f(8) by simp
  qed
  have low: "\<forall>x. within ?a 0x4000 x \<and> \<not> within ?t 4 x \<longrightarrow> mem s x = mem d x" using f(7) in4 by blast
  have three: "within ?a 0x4000 (?a + of_nat i) \<and> mem s (?a + of_nat i) = [0x68, 0x69, 0] ! i" if "i \<le> 2" for i
  proof -
    have "i = 0 \<or> i = 1 \<or> i = 2" using that by arith
    then show ?thesis
      using low [rule_format, of "0x1000000"] low [rule_format, of "0x1000001"] low [rule_format, of "0x1000002"] hi
      by (auto simp: within_def)
  qed
  have "2 < unat n" using n(1) by (simp add: word_less_nat_alt)
  then have "fetched (\<lambda>i. mem s (?a + of_nat i)) (unat n) [0x68, 0x69]"
    using three [of 0] three [of 1] three [of 2] by (auto simp: fetched_def less_Suc_eq)
  moreover have "(?a + of_nat i) AND 0xfffff000 \<noteq> q \<and> ?a + of_nat i \<in> kused s
      \<and> \<not> space_page (mem s) v ((?a + of_nat i) AND 0xfffff000)" if "i \<le> 2" for i
    using in4 three [OF that] nsp f(4) k(4) kused_page [OF inv, of "?a + of_nat i"] by blast
  ultimately have str: "task_string s ?t ?a (unat n) q (\<lambda>i. ?a + of_nat i) [0x68, 0x69]"
    using f(8) by (simp add: task_string_def f(1) numeral_2_eq_2)
  have ksp: "kernel_space s = 0x1001000" using rest_eqD(8) [OF f(5)] ks by simp
  have "vspace_pd (mem s) 0x1001000 = load32 (mem d) 0x1001000"
    unfolding vspace_pd_def
  proof (rule load32_cong)
    fix x assume x: "within 0x1001000 4 x"
    have "\<not> within ?t 4 x" using apart_below [of "0x1001000" 4 ?t 4] x by (auto simp: apart_def)
    then show "mem s x = mem d x" using low sub [OF x] by simp
  qed
  then have "kernel_dir_safe s (task_space (mem s) ?t)"
    using sub [of "0x1001000" 4] sub [of "0x1002000" 4] in4 f(4) nsp
    by (auto simp: kernel_dir_safe_def ksp kd f(1))
  moreover have "\<forall>x. within ?a 0x4000 x \<longrightarrow> \<not> within q n x" using in4 f(4) k(5) by blast
  ultimately show thesis
    using that [OF f(2) k(1,2) sp str _ _ low _ f(5) _ k(3)] f(8) k(5) by blast
qed

theorem copy_from_task_delivers_witness:
  "\<exists>(s :: taskst) s'. copy_data_from_task_to_kernel s 0x1003000 0x1000000 0x1002100 16 = Some (2, s')
     \<and> bytes_at (mem s') 0x1002100 2 = [0x68, 0x69]"
proof -
  have d: "kheap demo_copy = four_blocks" "kernel_space demo_copy = 0x1001000" "mem demo_copy 0x1000000 = 0x68"
    "mem demo_copy 0x1000001 = 0x69" "mem demo_copy 0x1000002 = 0" "load32 (mem demo_copy) 0x1001000 = 0x1002000"
    "(2 :: u32) < 16" "(16 :: u32) \<le> 4096"
    by (simp_all add: demo_copy_def) (simp_all add: store32_def)
  obtain s q and s1 :: taskst where s: "task_space_wf s 0x1003000" "kzalloc s 16 = Some (q, s1)" "q \<noteq> 0"
    "pde_present (mem s) (task_space (mem s) 0x1003000) q"
    "task_string s 0x1003000 0x1000000 (unat (16 :: u32)) q (\<lambda>i. 0x1000000 + of_nat i) [0x68, 0x69]"
    "kernel_dir_safe s (task_space (mem s) 0x1003000)" "\<forall>x. within 0x1000000 0x4000 x \<longrightarrow> \<not> within q 16 x"
    by (rule demo_string_ready [OF d]) (rule that, assumption+)
  have buf: "\<forall>i<unat (16 :: u32). \<not> within q 16 (0x1002100 + of_nat i)"
  proof (intro allI impI)
    fix i assume "i < unat (16 :: u32)"
    from of_nat_less_word(1) [OF this] have "within 0x1002100 16 (0x1002100 + of_nat i)"
      by (simp add: within_def)
    from four_blocks_used [OF this] show "\<not> within q 16 (0x1002100 + of_nat i)"
      unfolding four_blocks(3) using s(7) by simp
  qed
  from copy_from_task_delivers [OF s(1) _ _ s(2-5) buf s(6)]
  obtain s' where "copy_data_from_task_to_kernel s 0x1003000 0x1000000 0x1002100 16 = Some (int (length [0x68, 0x69 :: u8]), s')"
    "bytes_at (mem s') 0x1002100 (length [0x68, 0x69 :: u8]) = [0x68, 0x69]" by auto
  then have "copy_data_from_task_to_kernel s 0x1003000 0x1000000 0x1002100 16 = Some (2, s')"
    "bytes_at (mem s') 0x1002100 2 = [0x68, 0x69]"
    by (simp_all add: numeral_2_eq_2)
  then show ?thesis by metis
qed

end
