(* ===== verification/User_Print.thy ===== *)
theory User_Print
  imports User_Lib Task_Copy
begin

text \<open>
  A user program prints: from \<open>printf\<close> through the stub, the gate, the system call and the stack of
  the task to the cells of the console.
\<close>

section \<open>A user program that may trap\<close>

text \<open>The console as it shows: the cursor and the cells of the window.\<close>

definition same_console :: "'a vga_scheme \<Rightarrow> 'b vga_scheme \<Rightarrow> bool" where
  "same_console s t \<longleftrightarrow> cursor_x s = cursor_x t \<and> cursor_y s = cursor_y t \<and> VGA_BASE s = VGA_BASE t
     \<and> (\<forall>a. within (VGA_BASE s) 40960 a \<longrightarrow> mem s a = mem t a)"

text \<open>What a trap that only prints may write: the saved registers of the task, the window of the
  console, and the frames \<open>pa\<close> of the \<open>n\<close> bytes of stack from \<open>lo\<close> on that hold the arguments.\<close>

definition trap_area :: "'a taskst_scheme \<Rightarrow> nat \<Rightarrow> (nat \<Rightarrow> u32) \<Rightarrow> u32 \<Rightarrow> bool" where
  "trap_area s n pa x \<longleftrightarrow> within (cur_task s + 4) 48 x \<or> within (VGA_BASE s) 40960 x \<or> x \<in> pa ` {..<n}"

text \<open>\<open>user_wf\<close>: the processor runs on the well-formed space of the current task; its tables and the
  word that points to it are outside the trap area, whose three parts do not meet; the stack bytes are
  user-writable at distinct frames, and every trap finds its argument among them.\<close>

definition user_wf :: "'a kernst_scheme usr \<Rightarrow> 'a kernst_scheme \<Rightarrow> u32 \<Rightarrow> nat \<Rightarrow> (nat \<Rightarrow> u32) \<Rightarrow> bool" where
  "user_wf w s lo n pa \<longleftrightarrow>
     (let t = cur_task s; v = task_space (mem s) t
      in t \<noteq> 0 \<and> vspace_ok (mem s) v \<and> cr3 s = task_dir s t \<and> x80_functions s = syscall_table \<and> cursor_x s < 80
       \<and> (\<forall>x. trap_area s n pa x \<longrightarrow> \<not> within t 4 x \<and> \<not> space_page (mem s) v (x AND 0xfffff000))
       \<and> (\<forall>x. within (t + 4) 48 x \<longrightarrow> \<not> within (VGA_BASE s) 40960 x)
       \<and> (\<forall>i<n. user_addr (mem s) (cr3 s) USER_WRITE (lo + of_nat i) = Some (pa i)
            \<and> \<not> within (t + 4) 48 (pa i) \<and> \<not> within (VGA_BASE s) 40960 (pa i) \<and> (\<forall>j<n. pa i = pa j \<longrightarrow> i = j))
       \<and> (\<forall>s'. \<exists>k. fr_esp (regs w s') = lo + of_nat k \<and> k + 4 \<le> n))"

lemma user_wfD:
  assumes "user_wf w s lo n pa"
  shows "cur_task s \<noteq> 0" and "vspace_ok (mem s) (task_space (mem s) (cur_task s))"
    and "cr3 s = task_dir s (cur_task s)" and "x80_functions s = syscall_table" and "cursor_x s < 80"
    and "trap_area s n pa x \<Longrightarrow> \<not> within (cur_task s) 4 x"
    and "trap_area s n pa x \<Longrightarrow> \<not> space_page (mem s) (task_space (mem s) (cur_task s)) (x AND 0xfffff000)"
    and "within (cur_task s + 4) 48 x \<Longrightarrow> \<not> within (VGA_BASE s) 40960 x"
    and "i < n \<Longrightarrow> user_addr (mem s) (cr3 s) USER_WRITE (lo + of_nat i) = Some (pa i)"
    and "i < n \<Longrightarrow> \<not> within (cur_task s + 4) 48 (pa i)" and "i < n \<Longrightarrow> \<not> within (VGA_BASE s) 40960 (pa i)"
    and "i < n \<Longrightarrow> j < n \<Longrightarrow> pa i = pa j \<longleftrightarrow> i = j"
    and "\<exists>k. fr_esp (regs w s') = lo + of_nat k \<and> k + 4 \<le> n"
  using assms unfolding user_wf_def Let_def by (blast+)

text \<open>A memory that differs in the trap area only holds the same space, and the invariant survives.\<close>

lemma user_space_keep:
  assumes wf: "user_wf w s lo n pa" and same: "\<forall>x. trap_area s n pa x \<or> m x = mem s x"
  defines "v \<equiv> task_space (mem s) (cur_task s)"
  shows "task_space m (cur_task s) = v" and "page_directory_entries m (vspace_pd m v) = cr3 s"
    and "vspace_ok m v" and "space_page m v = space_page (mem s) v"
    and "user_addr m (cr3 s) need va = user_addr (mem s) (cr3 s) need va"
proof -
  note d = user_wfD [OF wf, folded v_def]
  show "task_space m (cur_task s) = v"
    unfolding task_space_def v_def by (rule load32_cong) (use same d(6) in blast)
  have ag: "\<forall>x. space_page (mem s) v (x AND 0xfffff000) \<longrightarrow> m x = mem s x"
    using same d(7) by blast
  note a = vspace_agree [OF d(2) ag]
  have c: "cr3 s = page_directory_entries (mem s) (vspace_pd (mem s) v)" by (simp add: d(3) task_dir_def v_def)
  show "page_directory_entries m (vspace_pd m v) = cr3 s" by (simp add: a(1,2) c)
  show "vspace_ok m v" "space_page m v = space_page (mem s) v" by (rule a(4), rule a(6))
  show "user_addr m (cr3 s) need va = user_addr (mem s) (cr3 s) need va"
    unfolding c by (rule user_addr_agree [OF d(2) ag])
qed

lemma user_wf_keep:
  assumes wf: "user_wf w s lo n pa" and same: "\<forall>x. trap_area s n pa x \<or> mem s' x = mem s x"
    and eq: "cur_task s' = cur_task s" "VGA_BASE s' = VGA_BASE s" "x80_functions s' = x80_functions s"
      "cr3 s' = cr3 s"
    and cur: "cursor_x s' < 80"
  shows "user_wf w s' lo n pa"
proof -
  note k = user_space_keep [OF wf same]
  have dir: "cr3 s = task_dir s' (cur_task s)" by (simp add: task_dir_def k(1,2))
  have ta: "trap_area s' n pa = trap_area s n pa" by (simp add: trap_area_def fun_eq_iff eq)
  show ?thesis
    unfolding user_wf_def Let_def eq(1,2,4) k(1,4,5) ta
    using wf [unfolded user_wf_def Let_def] k(3) dir cur eq(3) by (elim conjE; intro conjI) (assumption | simp)+
qed

text \<open>The argument lands on the stack, where the kernel will look for it.\<close>

lemma push_arg_spec:
  fixes s :: "'a kernst_scheme"
  assumes wf: "user_wf w s lo n pa"
  obtains k m where "fr_esp (regs w s) = lo + of_nat k" and "k + 4 \<le> n"
    and "user_store32 (mem s) (cr3 s) (fr_esp (regs w s)) a = Some m" and "\<And>x. x \<notin> pa ` {..<n} \<Longrightarrow> m x = mem s x"
    and "m (pa k) = ucast a" and "m (pa (k + 1)) = ucast (drop_bit 8 a)"
    and "m (pa (k + 2)) = ucast (drop_bit 16 a)" and "m (pa (k + 3)) = ucast (drop_bit 24 a)"
proof -
  note d = user_wfD [OF wf]
  obtain k where k: "fr_esp (regs w s) = lo + of_nat k" "k + 4 \<le> n" using d(13) [of s] by blast
  have st: "user_store8 m (cr3 s) (lo + of_nat (k + j)) v = Some (m(pa (k + j) := v))"
    if "j < 4" "\<And>x. x \<notin> pa ` {..<n} \<Longrightarrow> m x = mem s x" for j m v
  proof -
    have "user_addr m (cr3 s) USER_WRITE (lo + of_nat (k + j)) = user_addr (mem s) (cr3 s) USER_WRITE (lo + of_nat (k + j))"
      using user_space_keep(5) [OF wf, of m] that(2) by (auto simp: trap_area_def)
    also have "\<dots> = Some (pa (k + j))" using that(1) k(2) by (intro d(9)) simp
    finally show ?thesis by (simp add: user_store8_def)
  qed
  let ?m1 = "(mem s)(pa k := ucast a)"
  let ?m2 = "?m1(pa (k + 1) := ucast (drop_bit 8 a))"
  let ?m3 = "?m2(pa (k + 2) := ucast (drop_bit 16 a))"
  let ?m4 = "?m3(pa (k + 3) := ucast (drop_bit 24 a))"
  have in_n: "pa k \<in> pa ` {..<n}" "pa (k + 1) \<in> pa ` {..<n}" "pa (k + 2) \<in> pa ` {..<n}" "pa (k + 3) \<in> pa ` {..<n}"
    using k(2) by auto
  have f: "?m1 x = mem s x" "?m2 x = mem s x" "?m3 x = mem s x" if "x \<notin> pa ` {..<n}" for x
    using that in_n by auto
  have off: "lo + of_nat k + 1 = lo + of_nat (k + 1)" "lo + of_nat k + 2 = lo + of_nat (k + 2)"
    "lo + of_nat k + 3 = lo + of_nat (k + 3)" by simp_all
  have 0: "user_store8 (mem s) (cr3 s) (lo + of_nat k) (ucast a) = Some ?m1"
    using st [of 0 "mem s"] by simp
  note 1 = st [of 1 ?m1, OF _ f(1)] and 2 = st [of 2 ?m2, OF _ f(2)] and 3 = st [of 3 ?m3, OF _ f(3)]
  have p: "user_store32 (mem s) (cr3 s) (fr_esp (regs w s)) a = Some ?m4"
    unfolding k(1) user_store32_def off 0 Option.bind.bind_lunit
    by (subst 1, simp, assumption, subst Option.bind.bind_lunit, subst 2, simp, assumption,
        subst Option.bind.bind_lunit, subst 3) simp_all
  show thesis
  proof (rule that [OF k p])
    show "?m4 x = mem s x" if "x \<notin> pa ` {..<n}" for x using that in_n by auto
    have ne: "pa i \<noteq> pa j" if "i \<noteq> j" "i < n" "j < n" for i j using d(12) that by blast
    show "?m4 (pa k) = ucast a" "?m4 (pa (k + 1)) = ucast (drop_bit 8 a)"
      "?m4 (pa (k + 2)) = ucast (drop_bit 16 a)" "?m4 (pa (k + 3)) = ucast (drop_bit 24 a)"
      using ne [of k "k + 1"] ne [of k "k + 2"] ne [of k "k + 3"] ne [of "k + 1" "k + 2"]
        ne [of "k + 1" "k + 3"] ne [of "k + 2" "k + 3"] k(2) by simp_all
  qed
qed

section \<open>Printing one character\<close>

lemma same_console_glyph:
  assumes "same_console s t"
  shows "same_console (kput_glyph s c col) (kput_glyph t c col)"
proof -
  have "store16 (mem s) a v x = store16 (mem t) a v x" if "mem s x = mem t x" for a v x
    using that by (simp add: store16_def)
  then show ?thesis using assms
    by (auto simp: same_console_def kput_glyph_def advance_cursor_def cursor_cell_def Let_def)
qed

lemma same_console_cursor:
  assumes "same_console s t"
  shows "same_console (s\<lparr>cursor_x := x\<rparr>) (t\<lparr>cursor_x := x\<rparr>)" "same_console (s\<lparr>cursor_y := y\<rparr>) (t\<lparr>cursor_y := y\<rparr>)"
  using assms by (simp_all add: same_console_def)

lemma same_consoleD: "same_console s t \<Longrightarrow> cursor_x s = cursor_x t \<and> cursor_y s = cursor_y t"
  by (simp add: same_console_def)

lemma same_console_back:
  "same_console s t \<Longrightarrow> same_console (s\<lparr>cursor_x := cursor_back (cursor_x s)\<rparr>) (t\<lparr>cursor_x := cursor_back (cursor_x t)\<rparr>)"
  "same_console s t \<Longrightarrow> same_console (if cursor_x s = 0 then s\<lparr>cursor_y := cursor_y s - 1\<rparr> else s)
     (if cursor_x t = 0 then t\<lparr>cursor_y := cursor_y t - 1\<rparr> else t)"
  by (simp_all add: same_console_def)

lemma same_console_putchar:
  assumes "same_console s t"
  shows "same_console (kputchar s c) (kputchar t c)"
proof -
  note xy = same_consoleD [OF assms]
  note 3 = same_console_back(1) [OF same_console_glyph [OF same_console_back(1) [OF same_console_back(2) [OF assms]],
      of "0x20" "0xf"]]
  have b: "same_console (kbackspace s) (kbackspace t)"
    unfolding kbackspace_def Let_def using 3 assms xy by simp
  have r: "same_console (kreturn s) (kreturn t)"
    unfolding kreturn_def using same_console_cursor(2) [OF same_console_cursor(1) [OF assms, of 0], of "cursor_y t + 1"] xy
    by (simp add: same_console_def)
  show ?thesis
    using b r same_console_glyph [OF assms] by (simp add: kputchar_def)
qed

text \<open>The page directory changes and the segment registers are all that a switch touches.\<close>

lemma switches:
  "change_to_kernel_page_directory s = s\<lparr>data_segment := 0x10,
     current_page_directory := vspace_pd (mem s) (kernel_space s),
     cr3 := page_directory_entries (mem s) (vspace_pd (mem s) (kernel_space s))\<rparr>"
  "change_to_given_task_page_directory t u = t\<lparr>data_segment := 0x23,
     current_page_directory := vspace_pd (mem t) (task_space (mem t) u),
     cr3 := page_directory_entries (mem t) (vspace_pd (mem t) (task_space (mem t) u))\<rparr>"
  "change_to_current_task_page_directory t = change_to_given_task_page_directory t (cur_task t)"
  by (simp_all add: change_to_kernel_page_directory_def change_to_given_task_page_directory_def
      change_to_current_task_page_directory_def load_page_directory_def load_pd_to_cr3_def
      set_all_segments_to_kernel_data_segment_def set_all_segments_to_user_data_segment_def Let_def)

lemma user_addr_load: "user_addr m dir USER_WRITE va = Some p \<Longrightarrow> vload8 m dir va = Some (m p)"
  using user_addr_mmu [of m dir 7 va p] by (simp add: vload8_def)

lemma syscall_numbers: "syscall_table ! 2 = Some X80_PUTCH" "length syscall_table = 256"
  by (simp_all add: syscall_table_def)

text \<open>The registers are saved outside the stack, so the argument is found where it was pushed.\<close>

lemma saved_argument:
  fixes s :: "'a kernst_scheme"
  assumes wf: "user_wf w s lo n pa"
  obtains m t where "user_store32 (mem s) (cr3 s) (fr_esp (regs w s)) a = Some m"
    and "current_task_save_state (change_to_kernel_page_directory (s\<lparr>mem := m\<rparr>)) (regs w s) = Some t"
    and "t = (change_to_kernel_page_directory (s\<lparr>mem := m\<rparr>))\<lparr>mem := mem t\<rparr>"
    and "\<forall>x. trap_area s n pa x \<or> mem t x = mem s x"
    and "\<forall>x. within (VGA_BASE s) 40960 x \<longrightarrow> mem t x = mem s x"
    and "vload32 (mem t) (cr3 s) (task_esp (mem t) (cur_task s)) = Some a"
proof -
  note d = user_wfD [OF wf]
  obtain k m where k: "fr_esp (regs w s) = lo + of_nat k" "k + 4 \<le> n"
    "user_store32 (mem s) (cr3 s) (fr_esp (regs w s)) a = Some m" "\<And>x. x \<notin> pa ` {..<n} \<Longrightarrow> m x = mem s x"
    "m (pa k) = ucast a" "m (pa (k + 1)) = ucast (drop_bit 8 a)"
    "m (pa (k + 2)) = ucast (drop_bit 16 a)" "m (pa (k + 3)) = ucast (drop_bit 24 a)"
    by (rule push_arg_spec [OF wf]) (rule that)
  let ?k = "change_to_kernel_page_directory (s\<lparr>mem := m\<rparr>)"
  have kt: "cur_task ?k = cur_task s" "mem ?k = m" by (simp_all add: switches)
  obtain t where t: "current_task_save_state ?k (regs w s) = Some t"
    using d(1) kt(1) by (simp add: current_task_save_state_def Let_def)
  note sm = save_state_mem [OF t, unfolded kt] and sf = save_state_frame [OF t, unfolded kt]
  have all: "\<forall>x. trap_area s n pa x \<or> mem t x = mem s x"
    unfolding trap_area_def using sf k(4) by metis
  have win: "\<forall>x. within (VGA_BASE s) 40960 x \<longrightarrow> mem t x = mem s x"
  proof (intro allI impI)
    fix x assume x: "within (VGA_BASE s) 40960 x"
    then have "\<not> within (cur_task s + 4) 48 x" "x \<notin> pa ` {..<n}" using d(8,11) by blast+
    then show "mem t x = mem s x" using sf k(4) by simp
  qed
  have esp: "task_esp (mem t) (cur_task s) = lo + of_nat k"
    using sm(3) k(1) by (simp add: enter_task_def frame_entry_def task_registers_def task_esp_def add.assoc)
  have ld: "vload8 (mem t) (cr3 s) (lo + of_nat (k + j)) = Some (m (pa (k + j)))" if "j < 4" for j
  proof -
    have j: "k + j < n" using that k(2) by simp
    have "user_addr (mem t) (cr3 s) USER_WRITE (lo + of_nat (k + j)) = Some (pa (k + j))"
      using user_space_keep(5) [OF wf all] d(9) [OF j] by simp
    then show ?thesis using user_addr_load sf [OF d(10) [OF j]] by simp
  qed
  have off: "lo + of_nat k + 1 = lo + of_nat (k + 1)" "lo + of_nat k + 2 = lo + of_nat (k + 2)"
    "lo + of_nat k + 3 = lo + of_nat (k + 3)" by simp_all
  have "vload32 (mem t) (cr3 s) (lo + of_nat k) = Some a"
    unfolding vload32_def off using ld [of 0] ld [of 1] ld [of 2] ld [of 3] k(5-8) u32_split_bytes [of a] by simp
  then show thesis using that [OF k(3) t sm(1) all win] esp by simp
qed

lemma con_frame_putchar_taskst:
  fixes s :: "'a kernst_scheme"
  assumes "cursor_x s < 80"
  shows "cursor_x (kputchar s c) < 80" "cur_task (kputchar s c) = cur_task s" "VGA_BASE (kputchar s c) = VGA_BASE s"
    "x80_functions (kputchar s c) = x80_functions s"
    "\<not> within (VGA_BASE s) 40960 x \<Longrightarrow> mem (kputchar s c) x = mem s x"
proof -
  have f: "cursor_x (kputchar s c) < 80" "kputchar s c = s\<lparr>mem := mem (kputchar s c),
      cursor_x := cursor_x (kputchar s c), cursor_y := cursor_y (kputchar s c)\<rparr>"
    "\<And>x. \<not> within (VGA_BASE s) 40960 x \<Longrightarrow> mem (kputchar s c) x = mem s x"
    using con_frame_putchar [OF assms, of c] unfolding con_frame_def by blast+
  show "cursor_x (kputchar s c) < 80" by (fact f(1))
  show "cur_task (kputchar s c) = cur_task s" "VGA_BASE (kputchar s c) = VGA_BASE s"
    "x80_functions (kputchar s c) = x80_functions s" by (subst f(2), simp)+
  show "\<not> within (VGA_BASE s) 40960 x \<Longrightarrow> mem (kputchar s c) x = mem s x" by (rule f(3))
qed

text \<open>One system call, from the push in the stub to the return to the task.\<close>

lemma putch_prints:
  fixes s :: "'a kernst_scheme"
  assumes wf: "user_wf w s lo n pa"
  obtains s' where "putch w c s = Some (0, s')" and "user_wf w s' lo n pa"
    and "same_console s' (kputchar s c)" and "\<forall>x. trap_area s n pa x \<or> mem s' x = mem s x"
    and "cr3 s' = cr3 s" and "cur_task s' = cur_task s" and "VGA_BASE s' = VGA_BASE s"
proof -
  note d = user_wfD [OF wf]
  let ?f = "regs w s" and ?a = "scast c :: u32"
  obtain m t where p: "user_store32 (mem s) (cr3 s) (fr_esp ?f) ?a = Some m"
    "current_task_save_state (change_to_kernel_page_directory (s\<lparr>mem := m\<rparr>)) ?f = Some t"
    "t = (change_to_kernel_page_directory (s\<lparr>mem := m\<rparr>))\<lparr>mem := mem t\<rparr>"
    "\<forall>x. trap_area s n pa x \<or> mem t x = mem s x" "\<forall>x. within (VGA_BASE s) 40960 x \<longrightarrow> mem t x = mem s x"
    "vload32 (mem t) (cr3 s) (task_esp (mem t) (cur_task s)) = Some ?a"
    by (rule saved_argument [OF wf]) (rule that)
  have t: "cur_task t = cur_task s" "x80_functions t = syscall_table" "VGA_BASE t = VGA_BASE s"
    "cursor_x t = cursor_x s" "cursor_y t = cursor_y s"
    by (subst p(3), simp add: switches d(4))+
  note kt = user_space_keep [OF wf p(4)]
  define u where "u = change_to_kernel_page_directory (change_to_given_task_page_directory t (cur_task s))"
  have acc: "task_access_stack t (cur_task s) 0 = Some (?a, u)"
    using p(6) by (simp add: task_access_stack_def Let_def u_def switches kt(1,2))
  have u: "mem u = mem t" "cur_task u = cur_task s" "x80_functions u = syscall_table" "VGA_BASE u = VGA_BASE s"
    "cursor_x u = cursor_x s" "cursor_y u = cursor_y s"
    by (simp_all add: u_def switches t)
  let ?k = "kputchar u c"
  let ?s' = "change_to_current_task_page_directory ?k"
  have ch: "(ucast (scast c :: u32) :: u8) = c" by (rule bit_word_eqI) (auto simp: bit_simps)
  have call: "x80_command_handler t (int 2) = Some (Returns 0 ?k)"
    using acc by (simp add: x80_command_handler_def t syscall_numbers x80_PUTCH_def current_task_def ch)
  have res: "putch w c s = Some (0, ?s')"
    unfolding putch_def int_0x80_arg_def Let_def p(1) Option.bind.bind_lunit isr_0x80_handler_def p(2) call by simp
  have ux: "cursor_x u < 80" using u(5) d(5) by simp
  note c = con_frame_putchar_taskst [OF ux, where c = c, unfolded u(2-4)]
  have same: "\<forall>x. trap_area s n pa x \<or> mem ?k x = mem s x"
    using p(4) c(5) unfolding u(1) trap_area_def by metis
  note ks = user_space_keep [OF wf same]
  have s': "mem ?s' = mem ?k" "cur_task ?s' = cur_task s" "VGA_BASE ?s' = VGA_BASE s" "cursor_x ?s' = cursor_x ?k"
    "cursor_y ?s' = cursor_y ?k" "x80_functions ?s' = x80_functions s" "cr3 ?s' = cr3 s"
    using c(2-4) ks(1,2) d(4) by (simp_all add: switches)
  have "same_console u s" using p(5) by (simp add: same_console_def u)
  then have "same_console ?k (kputchar s c)" by (rule same_console_putchar)
  then have con: "same_console ?s' (kputchar s c)" using s' c(3) by (simp add: same_console_def)
  have "user_wf w ?s' lo n pa"
    by (rule user_wf_keep [OF wf]) (use s' same c(1) in simp_all)
  then show thesis using that [OF res _ con] same s' by simp
qed

section \<open>Printing a text\<close>

text \<open>The program can read the string \<open>cs\<close> at \<open>p\<close>; it lies in frames that no trap writes.\<close>

definition user_text :: "'a kernst_scheme \<Rightarrow> nat \<Rightarrow> (nat \<Rightarrow> u32) \<Rightarrow> u32 \<Rightarrow> u8 list \<Rightarrow> bool" where
  "user_text s n pa p cs \<longleftrightarrow> 0 \<notin> set cs
     \<and> (\<forall>i\<le>length cs. \<exists>q. user_addr (mem s) (cr3 s) USER_READ (p + of_nat i) = Some q
          \<and> mem s q = (cs @ [0]) ! i \<and> \<not> trap_area s n pa q)"

lemma user_text_load:
  assumes "user_text s n pa p cs" and "i \<le> length cs"
  shows "user_load8 (mem s) (cr3 s) (p + of_nat i) = Some ((cs @ [0]) ! i)"
  using assms by (auto simp: user_text_def user_load8_def)

lemma user_text_keep:
  assumes wf: "user_wf w s lo n pa" and same: "\<forall>x. trap_area s n pa x \<or> mem s' x = mem s x"
    and eq: "cr3 s' = cr3 s" "cur_task s' = cur_task s" "VGA_BASE s' = VGA_BASE s"
    and here: "user_text s n pa p (c # cs)"
  shows "user_text s' n pa (p + 1) cs"
proof -
  have ta: "trap_area s' n pa = trap_area s n pa" by (simp add: trap_area_def fun_eq_iff eq)
  have "\<exists>q. user_addr (mem s') (cr3 s') USER_READ (p + 1 + of_nat i) = Some q \<and> mem s' q = (cs @ [0]) ! i
      \<and> \<not> trap_area s' n pa q" if "i \<le> length cs" for i
  proof -
    have "Suc i \<le> length (c # cs)" using that by simp
    then obtain q where q: "user_addr (mem s) (cr3 s) USER_READ (p + of_nat (Suc i)) = Some q"
      "mem s q = ((c # cs) @ [0]) ! Suc i" "\<not> trap_area s n pa q"
      using here unfolding user_text_def by blast
    have "user_addr (mem s') (cr3 s') USER_READ (p + 1 + of_nat i) = Some q"
      using q(1) unfolding eq(1) user_space_keep(5) [OF wf same] by (simp add: add.assoc)
    moreover have "mem s' q = mem s q" using q(3) same by blast
    then have "mem s' q = (cs @ [0]) ! i" using q(2) by simp
    ultimately show ?thesis using q(3) ta by simp
  qed
  then show ?thesis using here by (simp add: user_text_def)
qed

lemma printf_loop_plain:
  fixes s :: "'a kernst_scheme"
  assumes "user_wf w s lo n pa" and "user_text s n pa p cs" and "0x25 \<notin> set cs" and "same_console s t"
  shows "\<exists>s'. printf_loop w p ap k s = Some (k + length cs, s') \<and> user_wf w s' lo n pa
    \<and> same_console s' (fold (\<lambda>c t. kputchar t c) cs t) \<and> (\<forall>x. trap_area s n pa x \<or> mem s' x = mem s x)"
  using assms
proof (induction cs arbitrary: s p k t)
  case Nil
  then show ?case
    using user_text_load [OF Nil.prems(2), of 0] by (subst printf_loop.simps) simp
next
  case (Cons c cs)
  obtain s1 where s1: "putch w c s = Some (0, s1)" "user_wf w s1 lo n pa" "same_console s1 (kputchar s c)"
    "\<forall>x. trap_area s n pa x \<or> mem s1 x = mem s x" "cr3 s1 = cr3 s" "cur_task s1 = cur_task s" "VGA_BASE s1 = VGA_BASE s"
    by (rule putch_prints [OF Cons.prems(1)]) (rule that)
  have ta: "trap_area s1 n pa = trap_area s n pa" by (simp add: trap_area_def fun_eq_iff s1)
  have tx: "user_text s1 n pa (p + 1) cs" by (rule user_text_keep [OF Cons.prems(1) s1(4-7) Cons.prems(2)])
  have con: "same_console s1 (kputchar t c)"
    using s1(3) same_console_putchar [OF Cons.prems(4), of c] by (auto simp: same_console_def)
  have "0x25 \<notin> set cs" using Cons.prems(3) by simp
  from Cons.IH [OF s1(2) tx this con, of "k + 1"] obtain s' where
    s': "printf_loop w (p + 1) ap (k + 1) s1 = Some (k + 1 + length cs, s')" "user_wf w s' lo n pa"
    "same_console s' (fold (\<lambda>c t. kputchar t c) cs (kputchar t c))"
    "\<forall>x. trap_area s n pa x \<or> mem s' x = mem s1 x" unfolding ta by blast
  have c: "user_load8 (mem s) (cr3 s) p = Some c" "c \<noteq> 0" "c \<noteq> 0x25"
    using user_text_load [OF Cons.prems(2), of 0] Cons.prems(2,3) by (auto simp: user_text_def)
  have "printf_loop w p ap k s = Some (k + length (c # cs), s')"
    using c s1(1) s'(1) by (subst printf_loop.simps) simp
  then show ?case using s' s1(4) by (intro exI [of _ s']) (simp, metis)
qed

section \<open>Properties\<close>

text \<open>C4: a user program prints. \<open>printf\<close> of a text without conversions, called by a task whose stack and
  text are in order, returns the number of its characters, and the console then shows what printing them
  one by one would show: every character has gone through the stub, the gate, the dispatch, the stack of the
  task and the console. Memory is as before but for the saved registers, the stack and the window, and
  the task can go on.\<close>

theorem printf_prints:
  assumes "user_wf w s lo n pa" and "user_text s n pa fmt cs" and "0x25 \<notin> set cs"
  shows "\<exists>s'. printf w fmt ap s = Some (length cs, s') \<and> same_console s' (fold (\<lambda>c t. kputchar t c) cs s)
    \<and> user_wf w s' lo n pa \<and> (\<forall>x. trap_area s n pa x \<or> mem s' x = mem s x)"
proof -
  have "same_console s s" by (simp add: same_console_def)
  from printf_loop_plain [OF assms this, of ap 0] show ?thesis by (auto simp: printf_def)
qed

text \<open>A state to try it on: any memory, four blocks in use, and a task in the last of them, at \<open>0x1003000\<close>, with a
  space of user-writable identity mappings and its stack at \<open>0x1002800\<close>.\<close>

definition demo_usr :: "kernst usr" where
  "demo_usr = \<lparr>regs = (\<lambda>s. demo_frame\<lparr>fr_esp := 0x1002800\<rparr>), tick = (\<lambda>s. s), literal = (\<lambda>s. 0)\<rparr>"

lemma demo_user_ready:
  fixes m0 :: memory
  obtains s :: kernst where "user_wf demo_usr s 0x1002800 4 (\<lambda>i. 0x1002800 + of_nat i)"
    and "cur_task s = 0x1003000" and "VGA_BASE s = 0xB8000" and "task_space_wf s 0x1003000"
    and "kavail s = 24569" and "heap_base (kheap s) = 0x1000000" and "num_entries (kheap s) = 25600"
    and "\<And>x. within 0x1000000 0x4000 x \<Longrightarrow> x \<in> kused s"
    and "\<And>x. within 0x1000000 0x4000 x \<Longrightarrow> \<not> space_page (mem s) (task_space (mem s) 0x1003000) (x AND 0xfffff000)"
    and "\<And>x. within 0x1000000 0x4000 x \<Longrightarrow> \<not> within 0x1003000 4 x \<Longrightarrow> mem s x = m0 x"
    and "\<And>need va. 7 AND need = need \<Longrightarrow> user_addr (mem s) (cr3 s) need va = Some va"
    and "\<And>x. trap_area s 4 (\<lambda>i. 0x1002800 + of_nat i) x \<longleftrightarrow>
      within 0x1003004 48 x \<or> within 0xB8000 40960 x \<or> within 0x1002800 4 x"
proof -
  let ?d = "demo_kernel\<lparr>mem := m0, kheap := four_blocks\<rparr>" and ?t = "0x1003000 :: u32" and ?lo = "0x1002800 :: u32"
  let ?pa = "\<lambda>i. ?lo + of_nat i"
  have in4: "x \<in> kused ?d" if "within a k x" "0x1000000 \<le> a" "unat a + unat k \<le> 0x1004000" for a k x
    using four_blocks_used [OF that] by simp
  have tk: "\<forall>x. within ?t 4 x \<longrightarrow> x \<in> kused ?d" using in4 [of ?t 4] by simp
  have pre: "kinv ?d" "1027 \<le> kavail ?d" "bit (7 :: u8) 0" by (simp_all add: four_blocks)
  obtain v s where f: "task_space (mem s) ?t = v" "task_space_wf s ?t" "kavail ?d = kavail s + 1027"
    "kused ?d \<subseteq> kused s" "rest s = rest ?d" "\<And>q. space_page (mem s) v q \<Longrightarrow> q \<notin> kused ?d"
    "\<And>x. x \<in> kused ?d \<Longrightarrow> \<not> within ?t 4 x \<Longrightarrow> mem s x = mem ?d x"
    "\<And>va. pte (mem s) (vspace_pd (mem s) v) va = (va AND 0xfffff000) OR ucast (7 :: u8)"
    "\<And>va. mmu (mem s) (task_dir s ?t) va = Some va"
    "\<And>need va. ucast (7 :: u8) AND need = need \<Longrightarrow> user_addr (mem s) (task_dir s ?t) need va = Some va"
    by (rule fresh_task_space [OF pre tk]) (rule that)
  let ?s = "s\<lparr>cr3 := task_dir s ?t, cur_task := ?t, x80_functions := syscall_table, VGA_BASE := 0xB8000,
     cursor_x := 0, cursor_y := 0\<rparr>"
  have inv: "kinv s" and us: "\<And>q. space_page (mem s) v q \<Longrightarrow> q \<in> kused s" and ok: "vspace_ok (mem s) v"
    using f(2) by (simp_all add: task_space_wf_def Let_def f(1))
  have hb: "heap_base (kheap s) = 0x1000000" "num_entries (kheap s) = 25600"
    using rest_eqD(11,12) [OF f(5)] by simp_all
  have nsp: "\<not> space_page (mem s) v (x AND 0xfffff000)" if "x \<in> kused ?d \<or> within 0xB8000 40960 x" for x
    using that
  proof
    assume "x \<in> kused ?d"
    then show ?thesis using f(6) kused_page [OF pre(1), of x] by blast
  next
    assume "within 0xB8000 40960 x"
    then have "x \<notin> kused s" using heap_page_outside_window [OF inv hb(1)] by blast
    then show ?thesis using us kused_page [OF inv, of x] by blast
  qed
  have ap: "apart ?t 4 (?t + 4) 48" "apart 0xB8000 40960 ?t 4" "apart 0xB8000 40960 (?t + 4) 48"
    "apart ?lo 4 ?t 4" "apart ?lo 4 (?t + 4) 48" "apart 0xB8000 40960 ?lo 4"
    by (simp_all add: apart_below)
  have pa: "within ?lo 4 (?pa i)" if "i < 4" for i
    using of_nat_less_word(1) [of i "4 :: u32"] that by (simp add: within_def)
  have pas: "x \<in> ?pa ` {..<4} \<longleftrightarrow> within ?lo 4 x" for x
  proof
    assume "within ?lo 4 x"
    then have "unat (x - ?lo) < 4" "x = ?pa (unat (x - ?lo))" by (simp_all add: within_def word_less_nat_alt)
    then show "x \<in> ?pa ` {..<4}" by blast
  qed (use pa in auto)
  have ta: "trap_area ?s 4 ?pa x \<longleftrightarrow> within (?t + 4) 48 x \<or> within 0xB8000 40960 x \<or> within ?lo 4 x" for x
    by (simp add: trap_area_def pas)
  have area: "(x \<in> kused ?d \<or> within 0xB8000 40960 x) \<and> \<not> within ?t 4 x" if "trap_area ?s 4 ?pa x" for x
    using that in4 [of "?t + 4" 48 x] in4 [of ?lo 4 x] ap(1,2,4) unfolding ta by (auto dest: apartD apartD')
  have dir: "task_dir ?s ?t = task_dir s ?t" by (simp add: task_dir_def)
  have wf: "user_wf demo_usr ?s ?lo 4 ?pa"
    unfolding user_wf_def Let_def
  proof (intro conjI)
    show "\<forall>x. trap_area ?s 4 ?pa x \<longrightarrow> \<not> within (cur_task ?s) 4 x
        \<and> \<not> space_page (mem ?s) (task_space (mem ?s) (cur_task ?s)) (x AND 0xfffff000)"
      using area nsp f(1) by simp
    show "\<forall>x. within (cur_task ?s + 4) 48 x \<longrightarrow> \<not> within (VGA_BASE ?s) 40960 x"
      using ap(3) by (auto dest: apartD')
    show "\<forall>i<4. user_addr (mem ?s) (cr3 ?s) USER_WRITE (?lo + of_nat i) = Some (?pa i)
        \<and> \<not> within (cur_task ?s + 4) 48 (?pa i) \<and> \<not> within (VGA_BASE ?s) 40960 (?pa i)
        \<and> (\<forall>j<4. ?pa i = ?pa j \<longrightarrow> i = j)"
    proof (intro allI impI)
      fix i :: nat assume i: "i < 4"
      have "\<not> within (?t + 4) 48 (?pa i)" "\<not> within 0xB8000 40960 (?pa i)"
        using apartD [OF ap(5) pa [OF i]] apartD' [OF ap(6) pa [OF i]] .
      moreover have "i = j" if "j < 4" "?pa i = ?pa j" for j
        using that i of_nat_u32_eq_iff [of i j] by simp
      ultimately show "user_addr (mem ?s) (cr3 ?s) USER_WRITE (?lo + of_nat i) = Some (?pa i)
          \<and> \<not> within (cur_task ?s + 4) 48 (?pa i) \<and> \<not> within (VGA_BASE ?s) 40960 (?pa i)
          \<and> (\<forall>j<4. ?pa i = ?pa j \<longrightarrow> i = j)"
        using f(10) [of 7 "?pa i"] by simp
    qed
    show "\<forall>s'. \<exists>k. fr_esp (regs demo_usr s') = ?lo + of_nat k \<and> k + 4 \<le> 4"
    proof
      fix s' show "\<exists>k. fr_esp (regs demo_usr s') = ?lo + of_nat k \<and> k + 4 \<le> 4"
        by (rule exI [of _ 0]) (simp add: demo_usr_def)
    qed
  qed (use ok f(1) dir in simp_all)
  have b4: "x \<in> kused ?d" if "within 0x1000000 0x4000 x" for x using in4 [OF that] by simp
  show thesis
  proof (rule that [OF wf])
    show "task_space_wf ?s ?t" using f(2) by (simp add: task_space_wf_def)
    show "kavail ?s = 24569" using f(3) by (simp add: four_blocks)
    show "x \<in> kused ?s" if "within 0x1000000 0x4000 x" for x using b4 [OF that] f(4) by auto
    show "\<not> space_page (mem ?s) (task_space (mem ?s) ?t) (x AND 0xfffff000)" if "within 0x1000000 0x4000 x" for x
      using nsp b4 [OF that] f(1) by simp
    show "mem ?s x = m0 x" if "within 0x1000000 0x4000 x" "\<not> within ?t 4 x" for x
      using f(7) [OF b4 [OF that(1)] that(2)] by simp
    show "user_addr (mem ?s) (cr3 ?s) need va = Some va" if "7 AND need = need" for need va
      using f(10) [of need va] that by simp
    show "trap_area ?s 4 ?pa x \<longleftrightarrow> within 0x1003004 48 x \<or> within 0xB8000 40960 x \<or> within ?lo 4 x" for x
      by (simp add: ta)
  qed (use hb in simp_all)
qed

text \<open>In use: the text \<open>hi\<close> at \<open>0x1000000\<close>.\<close>

theorem printf_prints_witness:
  "\<exists>(s :: kernst) s'. printf demo_usr 0x1000000 [] s = Some (2, s')
    \<and> same_console s' (kputchar (kputchar s 0x68) 0x69)"
proof -
  let ?a = "0x1000000 :: u32" and ?m0 = "store32 (\<lambda>_. 0) 0x1000000 0x6968" and ?pa = "\<lambda>i. 0x1002800 + of_nat i :: u32"
  obtain s :: kernst where s: "user_wf demo_usr s 0x1002800 4 ?pa"
    "\<And>x. within ?a 0x4000 x \<Longrightarrow> \<not> within 0x1003000 4 x \<Longrightarrow> mem s x = ?m0 x"
    "\<And>need va. 7 AND need = need \<Longrightarrow> user_addr (mem s) (cr3 s) need va = Some va"
    "\<And>x. trap_area s 4 ?pa x \<longleftrightarrow> within 0x1003004 48 x \<or> within 0xB8000 40960 x \<or> within 0x1002800 4 x"
    by (rule demo_user_ready [of ?m0]) (rule that)
  have ap: "apart ?a 3 0x1002800 4" "apart ?a 3 0x1003004 48" "apart 0xB8000 40960 ?a 3" "apart ?a 3 0x1003000 4"
    by (simp_all add: apart_below)
  have "mem s (?a + of_nat i) = [0x68, 0x69, 0] ! i \<and> \<not> trap_area s 4 ?pa (?a + of_nat i)" if "i \<le> 2" for i
  proof -
    have "of_nat i < (3 :: u32)" using of_nat_less_word(1) [of i "3 :: u32"] that by simp
    then have w: "within ?a 3 (?a + of_nat i)" by (simp add: within_def)
    have "mem s (?a + of_nat i) = ?m0 (?a + of_nat i)"
      using within_head [of 3 "0x4000" ?a, OF _ w] by (intro s(2) apartD [OF ap(4) w]) simp_all
    moreover have "i = 0 \<or> i = 1 \<or> i = 2" using that by arith
    then have "?m0 (?a + of_nat i) = [0x68, 0x69, 0] ! i" by (auto simp: store32_def)
    ultimately show ?thesis
      unfolding s(4) using apartD [OF ap(1) w] apartD [OF ap(2) w] apartD' [OF ap(3) w] by simp
  qed
  then have "user_text s 4 ?pa ?a [0x68, 0x69]"
    unfolding user_text_def using s(3) [of 5] by auto
  from printf_prints [OF s(1) this, of "[]"] obtain s' where
    "printf demo_usr ?a [] s = Some (length [0x68 :: u8, 0x69], s')"
    "same_console s' (fold (\<lambda>c t. kputchar t c) [0x68, 0x69] s)" by auto
  then have "printf demo_usr ?a [] s = Some (2, s') \<and> same_console s' (kputchar (kputchar s 0x68) 0x69)"
    by (simp add: numeral_2_eq_2)
  then show ?thesis by blast
qed

end
