(* ===== verification/Syscall_Print.thy ===== *)
theory Syscall_Print
  imports User_Print
begin

text \<open>
  The system call that prints a string: the argument on the stack of the task, the copy through the shared
  page into the buffer on the stack of the kernel, and the console.
\<close>

section \<open>From the stack of the task to the console\<close>

lemma same_console_fold:
  "same_console s t \<Longrightarrow> same_console (fold (\<lambda>c s. kputchar s c) cs s) (fold (\<lambda>c s. kputchar s c) cs t)"
  by (induction cs arbitrary: s t) (simp_all add: same_console_putchar)

text \<open>What the copy needs is read off memory and heap alone.\<close>

lemma task_access_stack_0:
  fixes s :: "'a taskst_scheme"
  assumes "vload32 (mem s) (task_dir s t) (task_esp (mem s) t) = Some a"
  obtains u where "task_access_stack s t 0 = Some (a, u)" and "mem u = mem s" and "kheap u = kheap s"
    and "cur_task u = cur_task s" and "kernel_space u = kernel_space s" and "VGA_BASE u = VGA_BASE s"
    and "cursor_x u = cursor_x s" and "cursor_y u = cursor_y s" and "local_addr u = local_addr s"
  using assms
  by (simp add: task_access_stack_def Let_def task_dir_def change_to_given_task_page_directory_def
      change_to_kernel_page_directory_def load_page_directory_def load_pd_to_cr3_def
      set_all_segments_to_user_data_segment_def set_all_segments_to_kernel_data_segment_def)

lemma cstr_append:
  assumes "bytes_at m b (length bs) = bs" and "0 \<notin> set bs" and "cstr m (b + of_nat (length bs)) stale"
  shows "cstr m b (bs @ stale)"
  using assms
proof (induction bs arbitrary: b)
  case (Cons c bs)
  then have "cstr m (b + 1) (bs @ stale)" by (intro Cons.IH) (simp_all add: bytes_at_Suc add.assoc)
  then show ?case using Cons.prems(1,2) by (simp add: bytes_at_Suc)
qed simp

text \<open>C5: the system call PRINT shows on the console the string of the task, and after it whatever the stack
  of the kernel holds from the end of the string on up to the next zero: the copy writes no terminator, and
  the buffer is not cleared. It answers \<open>SUCCESS\<close>, on the page directory of the kernel, with the heap as
  it was.\<close>

theorem print_shows:
  assumes "task_space_wf s (cur_task s)"
    and "vload32 (mem s) (task_dir s (cur_task s)) (task_esp (mem s) (cur_task s)) = Some a"
    and "malloc (kheap s) 1024 = Some (q, h)" and "q \<noteq> 0"
    and "pde_present (mem s) (task_space (mem s) (cur_task s)) q"
    and "task_string s (cur_task s) a 1024 q pa bs"
    and "kernel_dir_safe s (task_space (mem s) (cur_task s))"
    and "cstr (mem s) (local_addr s Arg_in_kernel_space + of_nat (length bs)) stale"
    and "length (bs @ stale) < 2 ^ 32"
    and "\<forall>i\<le>max 1024 (length (bs @ stale)). \<not> within q 1024 (local_addr s Arg_in_kernel_space + of_nat i)"
    and "outside_window s (local_addr s Arg_in_kernel_space) (length (bs @ stale))"
    and "\<forall>x. within q 1024 x \<longrightarrow> \<not> within (VGA_BASE s) 40960 x" and "cursor_x s < 80"
  shows "\<exists>s'. x80_PRINT s = Some (Returns 0 s')
    \<and> same_console s' (fold (\<lambda>c s. kputchar s c) (bs @ stale) s)
    \<and> kheap s' = kheap s \<and> cr3 s' = kernel_dir s"
proof -
  let ?t = "cur_task s" and ?b = "local_addr s Arg_in_kernel_space"
  obtain u where u: "task_access_stack s ?t 0 = Some (a, u)" "mem u = mem s" "kheap u = kheap s"
    "cur_task u = ?t" "kernel_space u = kernel_space s" "VGA_BASE u = VGA_BASE s"
    "cursor_x u = cursor_x s" "cursor_y u = cursor_y s" "local_addr u = local_addr s"
    by (rule task_access_stack_0 [OF assms(2)]) (rule that)
  have 1: "task_space_wf u ?t" "kernel_dir_safe u (task_space (mem u) ?t)"
    "task_string u ?t a (unat (1024 :: u32)) q pa bs" "pde_present (mem u) (task_space (mem u) ?t) q"
    using assms(1,5-7) u(2,3,5)
    by (simp_all add: task_space_wf_def kernel_dir_safe_def task_string_def task_dir_def)
  obtain s1 where k: "kzalloc u 1024 = Some (q, s1)" using assms(3,4) by (simp add: kzalloc_def u(3))
  have b: "\<forall>i<unat (1024 :: u32). \<not> within q 1024 (?b + of_nat i)" using assms(10) by simp
  have n: "(0 :: u32) < 1024" "(1024 :: u32) \<le> 4096" by simp_all
  from copy_from_task_spec [OF 1(1) n k assms(4) 1(4,3) b 1(2)] obtain v where
    v: "copy_data_from_task_to_kernel u ?t a ?b 1024 = Some (int (length bs), v)"
    "bytes_at (mem v) ?b (length bs) = bs" "kheap v = kheap s"
    "\<forall>x. (\<exists>i<length bs. x = ?b + of_nat i) \<or> within q 1024 x \<or> mem v x = mem s x" "cr3 v = kernel_dir u"
    "v = u\<lparr>mem := mem v, cr3 := cr3 v, data_segment := data_segment v, current_page_directory := current_page_directory v\<rparr>"
    unfolding u(2,3) by blast
  have vf: "VGA_BASE v = VGA_BASE s" "cursor_x v = cursor_x s" "cursor_y v = cursor_y s"
    by (subst v(6), simp add: u(6-8))+
  have bs: "0 \<notin> set bs" using assms(6) by (simp add: task_string_def fetched_def)
  have tail: "cstr (mem v) (?b + of_nat (length bs)) stale"
  proof (rule cstr_cong [OF assms(8)])
    fix i assume i: "i \<le> length stale"
    have e: "?b + of_nat (length bs) + of_nat i = ?b + of_nat (length bs + i)" by (simp add: add.assoc)
    have "length bs + i \<le> max 1024 (length (bs @ stale))" using i by simp
    then have "\<not> within q 1024 (?b + of_nat (length bs + i))" using assms(10) by blast
    moreover have "?b + of_nat (length bs + i) \<noteq> ?b + of_nat j" if "j < length bs" for j
      using of_nat_u32_eq_iff [of "length bs + i" j] that i assms(9) by simp
    ultimately show "mem v (?b + of_nat (length bs) + of_nat i) = mem s (?b + of_nat (length bs) + of_nat i)"
      unfolding e using v(4) by blast
  qed
  have o: "outside_window v ?b (length (bs @ stale))" using assms(11) by (simp add: outside_window_def vf)
  have win: "mem v x = mem s x" if "within (VGA_BASE s) 40960 x" for x
  proof -
    have "x \<noteq> ?b + of_nat i" if "i < length bs" for i
      using assms(11) that \<open>within (VGA_BASE s) 40960 x\<close> by (auto simp: outside_window_def)
    then show ?thesis using v(4) assms(12) that by blast
  qed
  let ?s' = "fold (\<lambda>c s. kputchar s c) (bs @ stale) v"
  have "cursor_x v < 80" using assms(13) vf by simp
  then have cf: "con_frame v ?s'" by (rule con_frame_puts)
  have kp: "kputs v ?b = Some (of_nat (length (bs @ stale)), ?s')"
    using kputs_loop_fold [of v ?b 0 "bs @ stale"] cstr_append [OF v(2) bs tail] o \<open>cursor_x v < 80\<close>
    by (simp add: kputs_def)
  have "same_console v s" using vf win by (simp add: same_console_def)
  from same_console_fold [OF this] have con: "same_console ?s' (fold (\<lambda>c s. kputchar s c) (bs @ stale) s)" .
  have eq: "?s' = v\<lparr>mem := mem ?s', cursor_x := cursor_x ?s', cursor_y := cursor_y ?s'\<rparr>"
    using cf unfolding con_frame_def by blast
  have "x80_PRINT s = Some (Returns 0 ?s')"
    using u(1,4,9) v(1) kp by (simp add: x80_PRINT_def current_task_def)
  moreover have "kheap ?s' = kheap s" by (subst eq) (simp add: v(3))
  moreover have "cr3 ?s' = kernel_dir s" by (subst eq) (simp add: v(5) kernel_dir_def u(2,5))
  ultimately show ?thesis using con by blast
qed

text \<open>In use: the task at \<open>0x1003000\<close> prints \<open>hi\<close>, its stack is at \<open>0x1002100\<close>; the buffer, at
  \<open>0x1002400\<close>, holds \<open>XXX\<close> from an earlier use, and the console shows \<open>hiX\<close>.\<close>

definition demo_print_memory :: memory where
  "demo_print_memory = store32 (store32 (store32 (store32 (store32 (\<lambda>_. 0) 0x1000000 0x6968) 0x1001000 0x1002000)
     0x1002100 0x1000000) 0x100301C 0x1002100) 0x1002400 0x585858"

definition demo_print :: kernst where
  "demo_print = demo_kernel\<lparr>mem := demo_print_memory, kheap := four_blocks, cur_task := 0x1003000,
     kernel_space := 0x1001000, VGA_BASE := 0xB8000, cursor_x := 0, cursor_y := 0, local_addr := (\<lambda>_. 0x1002400)\<rparr>"

theorem print_shows_witness:
  "\<exists>(s :: kernst) s'. x80_PRINT s = Some (Returns 0 s')
     \<and> same_console s' (kputchar (kputchar (kputchar s 0x68) 0x69) 0x58)"
proof -
  let ?b = "0x1002400 :: u32" and ?t = "0x1003000 :: u32"
  note byte = demo_print_def demo_print_memory_def store32_def
  have d: "kheap demo_print = four_blocks" "kernel_space demo_print = 0x1001000" "mem demo_print 0x1000000 = 0x68"
    "mem demo_print 0x1000001 = 0x69" "mem demo_print 0x1000002 = 0" "load32 (mem demo_print) 0x1001000 = 0x1002000"
    "(2 :: u32) < 1024" "(1024 :: u32) \<le> 4096"
    by (simp_all add: demo_print_def demo_print_memory_def apart4_def) (simp_all add: store32_def)
  obtain s q and s1 :: kernst where s: "task_space_wf s ?t" "kzalloc s 1024 = Some (q, s1)" "q \<noteq> 0"
    "pde_present (mem s) (task_space (mem s) ?t) q"
    "task_string s ?t 0x1000000 (unat (1024 :: u32)) q (\<lambda>i. 0x1000000 + of_nat i) [0x68, 0x69]"
    "kernel_dir_safe s (task_space (mem s) ?t)" "\<forall>x. within 0x1000000 0x4000 x \<longrightarrow> \<not> within q 1024 x"
    "\<forall>x. within 0x1000000 0x4000 x \<and> \<not> within ?t 4 x \<longrightarrow> mem s x = mem demo_print x"
    "\<forall>va. mmu (mem s) (task_dir s ?t) va = Some va" "rest s = rest demo_print"
    "\<forall>x. within q 1024 x \<longrightarrow> x \<in> kused s1" "kinv s1"
    by (rule demo_string_ready [OF d]) (rule that, assumption+)
  note r = rest_eqD [OF s(10)]
  have ct: "cur_task s = ?t" using arg_cong [OF s(10), of cur_task] by (simp add: rest_def demo_print_def)
  have con: "VGA_BASE s = 0xB8000" "cursor_x s = 0" "local_addr s Arg_in_kernel_space = ?b"
    using r(1,2,9) by (simp_all add: demo_print_def)
  have m: "mem s x = mem demo_print x" if "within 0x1000000 0x3000 x \<or> within 0x1003004 0xFFC x" for x
  proof -
    have "within 0x1000000 0x4000 x"
      using that within_head [of "0x3000" "0x4000" "0x1000000" x] within_tail [of "0x3004" "0x4000" "0x1000000" x] by auto
    moreover have "\<not> within ?t 4 x"
      using that apart_below [of "0x1000000" "0x3000" ?t 4] apart_below [of ?t 4 "0x1003004" "0xFFC"]
      by (auto dest: apartD apartD')
    ultimately show ?thesis using s(8) by blast
  qed
  have esp: "task_esp (mem s) ?t = 0x1002100"
    unfolding task_esp_def load32_def
    using m [of "0x100301C"] m [of "0x100301D"] m [of "0x100301E"] m [of "0x100301F"]
    by (simp add: within_def byte)
  have arg: "vload32 (mem s) (task_dir s (cur_task s)) (task_esp (mem s) (cur_task s)) = Some 0x1000000"
    using s(9) m [of "0x1002100"] m [of "0x1002101"] m [of "0x1002102"] m [of "0x1002103"]
    by (simp add: ct esp vload32_def vload8_def within_def byte)
  have st: "cstr (mem s) (local_addr s Arg_in_kernel_space + of_nat (length [0x68 :: u8, 0x69])) [0x58]"
    using m [of "0x1002402"] m [of "0x1002403"] by (simp add: con within_def byte)
  have buf: "within ?b 1025 (?b + of_nat i)" if "i \<le> 1024" for i
    using of_nat_less_word(1) [of i "1025 :: u32"] that by (simp add: within_def)
  have nq: "\<forall>i\<le>max 1024 (length ([0x68 :: u8, 0x69] @ [0x58])).
      \<not> within q 1024 (local_addr s Arg_in_kernel_space + of_nat i)"
    using four_blocks_used [OF buf] s(7) unfolding four_blocks(3) con by simp
  have ow: "outside_window s (local_addr s Arg_in_kernel_space) (length ([0x68 :: u8, 0x69] @ [0x58]))"
    unfolding outside_window_def con
  proof (intro allI impI)
    fix i assume "i \<le> length ([0x68 :: u8, 0x69] @ [0x58])"
    then have "within ?b 1025 (?b + of_nat i)" using buf [of i] by simp
    then show "\<not> within 0xB8000 40960 (?b + of_nat i)"
      using apart_below [of "0xB8000" 40960 ?b 1025] by (auto dest: apartD')
  qed
  have hb: "heap_base (kheap s1) = 0x1000000"
    using rest_eqD(11) [OF kzalloc_rest [OF s(2)]] r(11) by (simp add: d(1))
  have qw: "\<forall>x. within q 1024 x \<longrightarrow> \<not> within (VGA_BASE s) 40960 x"
    using heap_page_outside_window [OF s(12) hb] s(11) by (auto simp: con)
  have 1: "task_space_wf s (cur_task s)" "pde_present (mem s) (task_space (mem s) (cur_task s)) q"
    "task_string s (cur_task s) 0x1000000 1024 q (\<lambda>i. 0x1000000 + of_nat i) [0x68, 0x69]"
    "kernel_dir_safe s (task_space (mem s) (cur_task s))" "cursor_x s < 80"
    using s(1,4-6) by (simp_all add: ct con)
  from print_shows [OF 1(1) arg kzalloc_kheap [OF s(2)] s(3) 1(2-4) st _ nq ow qw 1(5)]
  show ?thesis by auto
qed

end
