(* ===== verification/User_Str.thy ===== *)
theory User_Str
  imports User_Lib
begin

text \<open>
  The string routines of the user library (\<^verbatim>\<open>usrspc/lib/string/string.c\<close>). Their text is that of the
  kernel's, but every byte goes through the page tables of the program: a byte that may not be read or
  written faults for ever, which is the answer \<open>None\<close>. The bytes a program reaches are a memory of their
  own, its view; on it the routines do what the kernel's do on physical memory.
\<close>

section \<open>The routines\<close>

partial_function (option) user_strlen_loop :: "memory \<Rightarrow> u32 \<Rightarrow> u32 \<Rightarrow> u32 \<Rightarrow> u32 option" where
  "user_strlen_loop m dir str strpos =
     do { c \<leftarrow> user_load8 m dir (str + strpos);
          if c \<noteq> 0 then user_strlen_loop m dir str (strpos + 1) else Some strpos }"

definition user_strlen :: "memory \<Rightarrow> u32 \<Rightarrow> u32 \<Rightarrow> u32 option" where
  "user_strlen m dir str = user_strlen_loop m dir str 0"

partial_function (option) user_strcpy_loop ::
    "memory \<Rightarrow> u32 \<Rightarrow> u32 \<Rightarrow> u32 \<Rightarrow> u32 \<Rightarrow> u32 \<Rightarrow> memory option" where
  "user_strcpy_loop m dir tgt src tgt_ix src_ix =
     do { c \<leftarrow> user_load8 m dir (src + src_ix);
          if c \<noteq> 0
          then do { m \<leftarrow> user_store8 m dir (tgt + tgt_ix) c;
                    user_strcpy_loop m dir tgt src (tgt_ix + 1) (src_ix + 1) }
          else user_store8 m dir (tgt + tgt_ix) 0 }"

definition user_strcpy :: "memory \<Rightarrow> u32 \<Rightarrow> u32 \<Rightarrow> u32 \<Rightarrow> memory option" where
  "user_strcpy m dir tgt src = user_strcpy_loop m dir tgt src 0 0"

definition user_tolower :: "u8 \<Rightarrow> u8" where
  "user_tolower c = (if sint c \<ge> 97 \<and> sint c \<le> 122 then c else c + 32)"

function user_strncmp :: "memory \<Rightarrow> u32 \<Rightarrow> u32 \<Rightarrow> u32 \<Rightarrow> u32 \<Rightarrow> int option" where
  "user_strncmp m dir s1 s2 n =
     (if n \<noteq> 0
      then case user_load8 m dir s1 of
             None \<Rightarrow> None
           | Some c1 \<Rightarrow>
               (case user_load8 m dir s2 of
                  None \<Rightarrow> None
                | Some c2 \<Rightarrow>
                    if user_tolower c1 = user_tolower c2 then user_strncmp m dir (s1 + 1) (s2 + 1) (n - 1)
                    else if sint c1 < sint c2 then Some (-1) else Some 1)
      else Some 0)"
  by pat_completeness auto
termination
  by (relation "measure (\<lambda>(m, dir, s1, s2, n). unat n)") (auto simp: unat_pred_less)

declare user_strncmp.simps [simp del, loop_simps]

function user_strncpy_loop ::
    "memory \<Rightarrow> u32 \<Rightarrow> u32 \<Rightarrow> u32 \<Rightarrow> u32 \<Rightarrow> u32 \<Rightarrow> (memory \<times> u32) option" where
  "user_strncpy_loop m dir tgt src len written =
     (if written < len
      then case user_load8 m dir (src + written) of
             None \<Rightarrow> None
           | Some c \<Rightarrow>
               if c = 0 then Some (m, written)
               else (case user_store8 m dir (tgt + written) c of
                       None \<Rightarrow> None
                     | Some m \<Rightarrow> user_strncpy_loop m dir tgt src len (written + 1))
      else Some (m, written))"
  by pat_completeness auto
termination
  by (relation "measure (\<lambda>(m, dir, tgt, src, len, written). unat len - unat written)")
    (auto simp: unat_loop_dec)

declare user_strncpy_loop.simps [simp del, loop_simps]

definition user_strncpy :: "memory \<Rightarrow> u32 \<Rightarrow> u32 \<Rightarrow> u32 \<Rightarrow> u32 \<Rightarrow> (memory \<times> u32) option" where
  "user_strncpy m dir tgt src len = user_strncpy_loop m dir tgt src len 0"

section \<open>The view of a program\<close>

text \<open>\<open>user_range m v dir S pa\<close>: in the space \<open>v\<close>, whose directory is \<open>dir\<close>, every address of \<open>S\<close> may be
  read and written, in a frame \<open>pa\<close> of its own that is none of the tables. \<open>view\<close> is the memory the
  program sees there.\<close>

definition user_range :: "memory \<Rightarrow> u32 \<Rightarrow> u32 \<Rightarrow> u32 set \<Rightarrow> (u32 \<Rightarrow> u32) \<Rightarrow> bool" where
  "user_range m v dir S pa \<longleftrightarrow> vspace_ok m v \<and> dir = page_directory_entries m (vspace_pd m v) \<and> inj_on pa S
     \<and> (\<forall>x\<in>S. user_addr m dir USER_READ x = Some (pa x) \<and> user_addr m dir USER_WRITE x = Some (pa x)
          \<and> \<not> space_page m v (pa x AND 0xfffff000))"

definition view :: "memory \<Rightarrow> u32 set \<Rightarrow> (u32 \<Rightarrow> u32) \<Rightarrow> memory" where
  "view m S pa x = (if x \<in> S then m (pa x) else 0)"

lemma user_range_load:
  assumes "user_range m v dir S pa" and "x \<in> S"
  shows "user_load8 m dir x = Some (view m S pa x)"
proof -
  have "user_addr m dir USER_READ x = Some (pa x)" using assms unfolding user_range_def by blast
  then show ?thesis using assms(2) by (simp add: user_load8_def view_def)
qed

text \<open>A store is a store into the view, and the range stays one.\<close>

lemma user_range_store:
  assumes r: "user_range m v dir S pa" and x: "x \<in> S"
  shows "user_store8 m dir x c = Some (m(pa x := c))" and "view (m(pa x := c)) S pa = (view m S pa)(x := c)"
    and "user_range (m(pa x := c)) v dir S pa"
proof -
  have "user_addr m dir USER_WRITE x = Some (pa x)" using assms unfolding user_range_def by blast
  then show "user_store8 m dir x c = Some (m(pa x := c))" by (simp add: user_store8_def)
  show "view (m(pa x := c)) S pa = (view m S pa)(x := c)"
    using r x by (auto simp: view_def fun_eq_iff user_range_def inj_on_def)
  have "\<not> space_page m v (pa x AND 0xfffff000)" using r x by (simp add: user_range_def)
  then have ag: "\<forall>y. space_page m v (y AND 0xfffff000) \<longrightarrow> (m(pa x := c)) y = m y" by auto
  have ok: "vspace_ok m v" and dir: "dir = page_directory_entries m (vspace_pd m v)" using r by (simp_all add: user_range_def)
  note a = vspace_agree [OF ok ag] and u = user_addr_agree [OF ok ag, folded dir]
  have "dir = page_directory_entries (m(pa x := c)) (vspace_pd m v)" using dir a(2) by (rule trans [OF _ sym])
  with r a(4) show "user_range (m(pa x := c)) v dir S pa"
    unfolding user_range_def u a(6) a(1) by blast
qed

text \<open>What a run of stores inside the range leaves.\<close>

definition reaches :: "memory \<Rightarrow> memory \<Rightarrow> u32 \<Rightarrow> u32 \<Rightarrow> u32 set \<Rightarrow> (u32 \<Rightarrow> u32) \<Rightarrow> memory \<Rightarrow> bool" where
  "reaches m m' v dir S pa w \<longleftrightarrow> view m' S pa = w \<and> user_range m' v dir S pa \<and> (\<forall>x. x \<in> pa ` S \<or> m' x = m x)"

lemma reaches_refl: "user_range m v dir S pa \<Longrightarrow> reaches m m v dir S pa (view m S pa)"
  by (simp add: reaches_def)

lemma reaches_store:
  "user_range m v dir S pa \<Longrightarrow> x \<in> S \<Longrightarrow> reaches m (m(pa x := c)) v dir S pa ((view m S pa)(x := c))"
  using user_range_store [of m v dir S pa x c] by (auto simp: reaches_def)

lemma reaches_step:
  "x \<in> S \<Longrightarrow> reaches (m(pa x := c)) m' v dir S pa w \<Longrightarrow> reaches m m' v dir S pa w"
  unfolding reaches_def by (metis fun_upd_apply image_eqI)

section \<open>The routines on the view\<close>

lemma user_tolower_eq: "user_tolower c = tolower c"
  by (simp add: user_tolower_def tolower_def)

lemma user_strlen_loop_view:
  assumes "user_range m v dir S pa" and "\<forall>i\<le>length cs. str + p + of_nat i \<in> S" and "cstr (view m S pa) (str + p) cs"
  shows "user_strlen_loop m dir str p = strlen_loop (view m S pa) str p"
  using assms(2,3)
proof (induction cs arbitrary: p)
  case Nil
  then have "str + p \<in> S" by simp
  from user_range_load [OF assms(1) this] Nil(2) show ?case
    by (subst user_strlen_loop.simps, subst strlen_loop.simps) simp
next
  case (Cons c cs)
  have "str + p \<in> S" using Cons.prems(1) [rule_format, of 0] by simp
  note l = user_range_load [OF assms(1) this]
  have "str + (p + 1) + of_nat i \<in> S" if "i \<le> length cs" for i
    using Cons.prems(1) [rule_format, of "Suc i"] that by (simp add: add.assoc)
  then have "user_strlen_loop m dir str (p + 1) = strlen_loop (view m S pa) str (p + 1)"
    using Cons.prems(2) by (intro Cons.IH) (simp_all add: add.assoc)
  then show ?case
    using l Cons.prems(2) by (subst user_strlen_loop.simps, subst strlen_loop.simps) simp
qed

lemma user_strncmp_view:
  assumes "user_range m v dir S pa" and "\<forall>i<unat n. s1 + of_nat i \<in> S \<and> s2 + of_nat i \<in> S"
  shows "user_strncmp m dir s1 s2 n = Some (strncmp (view m S pa) s1 s2 n)"
  using assms
proof (induction m dir s1 s2 n rule: user_strncmp.induct)
  case (1 m dir s1 s2 n)
  show ?case
  proof (cases "n = 0")
    case True
    then show ?thesis by (subst user_strncmp.simps, subst strncmp.simps) simp
  next
    case False
    note n = unat_eq_Suc_pred [OF False]
    have "s1 \<in> S" "s2 \<in> S" using "1.prems"(2) [rule_format, of 0] n by simp_all
    note l = user_range_load [OF "1.prems"(1) this(1)] user_range_load [OF "1.prems"(1) this(2)]
    have "s1 + 1 + of_nat i \<in> S \<and> s2 + 1 + of_nat i \<in> S" if "i < unat (n - 1)" for i
      using "1.prems"(2) [rule_format, of "Suc i"] that n by (simp add: add.assoc)
    then show ?thesis
      using False l "1.IH" [OF False l] "1.prems"(1)
      by (subst user_strncmp.simps, subst strncmp.simps) (simp add: user_tolower_eq)
  qed
qed

lemma user_strncpy_loop_view:
  assumes "user_range m v dir S pa"
    and "\<forall>i. unat w \<le> i \<and> i < unat n \<longrightarrow> tgt + of_nat i \<in> S \<and> src + of_nat i \<in> S"
  shows "\<exists>m'. user_strncpy_loop m dir tgt src n w = Some (m', snd (strncpy_loop (view m S pa) tgt src n w))
    \<and> reaches m m' v dir S pa (fst (strncpy_loop (view m S pa) tgt src n w))"
  using assms
proof (induction m dir tgt src n w rule: user_strncpy_loop.induct)
  case (1 m dir tgt src n w)
  note r = "1.prems"(1)
  show ?case
  proof (cases "w < n")
    case False
    then show ?thesis using reaches_refl [OF r]
      by (subst user_strncpy_loop.simps, subst (1 2) strncpy_loop.simps) simp
  next
    case True
    then have u: "unat w < unat n" by (simp add: word_less_nat_alt)
    then have here: "tgt + w \<in> S" "src + w \<in> S" using "1.prems"(2) [rule_format, of "unat w"] by simp_all
    note l = user_range_load [OF r here(2)] and st = user_range_store [OF r here(1), where c = "view m S pa (src + w)"]
    show ?thesis
    proof (cases "view m S pa (src + w) = 0")
      case z: True
      then show ?thesis using True l reaches_refl [OF r]
        by (subst user_strncpy_loop.simps, subst (1 2) strncpy_loop.simps) simp
    next
      case False
      have "unat (w + 1) = Suc (unat w)" using True by (rule unat_Suc_less)
      then have "\<forall>i. unat (w + 1) \<le> i \<and> i < unat n \<longrightarrow> tgt + of_nat i \<in> S \<and> src + of_nat i \<in> S"
        using "1.prems"(2) by simp
      from "1.IH" [OF True l False st(1) st(3) this] obtain m' where
        "user_strncpy_loop (m(pa (tgt + w) := view m S pa (src + w))) dir tgt src n (w + 1)
          = Some (m', snd (strncpy_loop ((view m S pa)(tgt + w := view m S pa (src + w))) tgt src n (w + 1)))"
        "reaches (m(pa (tgt + w) := view m S pa (src + w))) m' v dir S pa
          (fst (strncpy_loop ((view m S pa)(tgt + w := view m S pa (src + w))) tgt src n (w + 1)))"
        unfolding st(2) by blast
      then show ?thesis using True False l st(1) reaches_step [OF here(1)]
        by (subst user_strncpy_loop.simps, subst (1 2) strncpy_loop.simps) auto
    qed
  qed
qed

lemma user_strcpy_loop_view:
  assumes "user_range m v dir S pa" and "\<forall>i\<le>length cs. tgt + k + of_nat i \<in> S \<and> src + k + of_nat i \<in> S"
    and "cstr (view m S pa) (src + k) cs" and "Suc (length cs) < 2 ^ 32"
    and "tgt = src \<or> of_nat (length cs) + 1 \<le> tgt - src"
  shows "\<exists>m' w. user_strcpy_loop m dir tgt src k k = Some m' \<and> strcpy_loop (view m S pa) tgt src k k = Some w
    \<and> reaches m m' v dir S pa w"
  using assms
proof (induction cs arbitrary: m k)
  case Nil
  then have here: "tgt + k \<in> S" "src + k \<in> S" by simp_all
  note l = user_range_load [OF Nil(1) here(2)] and st = user_range_store [OF Nil(1) here(1), where c = 0]
  show ?case using Nil(3) l st(1) reaches_store [OF Nil(1) here(1), of 0]
    by (subst user_strcpy_loop.simps, subst strcpy_loop.simps) simp
next
  case (Cons c cs)
  note r = Cons.prems(1)
  have here: "tgt + k \<in> S" "src + k \<in> S" using Cons.prems(2) [rule_format, of 0] by simp_all
  have v: "view m S pa (src + k) = c" "c \<noteq> 0" using Cons.prems(3) by simp_all
  note l = user_range_load [OF r here(2)] and st = user_range_store [OF r here(1), where c = c]
  have "\<forall>i\<le>length cs. tgt + (k + 1) + of_nat i \<in> S \<and> src + (k + 1) + of_nat i \<in> S"
    using Cons.prems(2) by (metis (no_types, opaque_lifting) Suc_le_mono add.assoc length_Cons of_nat_Suc)
  moreover have "cstr ((view m S pa)(tgt + k := c)) (src + k + 1) cs"
    by (rule cstr_upd_before [where n = "of_nat (length (c # cs)) + 1"]) (use Cons.prems(3-5) in simp_all)
  moreover have "tgt = src \<or> of_nat (length cs) + 1 \<le> tgt - src"
  proof -
    have "unat (of_nat (Suc (Suc (length cs))) :: u32) = Suc (Suc (length cs))"
      using Cons.prems(4) by (intro unat_of_nat_less) simp
    then have "of_nat (length (c # cs)) + 1 \<noteq> (0 :: u32)" by auto
    from copy_step_pre [OF this Cons.prems(5)] show ?thesis by (simp add: add.commute)
  qed
  ultimately obtain m' w where
    "user_strcpy_loop (m(pa (tgt + k) := c)) dir tgt src (k + 1) (k + 1) = Some m'"
    "strcpy_loop ((view m S pa)(tgt + k := c)) tgt src (k + 1) (k + 1) = Some w"
    "reaches (m(pa (tgt + k) := c)) m' v dir S pa w"
    using Cons.IH [OF st(3), of "k + 1", unfolded st(2)] Cons.prems(4) by (auto simp: add.assoc simp del: fun_upd_apply)
  then show ?case using v l st(1) reaches_step [OF here(1)]
    by (subst user_strcpy_loop.simps, subst strcpy_loop.simps) auto
qed

section \<open>Properties\<close>

text \<open>C31: on the bytes a program may reach, the string routines of its library are those of the kernel on the
  memory the program sees: its stores through the page tables are stores into that memory, the four
  routines return, with the same results, and nothing outside the frames of the range changes.\<close>

theorem user_strings_refine:
  assumes "user_range m v dir S pa" and "\<forall>i\<le>unat n. tgt + of_nat i \<in> S \<and> src + of_nat i \<in> S"
    and "cstr (view m S pa) src cs" and "length cs \<le> unat n" and "Suc (length cs) < 2 ^ 32"
    and "tgt = src \<or> of_nat (length cs) + 1 \<le> tgt - src"
  shows "user_strlen m dir src = strlen (view m S pa) src
    \<and> user_strncmp m dir tgt src n = Some (strncmp (view m S pa) tgt src n)
    \<and> (\<exists>m'. user_strncpy m dir tgt src n = Some (m', snd (strncpy (view m S pa) tgt src n))
          \<and> view m' S pa = fst (strncpy (view m S pa) tgt src n) \<and> (\<forall>x. x \<in> pa ` S \<or> m' x = m x))
    \<and> (\<exists>m'. user_strcpy m dir tgt src = Some m' \<and> strcpy (view m S pa) tgt src = Some (view m' S pa)
          \<and> (\<forall>x. x \<in> pa ` S \<or> m' x = m x))"
proof (intro conjI)
  have i: "tgt + of_nat i \<in> S \<and> src + of_nat i \<in> S" if "i \<le> unat n" for i using assms(2) that by blast
  show "user_strlen m dir src = strlen (view m S pa) src"
    unfolding user_strlen_def strlen_def
    by (rule user_strlen_loop_view [OF assms(1)]) (use i assms(3,4) in simp_all)
  show "user_strncmp m dir tgt src n = Some (strncmp (view m S pa) tgt src n)"
    by (rule user_strncmp_view [OF assms(1)]) (use i in simp)
  have "\<forall>i. unat (0 :: u32) \<le> i \<and> i < unat n \<longrightarrow> tgt + of_nat i \<in> S \<and> src + of_nat i \<in> S" using i by simp
  from user_strncpy_loop_view [OF assms(1) this]
  show "\<exists>m'. user_strncpy m dir tgt src n = Some (m', snd (strncpy (view m S pa) tgt src n))
      \<and> view m' S pa = fst (strncpy (view m S pa) tgt src n) \<and> (\<forall>x. x \<in> pa ` S \<or> m' x = m x)"
    by (auto simp: user_strncpy_def strncpy_def reaches_def)
  have "\<forall>i\<le>length cs. tgt + 0 + of_nat i \<in> S \<and> src + 0 + of_nat i \<in> S" "cstr (view m S pa) (src + 0) cs"
    using i assms(3,4) by simp_all
  from user_strcpy_loop_view [OF assms(1) this assms(5,6)]
  show "\<exists>m'. user_strcpy m dir tgt src = Some m' \<and> strcpy (view m S pa) tgt src = Some (view m' S pa)
      \<and> (\<forall>x. x \<in> pa ` S \<or> m' x = m x)"
    by (auto simp: user_strcpy_def strcpy_def reaches_def)
qed

text \<open>In use: a space of user-writable identity mappings, and one page above the heap.\<close>

lemma user_range_above_heap:
  fixes m0 :: memory
  obtains m v dir where "user_range m v dir {x. within 0x8000000 4096 x} (\<lambda>x. x)"
    and "\<forall>x. within 0x8000000 4096 x \<longrightarrow> m x = m0 x"
proof -
  let ?a = "0x8000000 :: u32" and ?b = "boot_mach\<lparr>mem := m0\<rparr>"
  have "kinv ?b" "1027 \<le> kavail ?b" "bit (7 :: u8) 0" using boot_mach_room by simp_all
  from create_space_facts [OF this] obtain v s' where
    c: "create_virtual_address_space ?b 7 = Some (v, s')" "kinv s'" "vspace_ok (mem s') v"
    "\<And>q. space_page (mem s') v q \<Longrightarrow> q \<in> kused s'" "\<And>x. x \<notin> kused s' \<Longrightarrow> mem s' x = mem ?b x"
    "\<And>need va. ucast (7 :: u8) AND need = need \<Longrightarrow>
       user_addr (mem s') (page_directory_entries (mem s') (vspace_pd (mem s') v)) need va = Some va"
    by blast
  have geo: "heap_base (kheap s') = 0x1000000" "num_entries (kheap s') = 25600"
    using rest_eqD(11,12) [OF create_vspace_rest [OF c(1)]] by (simp_all add: boot_mach_def)
  have out: "x \<notin> kused s'" if "within ?a 4096 x" for x
  proof
    assume "x \<in> kused s'"
    from used_in_heap [OF c(2) this] have "unat x < 0x7400000" by (simp add: geo)
    moreover have "unat (x - ?a) < 4096" using that by (simp add: within_def word_less_nat_alt)
    then have "unat x = 0x8000000 + unat (x - ?a)"
      using unat_word_ariths(1) [of ?a "x - ?a"] by simp
    ultimately show False by simp
  qed
  have "\<not> space_page (mem s') v (x AND 0xfffff000)" if "within ?a 4096 x" for x
    using c(4) out [OF that] kused_page [OF c(2), of x] by blast
  then have "user_range (mem s') v (page_directory_entries (mem s') (vspace_pd (mem s') v)) {x. within ?a 4096 x} (\<lambda>x. x)"
    using c(3) c(6) [of 5] c(6) [of 7] by (simp add: user_range_def inj_on_def)
  moreover have "\<forall>x. within ?a 4096 x \<longrightarrow> mem s' x = m0 x" using out c(5) by simp
  ultimately show thesis by (rule that)
qed

theorem user_strings_refine_witness:
  "\<exists>m dir m'. user_strlen m dir 0x8000000 = Some 2 \<and> user_strcpy m dir 0x8000010 0x8000000 = Some m'
     \<and> m' 0x8000010 = 0x68 \<and> m' 0x8000011 = 0x69 \<and> m' 0x8000012 = 0"
proof -
  let ?src = "0x8000000 :: u32" and ?tgt = "0x8000010 :: u32" and ?S = "{x. within (0x8000000 :: u32) 4096 x}"
  obtain m v dir where r: "user_range m v dir ?S (\<lambda>x. x)"
    "\<forall>x. within ?src 4096 x \<longrightarrow> m x = store32 (\<lambda>_. 0) ?src 0x6968 x" by (rule user_range_above_heap)
  have S: "\<forall>i\<le>unat (2 :: u32). ?tgt + of_nat i \<in> ?S \<and> ?src + of_nat i \<in> ?S"
  proof (intro allI impI)
    fix i assume "i \<le> unat (2 :: u32)"
    then have "i = 0 \<or> i = 1 \<or> i = 2" by auto
    then show "?tgt + of_nat i \<in> ?S \<and> ?src + of_nat i \<in> ?S" by (auto simp: within_def)
  qed
  have c: "cstr (view m ?S (\<lambda>x. x)) ?src [0x68, 0x69]"
    using r(2) by (simp add: view_def within_def store32_def)
  have pre: "length [0x68, 0x69 :: u8] \<le> unat (2 :: u32)" "Suc (length [0x68, 0x69 :: u8]) < 2 ^ 32"
    "?tgt = ?src \<or> of_nat (length [0x68, 0x69 :: u8]) + 1 \<le> ?tgt - ?src" by simp_all
  note t = user_strings_refine [OF r(1) S c pre]
  obtain m' where m': "user_strcpy m dir ?tgt ?src = Some m'"
    "strcpy (view m ?S (\<lambda>x. x)) ?tgt ?src = Some (view m' ?S (\<lambda>x. x))"
    using t by blast
  have l: "user_strlen m dir ?src = Some 2" using conjunct1 [OF t] strlen_cstr [OF c] by simp
  have "strcpy (view m ?S (\<lambda>x. x)) ?tgt ?src = Some (memcpy (view m ?S (\<lambda>x. x)) ?tgt ?src 3)"
    using strcpy_memcpy [OF c, of ?tgt] by simp
  then have "view m' ?S (\<lambda>x. x) = memcpy (view m ?S (\<lambda>x. x)) ?tgt ?src 3" using m'(2) by simp
  then have "view m' ?S (\<lambda>x. x) (?tgt + k) = memcpy (view m ?S (\<lambda>x. x)) ?tgt ?src 3 (?tgt + k)" for k by simp
  from this [of 0] this [of 1] this [of 2] c
  have "m' ?tgt = 0x68 \<and> m' (?tgt + 1) = 0x69 \<and> m' (?tgt + 2) = 0"
    by (simp add: view_def within_def memcpy.simps [where n = 3] memcpy.simps [where n = 2]
        memcpy.simps [where n = 1] memcpy.simps [where n = 0])
  then show ?thesis using l m'(1) by auto
qed

end
