(* ===== verification/User_Digits.thy ===== *)
theory User_Digits
  imports User_Str User_Print Process_Mem
begin

text \<open>
  A user program turns a number into text: the block that \<open>malloc\<close> of the user library gets from the kernel, and
  the digits that \<open>itoa\<close> writes into it through the page tables of the program.
\<close>

section \<open>Allocating a block\<close>

text \<open>\<open>user_process w s lo n pa\<close>: a program that may trap and whose process may take memory. The current task is the
  task of the current process, the block of the process is outside the trap area and has a free slot, the heap has a
  free block, and the directory lets the user write where the tables do.\<close>

definition user_process :: "'a kernst_scheme usr \<Rightarrow> 'a kernst_scheme \<Rightarrow> u32 \<Rightarrow> nat \<Rightarrow> (nat \<Rightarrow> u32) \<Rightarrow> bool" where
  "user_process w s lo n pa \<longleftrightarrow>
     (let p = current_process s
      in user_wf w s lo n pa \<and> process_wf s p \<and> process_task (mem s) p = cur_task s
       \<and> (\<forall>x. trap_area s n pa x \<longrightarrow> \<not> within p process_size x)
       \<and> (\<exists>i<1024. load32 (mem s) (alloc_slot p i) = 0) \<and> 0 < kavail s
       \<and> (\<forall>va. pde (mem s) (task_space (mem s) (cur_task s)) va AND 7 = 7))"

text \<open>What a trap may change besides: the block of the process, and the pages of its space.\<close>

definition malloc_area :: "'a procst_scheme \<Rightarrow> nat \<Rightarrow> (nat \<Rightarrow> u32) \<Rightarrow> u32 \<Rightarrow> bool" where
  "malloc_area s n pa x \<longleftrightarrow> trap_area s n pa x \<or> within (current_process s) process_size x
     \<or> space_page (mem s) (task_space (mem s) (cur_task s)) (x AND 0xfffff000)"

text \<open>The kernel has read the size from the stack; the process is as it was.\<close>

lemma malloc_entry:
  fixes s :: "'a kernst_scheme"
  assumes up: "user_process w s lo n pa"
  obtains m t u where "user_store32 (mem s) (cr3 s) (fr_esp (regs w s)) sz = Some m"
    and "current_task_save_state (change_to_kernel_page_directory (s\<lparr>mem := m\<rparr>)) (regs w s) = Some t"
    and "x80_functions t = syscall_table" and "task_access_stack t (current_task t) 0 = Some (sz, u)"
    and "process_wf u (current_process s)" and "current_process u = current_process s" and "cur_task u = cur_task s"
    and "kheap u = kheap s" and "\<forall>x. trap_area s n pa x \<or> mem u x = mem s x"
    and "process_task (mem u) (current_process s) = cur_task s"
    and "process_space (mem u) (current_process s) = task_space (mem s) (cur_task s)"
    and "space_page (mem u) (task_space (mem s) (cur_task s)) = space_page (mem s) (task_space (mem s) (cur_task s))"
    and "\<And>va. pde (mem u) (task_space (mem s) (cur_task s)) va AND 7 = 7"
    and "\<exists>i. find_alloc (mem u) (current_process u) 0 0 1024 = Some i"
proof -
  let ?p = "current_process s" and ?f = "regs w s" and ?v = "task_space (mem s) (cur_task s)"
  have wf: "user_wf w s lo n pa" and pw: "process_wf s ?p" and task: "process_task (mem s) ?p = cur_task s"
    and far: "\<forall>x. trap_area s n pa x \<longrightarrow> \<not> within ?p process_size x"
    and pd: "\<And>va. pde (mem s) ?v va AND 7 = 7"
    using up by (simp_all add: user_process_def Let_def)
  obtain i where i: "i < 1024" "load32 (mem s) (alloc_slot ?p i) = 0"
    using up by (auto simp: user_process_def Let_def)
  note d = user_wfD [OF wf] and D = process_wfD [OF pw]
  obtain m t where p: "user_store32 (mem s) (cr3 s) (fr_esp ?f) sz = Some m"
    "current_task_save_state (change_to_kernel_page_directory (s\<lparr>mem := m\<rparr>)) ?f = Some t"
    "t = (change_to_kernel_page_directory (s\<lparr>mem := m\<rparr>))\<lparr>mem := mem t\<rparr>"
    "\<forall>x. trap_area s n pa x \<or> mem t x = mem s x"
    "vload32 (mem t) (cr3 s) (task_esp (mem t) (cur_task s)) = Some sz"
    by (rule saved_argument [OF wf]) (rule that)
  have t: "cur_task t = cur_task s" "x80_functions t = syscall_table" "current_process t = ?p" "kheap t = kheap s"
    by (subst p(3), simp add: switches d(4))+
  note kt = user_space_keep [OF wf p(4)]
  define u where "u = change_to_kernel_page_directory (change_to_given_task_page_directory t (cur_task s))"
  have acc: "task_access_stack t (current_task t) 0 = Some (sz, u)"
    using p(5) by (simp add: task_access_stack_def Let_def u_def switches kt(1,2) current_task_def t)
  have u: "mem u = mem t" "cur_task u = cur_task s" "current_process u = ?p" "kheap u = kheap s"
    by (simp_all add: u_def switches t)
  have same: "\<forall>x. trap_area s n pa x \<or> mem u x = mem s x" unfolding u(1) by (rule p(4))
  have ps: "process_space (mem s) ?p = ?v" by (simp add: process_space_def task)
  have in_p: "load32 (mem u) a = load32 (mem s) a" if "\<And>x. within a 4 x \<Longrightarrow> within ?p process_size x" for a
    by (rule load32_cong) (use that same far in blast)
  have ut: "process_task (mem u) ?p = process_task (mem s) ?p"
    unfolding process_task_def by (rule in_p) (rule within_nat_field [of ?p 516], simp_all)
  have sp: "\<forall>x. within (process_task (mem s) ?p) 4 x
      \<or> space_page (mem s) (process_space (mem s) ?p) (x AND 0xfffff000) \<longrightarrow> mem u x = mem s x"
    unfolding ps task using same d(6,7) by blast
  have hk: "kinv u" "heap_below_top (kheap u)" "kused s \<subseteq> kused u" using D(1,9) u(4) by simp_all
  note fr = process_wf_frame [OF pw hk ut sp]
  have ag: "\<forall>x. space_page (mem s) ?v (x AND 0xfffff000) \<longrightarrow> mem u x = mem s x" using same d(7) by blast
  have "load32 (mem u) (alloc_slot ?p i) = 0"
    using in_p [of "alloc_slot ?p i"] slots_within [OF i(1), of ?p] i(2) by simp
  then have fa: "\<exists>i. find_alloc (mem u) (current_process u) 0 0 1024 = Some i"
    using find_alloc_None [of "mem u" ?p 0 0 1024 i] i(1) u(3) by (cases "find_alloc (mem u) ?p 0 0 1024") auto
  show thesis
    by (rule that [OF p(1,2) t(2) acc fr(1) u(3,2,4) same])
      (use ut task fr(2) ps vspace_agree(6) [OF d(2) ag] pde_agree [OF d(2) ag] pd fa in simp_all)
qed

text \<open>\<open>malloc\<close> of the user library, from the push in the stub to the return to the task: a block that no one else
  uses, of zero bytes, which the program may read and write at the address it is given.\<close>

lemma usr_malloc_block:
  fixes s :: "'a kernst_scheme"
  assumes up: "user_process w s lo n pa" and sz: "0 < sz" "sz \<le> 4096"
  defines "v \<equiv> task_space (mem s) (cur_task s)"
  obtains a s' where "usr_malloc w sz s = Some (a, s')" and "a \<noteq> 0"
    and "\<And>x. within a sz x \<Longrightarrow> x \<notin> kused s \<and> x \<in> kused s' \<and> mem s' x = 0"
    and "vspace_ok (mem s') v" and "cr3 s' = page_directory_entries (mem s') (vspace_pd (mem s') v)"
    and "\<And>x. within a sz x \<Longrightarrow> \<not> space_page (mem s') v (x AND 0xfffff000)"
    and "\<And>x need. within a sz x \<Longrightarrow> need AND 7 = need \<Longrightarrow> user_addr (mem s') (cr3 s') need x = Some x"
    and "\<And>x. within a sz x \<or> malloc_area s n pa x \<or> mem s' x = mem s x"
proof -
  let ?p = "current_process s" and ?f = "regs w s"
  have pw: "process_wf s ?p" and task: "process_task (mem s) ?p = cur_task s" and av: "0 < kavail s"
    using up by (simp_all add: user_process_def Let_def)
  obtain m t u where e: "user_store32 (mem s) (cr3 s) (fr_esp ?f) sz = Some m"
    "current_task_save_state (change_to_kernel_page_directory (s\<lparr>mem := m\<rparr>)) ?f = Some t"
    "x80_functions t = syscall_table" "task_access_stack t (current_task t) 0 = Some (sz, u)"
    "process_wf u ?p" "current_process u = ?p" "cur_task u = cur_task s" "kheap u = kheap s"
    "\<forall>x. trap_area s n pa x \<or> mem u x = mem s x" "process_task (mem u) ?p = cur_task s" "process_space (mem u) ?p = v"
    "space_page (mem u) v = space_page (mem s) v" "\<And>va. pde (mem u) v va AND 7 = 7"
    "\<exists>i. find_alloc (mem u) (current_process u) 0 0 1024 = Some i"
    by (rule malloc_entry [OF up, of sz, folded v_def]) (rule that)
  note D = process_wfD [OF e(5), unfolded e(10,11)]
  obtain i where i: "find_alloc (mem u) (current_process u) 0 0 1024 = Some i" using e(14) by blast
  have uav: "0 < kavail u" using av e(8) by simp
  obtain a u1 where k: "kzalloc u sz = Some (a, u1)" "a \<noteq> 0" "a mod 4096 = 0" "a \<notin> kused u"
    "\<forall>x. within a sz x \<longrightarrow> x \<notin> kused u \<and> x \<in> kused u1" "\<forall>x. x \<in> kused u \<longrightarrow> mem u1 x = mem u x"
    by (rule pages.alloc_pageE [OF D(1) uav sz]) (rule that, assumption+)
  have room: "unat a + 4096 * unat (pages_of sz) < 2 ^ 32" "unat sz \<le> 2 ^ 32 - 4096"
    using malloc_room [OF D(1,9) kzalloc_kheap [OF k(1)] k(2)] by simp_all
  have one: "0 < unat (pages_of sz)"
    unfolding pages_of_eq [OF room(2)] using sz(1) by (simp add: word_less_nat_alt)
  obtain r where r: "process_malloc u sz = Some (a, r)" "r = u1\<lparr>mem := mem r\<rparr>" "process_wf r (current_process u)"
    "\<And>va. process_pte (mem r) (current_process u) va =
      (if page_dist a va < unat (pages_of sz) then (va AND 0xfffff000) OR 7
       else process_pte (mem u) (current_process u) va)"
    "\<And>x. \<not> space_page (mem u) (process_space (mem u) (current_process u)) (x AND 0xfffff000) \<Longrightarrow>
      \<not> within (current_process u) process_size x \<Longrightarrow> mem r x = mem u1 x"
    "process_space (mem r) (current_process u) = process_space (mem u) (current_process u)"
    "space_page (mem r) (process_space (mem u) (current_process u))
      = space_page (mem u) (process_space (mem u) (current_process u))"
    "\<And>va. pde (mem r) (process_space (mem u) (current_process u)) va
      = pde (mem u) (process_space (mem u) (current_process u)) va"
    by (rule process_malloc_facts [OF e(5) [folded e(6)] i k(1) room(1)]) (rule that)
  note r = r(1,2) r(3-8) [unfolded e(6) e(11)]
  have hp: "kheap r = kheap u1" "cur_task r = cur_task s"
    by (subst r(2), simp, subst r(2), subst kzalloc_frame [OF k(1)], simp add: e(7))
  have vr: "task_space (mem r) (cur_task s) = v"
  proof -
    have "mem r x = mem u x" if x: "within (cur_task s) 4 x" for x
    proof -
      have "mem r x = mem u1 x" using r(5) [of x] D(7,8) [OF x] by blast
      then show ?thesis using k(6) D(6) [OF x] by simp
    qed
    then have "task_space (mem r) (cur_task s) = task_space (mem u) (cur_task s)"
      unfolding task_space_def by (rule load32_cong)
    then show ?thesis using e(10,11) by (simp add: process_space_def)
  qed
  let ?s' = "change_to_current_task_page_directory r"
  have s': "mem ?s' = mem r" "kheap ?s' = kheap u1" "cr3 ?s' = page_directory_entries (mem r) (vspace_pd (mem r) v)"
    by (simp_all add: switches hp vr)
  have n3: "syscall_table ! 3 = Some X80_MALLOC" by (simp add: syscall_table_def)
  have call: "x80_command_handler t (int 3) = Some (Returns a r)"
    using e(4) r(1) by (simp add: x80_command_handler_def e(3) n3 syscall_numbers(2) x80_MALLOC_def)
  have res: "usr_malloc w sz s = Some (a, ?s')"
    unfolding usr_malloc_def int_0x80_arg_def Let_def e(1) Option.bind.bind_lunit isr_0x80_handler_def e(2) call by simp
  have pg: "x AND 0xfffff000 = a" if "within a sz x" for x
    using within_page [OF k(3), of x] within_head [OF sz(2) that] by simp
  have fresh: "\<not> space_page (mem r) v (x AND 0xfffff000)" if "within a sz x" for x
    unfolding r(7) pg [OF that] using D(3) k(4) by blast
  have ok: "vspace_ok (mem r) v" using process_wfD(2) [OF r(3)] r(6) by simp
  have ua: "user_addr (mem r) (page_directory_entries (mem r) (vspace_pd (mem r) v)) need x = Some x"
    if x: "within a sz x" and need: "need AND 7 = need" for x need
  proof (rule user_addr_self [OF ok _ _ need])
    show "pde (mem r) v x AND 7 = 7" unfolding r(8) by (rule e(13))
    have "page_dist a x = 0" using page_dist_0 [OF k(3)] pg [OF x] by simp
    then show "pte (mem r) (vspace_pd (mem r) v) x = (x AND 0xfffff000) OR 7"
      using r(4) [of x] r(6) one by (simp add: process_pte_def)
  qed
  have zero: "mem r x = 0" if x: "within a sz x" for x
  proof -
    have "x \<notin> kused u" using k(5) x by blast
    then have "mem r x = mem u1 x" using r(5) [of x] fresh [OF x] D(4) unfolding r(7) by blast
    then show ?thesis using kz.alloc_zeroed [OF D(1) k(1,2) x] by simp
  qed
  have frame: "within a sz x \<or> malloc_area s n pa x \<or> mem r x = mem s x" for x
  proof -
    have "mem r x = mem s x" if "\<not> within a sz x" "\<not> malloc_area s n pa x"
    proof -
      have x: "\<not> trap_area s n pa x" "\<not> within ?p process_size x" "\<not> space_page (mem s) v (x AND 0xfffff000)"
        using that(2) by (simp_all add: malloc_area_def v_def)
      then have "mem r x = mem u1 x" using r(5) [of x] e(12) by simp
      moreover have "mem u1 x = mem u x" using kz.alloc_frame [OF D(1) k(1), of x] that(1) by blast
      moreover have "mem u x = mem s x" using e(9) x(1) by blast
      ultimately show ?thesis by simp
    qed
    then show ?thesis by blast
  qed
  show thesis
  proof (rule that [OF res k(2)])
    show "x \<notin> kused s \<and> x \<in> kused ?s' \<and> mem ?s' x = 0" if "within a sz x" for x
      using k(5) zero [OF that] that unfolding s' e(8) [symmetric] by blast
  qed (use ok fresh ua frame s' in simp_all)
qed

section \<open>The digits\<close>

lemma int_buf_0 [simp]: "int_buf 0 = []"
  by (subst int_buf.simps) simp

lemma itoa_digits_int_buf: "itoa_digits (int n) = length (int_buf n)"
proof (induction n rule: int_buf.induct)
  case (1 n)
  then show ?case
    by (cases "n = 0") (simp_all add: itoa_digits.simps [of 0] itoa_digits.simps [of "int n"] int_buf.simps [of n] zdiv_int)
qed

lemma itoa_digits_sint: "itoa_digits z = length (int_buf (nat z))"
proof (cases "0 < z")
  case True
  then show ?thesis using itoa_digits_int_buf [of "nat z"] by simp
next
  case False
  then show ?thesis by (simp add: itoa_digits.simps [of z])
qed

lemma itoa_digit: "(word_of_int (0x30 + int n smod 10) :: u8) = of_nat (n mod 10) + 0x30"
proof -
  have "int n smod 10 = int (n mod 10)"
    by (cases "n = 0") (simp_all add: signed_modulo_int_def zmod_int)
  then show ?thesis by simp
qed

text \<open>Each store lands in its frame, and no store moves the tables.\<close>

lemma itoa_loop_writes:
  assumes ok: "vspace_ok m0 v" and dir: "dir = page_directory_entries m0 (vspace_pd m0 v)"
    and buf: "\<forall>i<N. user_addr m0 dir USER_WRITE (a + of_nat i) = Some (pa i)
      \<and> \<not> space_page m0 v (pa i AND 0xfffff000) \<and> (\<forall>j<N. pa i = pa j \<longrightarrow> i = j)"
    and len: "length (int_buf n) \<le> N"
    and same: "\<forall>x. space_page m0 v (x AND 0xfffff000) \<longrightarrow> m x = m0 x"
  shows "\<exists>m'. itoa_loop m dir a (length (int_buf n)) (int n) = Some m'
    \<and> (\<forall>i<length (int_buf n). m' (pa i) = rev (int_buf n) ! i)
    \<and> (\<forall>x. x \<in> pa ` {..<length (int_buf n)} \<or> m' x = m x)"
  using len same
proof (induction n arbitrary: m rule: int_buf.induct)
  case (1 n)
  show ?case
  proof (cases "0 < n")
    case False
    then show ?thesis by simp
  next
    case True
    let ?c = "of_nat (n mod 10) + 0x30 :: u8" and ?r = "int_buf (n div 10)"
    let ?k = "length ?r"
    have b: "int_buf n = ?c # ?r" using True by (simp add: int_buf.simps [of n])
    have k: "?k < N" using "1.prems"(1) b by simp
    let ?m = "m(pa ?k := ?c)"
    have "user_addr m dir USER_WRITE (a + of_nat ?k) = Some (pa ?k)"
      using user_addr_agree [OF ok "1.prems"(2)] buf k by (simp add: dir)
    then have st: "user_store8 m dir (a + of_nat ?k) ?c = Some ?m" by (simp add: user_store8_def)
    have "\<not> space_page m0 v (pa ?k AND 0xfffff000)" using buf k by blast
    then have "\<forall>x. space_page m0 v (x AND 0xfffff000) \<longrightarrow> ?m x = m0 x"
      using "1.prems"(2) by auto
    note ih = "1.IH" [OF True less_imp_le [OF k] this]
    obtain m' where m': "itoa_loop ?m dir a ?k (int (n div 10)) = Some m'"
      "\<forall>i<?k. m' (pa i) = rev ?r ! i" "\<forall>x. x \<in> pa ` {..<?k} \<or> m' x = ?m x"
      using ih by (elim exE conjE) (rule that)
    have "pa ?k \<notin> pa ` {..<?k}"
    proof
      assume "pa ?k \<in> pa ` {..<?k}"
      then obtain j where "j < ?k" "pa ?k = pa j" by blast
      then show False using buf k by (metis less_irrefl less_trans)
    qed
    then have top: "m' (pa ?k) = ?c" using m'(3) by (metis fun_upd_same)
    have dv: "int n sdiv 10 = int (n div 10)" using True by (simp add: signed_divide_int_def zdiv_int)
    have "itoa_loop m dir a (length (int_buf n)) (int n) = Some m'"
      unfolding b list.size(4) add_Suc_right add_0_right itoa_loop.simps(2) itoa_digit dv st Option.bind.bind_lunit
      by (rule m'(1))
    moreover have "m' (pa i) = rev (int_buf n) ! i" if "i < length (int_buf n)" for i
      using that m'(2) top unfolding b by (cases "i = ?k") (auto simp: nth_append)
    moreover have "x \<in> pa ` {..<length (int_buf n)} \<or> m' x = m x" for x
      using m'(3) [THEN spec, of x] unfolding b by (auto simp: lessThan_Suc)
    ultimately show ?thesis by blast
  qed
qed

text \<open>The digits in a block of zero bytes that the program may write: what it reads back.\<close>

lemma itoa_block_digits:
  fixes num :: u32
  assumes ok: "vspace_ok m v" and dir: "dir = page_directory_entries m (vspace_pd m v)"
    and block: "\<forall>x. within a 15 x \<longrightarrow> m x = 0 \<and> \<not> space_page m v (x AND 0xfffff000)
      \<and> (\<forall>need. need AND 7 = need \<longrightarrow> user_addr m dir need x = Some x)"
    and l: "length (int_buf (nat (sint num))) \<le> 10"
  defines "ds \<equiv> rev (int_buf (nat (sint num)))"
  obtains m' where "itoa_loop m dir a (itoa_digits (sint num)) (sint num) = Some m'"
    and "\<And>i. i \<le> length ds \<Longrightarrow> user_load8 m' dir (a + of_nat i) = Some ((ds @ [0]) ! i)"
    and "\<And>x. \<not> within a 15 x \<Longrightarrow> m' x = m x"
proof -
  let ?q = "\<lambda>i. a + of_nat i :: u32" and ?n = "nat (sint num)"
  have zero: "within a 15 x \<Longrightarrow> m x = 0" and nsp: "within a 15 x \<Longrightarrow> \<not> space_page m v (x AND 0xfffff000)"
    and ua: "within a 15 x \<Longrightarrow> need AND 7 = need \<Longrightarrow> user_addr m dir need x = Some x" for x need
    using block by blast+
  have w: "within a 15 (?q i)" if "i < 15" for i
    using of_nat_less_word(1) [of i "15 :: u32"] that by (simp add: within_def)
  have inj: "?q i = ?q j \<longleftrightarrow> i = j" if "i < 15" "j < 15" for i j
    using that of_nat_u32_eq_iff [of i j] by simp
  have buf: "\<forall>i<15. user_addr m dir USER_WRITE (a + of_nat i) = Some (?q i)
      \<and> \<not> space_page m v (?q i AND 0xfffff000) \<and> (\<forall>j<15. ?q i = ?q j \<longrightarrow> i = j)"
    using nsp [OF w] ua [OF w] inj by simp
  have l15: "length (int_buf ?n) \<le> 15" using l by simp
  obtain m' where m': "itoa_loop m dir a (length (int_buf ?n)) (int ?n) = Some m'"
    "\<forall>i<length (int_buf ?n). m' (?q i) = ds ! i" "\<forall>x. x \<in> ?q ` {..<length (int_buf ?n)} \<or> m' x = m x"
    using itoa_loop_writes [OF ok dir buf l15, of m] unfolding ds_def by blast
  have run: "itoa_loop m dir a (itoa_digits (sint num)) (sint num) = Some m'"
    using m'(1) by (cases "0 \<le> sint num") (simp_all add: itoa_digits_sint)
  have out: "m' x = m x" if "\<not> within a 15 x" for x
  proof -
    have "x \<notin> ?q ` {..<length (int_buf ?n)}" using that w l by auto
    then show ?thesis using m'(3) by blast
  qed
  have ag: "\<forall>x. space_page m v (x AND 0xfffff000) \<longrightarrow> m' x = m x" using out nsp by blast
  have val: "m' (?q i) = (ds @ [0]) ! i" if i: "i \<le> length ds" for i
  proof (cases "i < length ds")
    case True
    then show ?thesis using m'(2) by (simp add: nth_append ds_def)
  next
    case False
    then have e: "i = length (int_buf ?n)" "i < 15" using i l by (simp_all add: ds_def)
    then have "?q i \<notin> ?q ` {..<length (int_buf ?n)}" using inj by fastforce
    then have "m' (?q i) = m (?q i)" using m'(3) by blast
    then show ?thesis using zero [OF w [OF e(2)]] e(1) by (simp add: nth_append ds_def)
  qed
  have "user_load8 m' dir (?q i) = Some ((ds @ [0]) ! i)" if i: "i \<le> length ds" for i
  proof -
    have "i < 15" using i l by (simp add: ds_def)
    then have "user_addr m dir USER_READ (?q i) = Some (?q i)" using ua [OF w, of i 5] by simp
    then have "user_addr m' dir USER_READ (?q i) = Some (?q i)" using user_addr_agree [OF ok ag] by (simp add: dir)
    then show ?thesis using val [OF i] by (simp add: user_load8_def)
  qed
  then show thesis using that run out by blast
qed

text \<open>C32: \<open>itoa\<close> of a user program whose process may take memory returns a string of its own. The address it answers
  is a block that no one used before; from there the program reads the decimal digits of a positive number, without
  a leading zero, and the zero byte that ends them. A number that is not positive gives the empty string. Memory is as
  before but for the 15 bytes of the block and what taking it writes: the saved registers, the stack, the block
  of the process and the pages of its space.\<close>

theorem itoa_decimal:
  assumes "user_process w s lo n pa"
  shows "\<exists>a s' ds. itoa w num s = Some (a, s') \<and> a \<noteq> 0 \<and> (\<forall>x. within a 15 x \<longrightarrow> x \<notin> kused s \<and> x \<in> kused s')
    \<and> (\<forall>i\<le>length ds. user_load8 (mem s') (cr3 s') (a + of_nat i) = Some ((ds @ [0]) ! i))
    \<and> length ds \<le> 10 \<and> list_all is_digit ds \<and> decimal_val ds = nat (sint num) \<and> (ds = [] \<or> hd ds \<noteq> 0x30)
    \<and> (\<forall>x. within a 15 x \<or> malloc_area s n pa x \<or> mem s' x = mem s x)"
proof -
  let ?v = "task_space (mem s) (cur_task s)" and ?n = "nat (sint num)"
  let ?ds = "rev (int_buf ?n)"
  have sz: "(0 :: u32) < 15" "(15 :: u32) \<le> 4096" by simp_all
  obtain a t where t: "usr_malloc w 15 s = Some (a, t)" "a \<noteq> 0"
    "\<And>x. within a 15 x \<Longrightarrow> x \<notin> kused s \<and> x \<in> kused t \<and> mem t x = 0" "vspace_ok (mem t) ?v"
    "cr3 t = page_directory_entries (mem t) (vspace_pd (mem t) ?v)"
    "\<And>x. within a 15 x \<Longrightarrow> \<not> space_page (mem t) ?v (x AND 0xfffff000)"
    "\<And>x need. within a 15 x \<Longrightarrow> need AND 7 = need \<Longrightarrow> user_addr (mem t) (cr3 t) need x = Some x"
    "\<And>x. within a 15 x \<or> malloc_area s n pa x \<or> mem t x = mem s x"
    by (rule usr_malloc_block [OF assms sz]) (rule that)
  have "sint num < 2147483648" using sint_lt [of num] by simp
  then have "?n < 10 ^ 10" by (simp add: nat_less_iff)
  then have l: "length (int_buf ?n) \<le> 10" by (rule length_int_buf)
  have block: "\<forall>x. within a 15 x \<longrightarrow> mem t x = 0 \<and> \<not> space_page (mem t) ?v (x AND 0xfffff000)
      \<and> (\<forall>need. need AND 7 = need \<longrightarrow> user_addr (mem t) (cr3 t) need x = Some x)"
    using t(3,6,7) by simp
  obtain m' where m': "itoa_loop (mem t) (cr3 t) a (itoa_digits (sint num)) (sint num) = Some m'"
    "\<And>i. i \<le> length ?ds \<Longrightarrow> user_load8 m' (cr3 t) (a + of_nat i) = Some ((?ds @ [0]) ! i)"
    "\<And>x. \<not> within a 15 x \<Longrightarrow> m' x = mem t x"
    by (rule itoa_block_digits [OF t(4,5) block l]) (rule that)
  have run: "itoa w num s = Some (a, t\<lparr>mem := m'\<rparr>)" by (simp add: itoa_def t(1) m'(1))
  have "list_all is_digit ?ds" using is_digit_int_buf by (auto simp: list_all_iff)
  moreover have "?ds = [] \<or> hd ?ds \<noteq> 0x30" using last_int_buf [of ?n] by (cases "?n = 0") (simp_all add: hd_rev)
  moreover have "within a 15 x \<or> malloc_area s n pa x \<or> m' x = mem s x" for x using m'(3) t(8) by metis
  ultimately show ?thesis
    using run t(2,3) l m'(2) decimal_val_int_buf [of ?n]
    by (intro exI [of _ a] exI [of _ "t\<lparr>mem := m'\<rparr>"] exI [of _ ?ds]) simp
qed

text \<open>In use: the process at \<open>0x1000000\<close>, of the task at \<open>0x1003000\<close>, with no allocation yet.\<close>

theorem itoa_decimal_witness:
  "\<exists>(s :: kernst) a s' ds. itoa demo_usr 42 s = Some (a, s') \<and> a \<noteq> 0 \<and> decimal_val ds = 42
    \<and> (\<forall>i\<le>length ds. user_load8 (mem s') (cr3 s') (a + of_nat i) = Some ((ds @ [0]) ! i))"
proof -
  let ?p = "0x1000000 :: u32" and ?t = "0x1003000 :: u32" and ?pa = "\<lambda>i. 0x1002800 + of_nat i :: u32"
  let ?m0 = "store32 (\<lambda>_. 0) 0x1000204 ?t"
  obtain s :: kernst where s: "user_wf demo_usr s 0x1002800 4 ?pa" "cur_task s = ?t" "task_space_wf s ?t"
    "kavail s = 24569" "heap_base (kheap s) = 0x1000000" "num_entries (kheap s) = 25600"
    "\<And>x. within ?p 0x4000 x \<Longrightarrow> x \<in> kused s"
    "\<And>x. within ?p 0x4000 x \<Longrightarrow> \<not> space_page (mem s) (task_space (mem s) ?t) (x AND 0xfffff000)"
    "\<And>x. within ?p 0x4000 x \<Longrightarrow> \<not> within ?t 4 x \<Longrightarrow> mem s x = ?m0 x"
    "\<And>need va. 7 AND need = need \<Longrightarrow> user_addr (mem s) (cr3 s) need va = Some va"
    "\<And>x. trap_area s 4 ?pa x \<longleftrightarrow> within 0x1003004 48 x \<or> within 0xB8000 40960 x \<or> within 0x1002800 4 x"
    by (rule demo_user_ready [of ?m0]) (rule that)
  note d = user_wfD [OF s(1), unfolded s(2)]
  let ?s = "s\<lparr>current_process := ?p\<rparr>"
  have ap: "apart ?p 9760 ?t 4" "apart ?p 9760 0x1003004 48" "apart 0xB8000 40960 ?p 9760" "apart ?p 9760 0x1002800 4"
    by (simp_all add: apart_below)
  have b: "within ?p 0x4000 x" if "within ?p 9760 x \<or> within ?t 4 x" for x
    using that within_head [of 9760 "0x4000" ?p x] within_tail [of "0x3000" "0x4000" ?p x] within_head [of 4 "0x1000" ?t x] by auto
  have m: "load32 (mem s) a = load32 ?m0 a" if "\<And>x. within a 4 x \<Longrightarrow> within ?p 9760 x" for a
    by (rule load32_cong, rule s(9)) (use that b apartD [OF ap(1)] in blast)+
  have task: "process_task (mem s) ?p = ?t"
    unfolding process_task_def by (subst m) (use within_nat_field [of ?p 516] in simp_all)
  have slot: "load32 (mem s) (alloc_slot ?p 0) = 0"
    using slots_within [of 0 ?p] slots_apart(1) [of 0 ?p] by (subst m) (simp_all add: apart4_sym, simp add: load32_def)
  have "user_process demo_usr ?s 0x1002800 4 ?pa"
    unfolding user_process_def Let_def
  proof (intro conjI)
    show "user_wf demo_usr ?s 0x1002800 4 ?pa" by (rule user_wf_keep [OF s(1)]) (use d(5) in simp_all)
    show "process_wf ?s (current_process ?s)"
      using s(3) s(5-8) b apartD [OF ap(1)] task
      by (auto simp: process_wf_def task_space_wf_def Let_def process_space_def heap_below_top_def)
    show "process_task (mem ?s) (current_process ?s) = cur_task ?s" by (simp add: task s(2))
    show "\<forall>x. trap_area ?s 4 ?pa x \<longrightarrow> \<not> within (current_process ?s) process_size x"
      using s(11) ap by (auto simp: trap_area_def dest: apartD apartD')
    show "\<exists>i<1024. load32 (mem ?s) (alloc_slot (current_process ?s) i) = 0" using slot by (intro exI [of _ 0]) simp
    show "0 < kavail ?s" by (simp add: s(4))
    show "\<forall>va. pde (mem ?s) (task_space (mem ?s) (cur_task ?s)) va AND 7 = 7"
    proof
      fix va
      have "user_addr (mem s) (cr3 s) 7 va = Some va" by (rule s(10)) simp
      then show "pde (mem ?s) (task_space (mem ?s) (cur_task ?s)) va AND 7 = 7"
        using user_addr_pte [OF d(2), of 7 va] d(3) by (simp add: s(2) task_dir_def split: if_splits)
    qed
  qed
  from itoa_decimal [OF this, of 42] obtain a s' ds where
    "itoa demo_usr 42 ?s = Some (a, s')" "a \<noteq> 0" "decimal_val ds = nat (sint (42 :: u32))"
    "\<forall>i\<le>length ds. user_load8 (mem s') (cr3 s') (a + of_nat i) = Some ((ds @ [0]) ! i)" by blast
  then show ?thesis by (intro exI [of _ ?s] exI [of _ a] exI [of _ s'] exI [of _ ds]) simp
qed

end
