(* ===== verification/Spec2Isabelle.thy ===== *)
theory Spec2Isabelle
  imports Kernel_Start Task_New Process_Image Fat16_Dir Path_Names Syscall_Print User_Digits
begin

text \<open>
  \<^bold>\<open>Verification of gammaOS\<close>, a small kernel for 32-bit x86 in C (\<^verbatim>\<open>src/\<close>), with its user library
  and its shell.

  \<^bold>\<open>The program.\<close> \<open>kernel_start\<close> (\<^verbatim>\<open>kernel/kernel.c\<close>) builds the descriptor tables, a heap of 4 KB blocks,
  the address space of the kernel, the file system and one disk, loads the shell from a FAT16 volume as the
  first process and enters it. From then on the kernel runs on interrupts: the keyboard puts characters into
  the ring of the current process, and interrupt 0x80 is the seven system calls, through which processes
  print, read keys, allocate memory, load other programs and end. A process is a task (saved registers and an
  address space) with the file it was loaded from, a stack, up to 1024 allocations and a ring.

  \<^bold>\<open>Theories, in the order they build on each other.\<close>
  \<^item> \<open>Prelude\<close>: the types of machine words, the constants of \<^verbatim>\<open>config.h\<close>, the error numbers of
    \<^verbatim>\<open>kernel/kstatus.h\<close>, the collections of rules.
  \<^item> \<open>CMem\<close>: memory as a function from 32-bit addresses to bytes, little-endian loads and stores, the ranges
    \<open>within\<close>; \<^verbatim>\<open>mm/memory.c\<close>. \<open>Str\<close>: \<^verbatim>\<open>string/string.c\<close>, and the predicate \<open>cstr\<close> for terminated
    strings.
  \<^item> \<open>Alloc_Spec\<close>, \<open>Queue_Spec\<close>: the interfaces of an allocator and of a bounded queue, as locales.
  \<^item> \<open>Heap\<close>: \<^verbatim>\<open>mm/heap/heap.c\<close>; \<open>KHeap\<close>: \<^verbatim>\<open>mm/heap/kheap.c\<close>, the heap joined to memory.
  \<^item> \<open>Vga\<close>: \<^verbatim>\<open>drivers/display/vga/vga.c\<close>. \<open>Machine\<close>: ports (\<^verbatim>\<open>io/io.s\<close>), the registers the C code
    loads, and \<open>rest\<close>, the part of the state a driver leaves alone.
  \<^item> \<open>Disk\<close>: \<^verbatim>\<open>drivers/disk/disk.c\<close>. \<open>Paging\<close>: \<^verbatim>\<open>mm/paging/paging.c\<close> and the translation the processor
    makes of the tables (\<open>mmu\<close>). \<open>Gdt\<close>: \<^verbatim>\<open>kernel/gdt/gdt.c\<close>.
  \<^item> \<open>Parser\<close>, \<open>Path_Names\<close>: \<^verbatim>\<open>fs/parser/parser.c\<close>, the code and what it computes. \<open>Fat16\<close>,
    \<open>Fat16_Files\<close>, \<open>Fat16_Dir\<close>: \<^verbatim>\<open>fs/fat16/fat16.c\<close>, the code, files and directories. \<open>Vfs\<close>: \<^verbatim>\<open>fs/vfs/vfs.c\<close>, \<^verbatim>\<open>fs/file.c\<close> and
    \<open>disk_init\<close>.
  \<^item> \<open>Elf\<close>: \<^verbatim>\<open>g-loader/\<close>. \<open>Task\<close>: \<^verbatim>\<open>kernel/task/task.c\<close> and \<^verbatim>\<open>task.s\<close>; \<open>Task_New\<close>: what a new
    task is; \<open>Task_Copy\<close>: the copy from a task to the kernel. \<open>Process\<close>:
    \<^verbatim>\<open>kernel/task/process/process.c\<close>; \<open>Process_Mem\<close>: the memory calls; \<open>Process_Image\<close>: the image of a loaded file.
  \<^item> \<open>Keyboard\<close>: \<^verbatim>\<open>drivers/keyboard/\<close>. \<open>Syscall\<close>: \<^verbatim>\<open>kernel/idt/\<close> with \<^verbatim>\<open>__0x80/\<close>.
  \<^item> \<open>Kernel\<close>: \<open>kernel_start\<close> and \<^verbatim>\<open>kernel/task/tss/tss.h\<close>; \<open>Kernel_Start\<close>: what the start has built.
  \<^item> \<open>User_Lib\<close>: \<^verbatim>\<open>usrspc/\<close>, the stubs, the library and the shell; \<open>User_Print\<close>: a user program that prints;
    \<open>Syscall_Print\<close>: the call that prints a string; \<open>User_Str\<close>: the string
    routines of the library; \<open>User_Digits\<close>: \<open>malloc\<close> of the library from stub to mapped block, and \<open>itoa\<close>.

  \<^bold>\<open>State.\<close> One record, extended from theory to theory: \<open>kst\<close> (memory and heap), \<open>vga\<close>, \<open>mach\<close>
  (devices, registers, the address of the kernel's space), \<open>fsst\<close> (file systems, descriptors, disks), \<open>taskst\<close>
  (current task and task list), \<open>procst\<close> (process table), \<open>kbst\<close> (handlers, keyboard list), \<open>kernst\<close>
  (descriptor table, system calls), \<open>kernelst\<close> (what the linker and the start decide). Operations are
  polymorphic in the extension, so each theory works on the state of any later one. Objects of the C code that
  are reached by pointers (tasks, processes, page tables, directories, descriptors, paths) live in the byte
  memory at their C offsets and are read by field functions such as \<open>task_space m t\<close>; static variables and
  arrays are record fields. The block table of the heap is a function, because nothing else addresses it.

  \<^bold>\<open>Conventions.\<close> A C integer is a word of its width; signed comparisons use \<open>sint\<close>. \<open>None\<close> is an execution
  that does not come back: a panic, a loop that does not end (\<open>partial_function (option)\<close>), an access that
  faults for ever, or undefined behaviour; error codes are values. A null pointer is 0, a null function pointer
  \<open>None\<close>. A loop with a bound is a \<open>function\<close> with a termination proof; no fuel is used anywhere. Devices are a
  function from the history of port accesses to the value of the next read; a statement that needs a device to
  answer says so on this function. The addresses of local objects whose address escapes are the field
  \<open>local_addr\<close>.

  \<^bold>\<open>What is shown.\<close> The claims are numbered C1, C2, \<dots> in the theories; the groups are:
  \<^item> heap: first fit, freshness, disjointness along every run of calls, zeroing and framing (locales
    \<open>allocator\<close>, \<open>zeroing_allocator\<close>, \<open>page_allocator\<close>, interpreted on \<open>malloc\<close> and \<open>kzalloc\<close>);
  \<^item> paging: a new space is the identity, a range maps to consecutive frames and nothing else moves, and the
    processor's translation depends on the pages of the space alone (\<open>vspace_agree\<close>, \<open>mmu_agree\<close>), which is what
    lets the later theories change memory under a running address space;
  \<^item> console, keyboard, disk and files: where the console writes and what shows, the ring as a queue (locale
    \<open>char_queue\<close>), reads of the disk stream as reads of a flat byte space, the first cluster of a file,
    the root directory, short names, path names, the tables of descriptors;
  \<^item> tasks and processes: a new task as a whole, the list of tasks as a list, round robin, saving and entering,
    the copy from a task through a shared page, the allocations of a process, the image of an ELF file in its address space;
  \<^item> the kernel as a whole: the gates and the dispatch of system calls, a transparent default interrupt, the
    state in which the start turns to the disk, the string the system call PRINT shows, and \<open>printf\<close>
    of a user program from the format in its memory down to the cells of the console; \<open>itoa\<close> of a user program with the
    allocation it makes; the string routines of the user library refine those
    of the kernel.
  Several theorems show what the code does where that is not what it means to do; the manifest lists them as
  findings.

  \<^bold>\<open>Not modelled.\<close> The boot sector and the entry stubs of the interrupts, which are assembly around the modelled
  handlers (the frame they push is an argument); the instructions that load the descriptor-table registers and the
  interrupt flag (their effect is a field; the load of the task register is modelled with the busy bit it writes);
  the accessed bits that a load of a segment register may set in its descriptor, of which there is none between
  the load of the table and the end of \<open>start_memory\<close>; the declarations of headers. Interrupts do not arrive inside kernel code: the gates clear the
  interrupt flag and no handler sets it. The double-word port instructions are never used. Write protection is not checked
  for accesses of the kernel, because it never sets the bit of \<open>cr0\<close> that would; it is for user programs.
  Of the FAT16 driver the theorems cover the root directory, the reading of the first cluster and the names; the walk along the
  chain of clusters is modelled and its errors are findings.

  \<^bold>\<open>Where the model is coarser than the C code.\<close> The counts of printed characters (\<open>printf_loop\<close>) and of items read
  (\<open>read_members_loop\<close>) are natural numbers, C integers that overflow from \<open>2 ^ 31\<close> on. Each activation of a recursive
  \<open>disk_stream_read\<close> has its sector buffer at the one address \<open>local_addr s Temp_buffer\<close>, where the C code has one buffer
  for each. A descriptor that holds a number of 1024 or more, which the file calls never store, clears no entry in \<open>vfs_fclose\<close>,
  where the C code would write behind the table.
\<close>

end
